(* ===== verification/Prelude.thy ===== *)
theory Prelude
  imports Main
    "HOL-Library.Word"
    "HOL-Library.Char_ord"
    "HOL-Library.List_Lexorder"
    "HOL-Library.Product_Lexorder"
begin

text \<open>
  Shared vocabulary of the development: the Go machine types, Go slices that may be nil,
  the facts about 64-bit words that the hybrid logical clock needs, and the XOR sums over
  finite sets that the rolling digests of the sharded map are.

  Go strings and byte slices are sequences of bytes; a byte is a \<^typ>\<open>char\<close> here, so a
  string literal is also a byte string, and the order on \<^typ>\<open>string\<close> is Go's bytewise
  lexicographic order. An \<open>int64\<close> is kept as a 64-bit word and compared through
  \<^const>\<open>sint\<close>.
\<close>

unbundle bit_operations_syntax

type_synonym u64 = "64 word"
type_synonym u32 = "32 word"
type_synonym i64 = "64 word"
type_synonym bytes = string
type_synonym goslice = "bytes option"

named_theorems clock_unat "unsigned readings of clock words"

section \<open>Slices\<close>

text \<open>A nil slice is \<^term>\<open>None\<close>; reading it gives no bytes.\<close>

definition slice_bytes :: "goslice \<Rightarrow> bytes" where
  "slice_bytes s = (case s of None \<Rightarrow> [] | Some b \<Rightarrow> b)"

definition slice_len :: "goslice \<Rightarrow> nat" where
  "slice_len s = length (slice_bytes s)"

lemma slice_bytes_simps [simp]:
  "slice_bytes None = []" "slice_bytes (Some b) = b"
  by (simp_all add: slice_bytes_def)

lemma slice_len_simps [simp]:
  "slice_len None = 0" "slice_len (Some b) = length b"
  by (simp_all add: slice_len_def)

section \<open>Lists\<close>

lemma distinct_concat_map:
  assumes "distinct xs" and "\<And>x. x \<in> set xs \<Longrightarrow> distinct (f x)"
    and "\<And>x y. x \<in> set xs \<Longrightarrow> y \<in> set xs \<Longrightarrow> x \<noteq> y \<Longrightarrow> set (f x) \<inter> set (f y) = {}"
  shows "distinct (concat (map f xs))"
  using assms
proof (induction xs)
  case (Cons x xs)
  have "set (f x) \<inter> (\<Union>y \<in> set xs. set (f y)) = {}"
    using Cons.prems(1) Cons.prems(3) [of x] by fastforce
  moreover have "distinct (concat (map f xs))" using Cons by simp
  ultimately show ?case using Cons.prems(2) by simp
qed simp

lemma concat_map_single:
  assumes "distinct xs" and "j \<in> set xs" and "\<And>i. i \<in> set xs \<Longrightarrow> i \<noteq> j \<Longrightarrow> g i = []"
  shows "concat (map g xs) = g j"
proof -
  obtain ys zs where xs: "xs = ys @ j # zs" using assms(2) by (auto simp: in_set_conv_decomp)
  have "concat (map g ys) = []" "concat (map g zs) = []" using assms(1,3) by (auto simp: xs)
  then show ?thesis unfolding xs by (simp only: map_append concat_append list.map concat.simps append_Nil append_Nil2)
qed

section \<open>Words\<close>

lemma unat_drop_bit_16 [clock_unat]:
  "unat (drop_bit 16 (w::u64)) = unat w div 65536"
  by (simp add: drop_bit_eq_div unat_div)

lemma and_ffff_take_bit: "(w::u64) AND 0xFFFF = take_bit 16 w"
  by (simp add: take_bit_eq_mask mask_eq_exp_minus_1)

lemma unat_and_ffff [clock_unat]: "unat ((w::u64) AND 0xFFFF) = unat w mod 65536"
  by (simp add: and_ffff_take_bit take_bit_eq_mod unat_mod)

lemma unat_pack_16:
  assumes "unat (p::u64) < 2 ^ 48" and "unat l < 65536"
  shows "unat (push_bit 16 p OR (l AND 0xFFFF)) = unat p * 65536 + unat l"
proof -
  have low: "take_bit 16 l = l"
    using assms(2) unat_and_ffff [of l] by (metis and_ffff_take_bit mod_less unsigned_word_eqI)
  have "push_bit 16 p OR l = push_bit 16 p + l"
  proof (rule disjunctive_add [symmetric])
    fix n
    from low have "bit l n \<Longrightarrow> n < 16" by (metis bit_take_bit_iff)
    then show "\<not> bit (push_bit 16 p) n \<or> \<not> bit l n" by (auto simp: bit_push_bit_iff)
  qed
  moreover have "push_bit 16 p = p * 65536" by (simp add: push_bit_eq_mult)
  moreover have "unat (p * 65536 + l) = unat p * 65536 + unat l"
    using assms by (simp add: unat_word_ariths)
  ultimately show ?thesis using low by (simp add: and_ffff_take_bit)
qed

lemma sint_eq_unat:
  assumes "unat (w::u64) < 9223372036854775808"
  shows "sint w = int (unat w)"
proof -
  have u: "uint w = int (unat w)" by simp
  then have b: "uint w < 9223372036854775808" using assms by linarith
  moreover have "- 9223372036854775808 \<le> uint w"
    by (rule order_trans [of _ 0]) simp_all
  ultimately have "signed_take_bit 63 (uint w) = uint w"
    by (intro signed_take_bit_int_eq_self) simp_all
  then show ?thesis by (simp add: sint_uint)
qed

lemma nonneg_unat:
  assumes "0 \<le> sint (w::i64)"
  shows "unat w < 9223372036854775808"
proof (rule ccontr)
  assume a: "\<not> ?thesis"
  have "unat w < 18446744073709551616" using unsigned_less [of w, where ?'a = nat] by simp
  with a have "unat w div 2 ^ 63 = 1" by simp
  then have "bit (unat w) 63" by (simp only: bit_iff_odd) simp
  then have "bit w 63" by (simp add: bit_unsigned_iff)
  then have "sint w < 0" using bit_last_iff [of w] by simp
  then show False using assms by simp
qed

lemma sint_mono:
  assumes "unat (a::u64) < unat (b::u64)" and "unat b < 9223372036854775808"
  shows "sint a < sint b"
proof -
  have "unat a < 9223372036854775808" using assms by simp
  then have "sint a = int (unat a)" by (rule sint_eq_unat)
  moreover have "sint b = int (unat b)" using assms(2) by (rule sint_eq_unat)
  ultimately show ?thesis using assms(1) by (simp only: of_nat_less_iff)
qed

lemma xor_cancel [simp]:
  fixes a b :: "'a::len word"
  shows "a XOR (a XOR b) = b" and "(a XOR b) XOR b = a" and "(a XOR b) XOR a = b"
  by (simp_all flip: xor.assoc) (simp_all add: xor.assoc xor.commute [of a])

text \<open>The two steps of a mixing function are injective: a right shift XORed onto its argument,
  and a product with a constant that has an inverse.\<close>

lemma xorshift_inj:
  fixes x y :: u64
  assumes "0 < n" and "x XOR drop_bit n x = y XOR drop_bit n y"
  shows "x = y"
proof -
  define z where "z = x XOR y"
  have "bit (drop_bit n z) i = bit z i" for i
    using arg_cong [OF assms(2), of "\<lambda>w. bit w i"] by (auto simp: z_def bit_simps)
  then have "drop_bit n z = z" by (intro bit_eqI)
  then have "drop_bit n (unat z) = unat z" by (metis unat_drop_bit_eq)
  then have fix1: "unat z div 2 ^ n = unat z" by (simp add: drop_bit_eq_div)
  have "unat z = 0"
  proof (rule ccontr)
    assume "unat z \<noteq> 0"
    moreover have "1 < (2::nat) ^ n" using assms(1) by (intro one_less_power) simp_all
    ultimately have "unat z div 2 ^ n < unat z" by (intro div_less_dividend) simp_all
    then show False using fix1 by simp
  qed
  then have "x XOR y = 0" by (simp only: unat_eq_0 z_def)
  then show ?thesis using xor_cancel(1) [of x y] by simp
qed

lemma mult_inj_inverse:
  fixes x y c :: u64
  assumes "d * c = 1" and "x * c = y * c"
  shows "x = y"
proof -
  have "x = (d * c) * x" using assms(1) by simp
  also have "\<dots> = d * (x * c)" by (simp only: ac_simps)
  also have "\<dots> = (d * c) * y" unfolding assms(2) by (simp only: ac_simps)
  finally show ?thesis using assms(1) by simp
qed

section \<open>XOR sums\<close>

text \<open>The digests of the map are XOR sums over sets of items.\<close>

interpretation xors: comm_monoid_set "(XOR)" "0 :: u64"
  by unfold_locales (simp_all add: ac_simps)

lemma xors_update:
  assumes "finite A"
  shows "xors.F (g(k := v)) (insert k A) = (xors.F g A XOR (if k \<in> A then g k else 0)) XOR v"
proof -
  have rest: "xors.F (g(k := v)) (A - {k}) = xors.F g (A - {k})"
    by (rule xors.cong) auto
  have "xors.F (g(k := v)) (insert k A) = v XOR xors.F g (A - {k})"
    using assms by (simp add: xors.insert_remove rest)
  moreover have "xors.F g A XOR (if k \<in> A then g k else 0) = xors.F g (A - {k})"
    using assms by (auto simp: xors.remove [of A k g])
  ultimately show ?thesis by (simp only: xor.commute)
qed

lemma xors_foldl: "foldl (\<lambda>a i. a XOR f i) z [0..<n] = (z :: u64) XOR xors.F f {..<n}"
  by (induction n) (simp_all add: lessThan_Suc xors.insert ac_simps)

lemma xors_delete:
  assumes "finite A" and "k \<in> A"
  shows "xors.F g (A - {k}) = xors.F g A XOR g k"
  using assms by (simp add: xors.remove [of A k g])

section \<open>Big-endian words\<close>

definition PutUint32 :: "u32 \<Rightarrow> bytes" where
  "PutUint32 v = map (\<lambda>s. char_of (unat (drop_bit s v AND 0xFF))) [24, 16, 8, 0]"

definition Uint32 :: "bytes \<Rightarrow> u32" where
  "Uint32 b = (let x = \<lambda>i. of_nat (of_char (b ! i)) in
     x 3 OR push_bit 8 (x 2) OR push_bit 16 (x 1) OR push_bit 24 (x 0))"

lemma and_ff_take_bit: "(w::u32) AND 0xFF = take_bit 8 w"
  by (simp add: take_bit_eq_mask mask_eq_exp_minus_1)

lemma byte_word: "word_of_nat (unat (take_bit 8 (w::u32)) mod 256) = take_bit 8 w"
proof -
  have "unat (take_bit 8 w) = take_bit 8 (unat w)" by (rule unsigned_take_bit_eq)
  then have "unat (take_bit 8 w) < 2 ^ 8" using take_bit_nat_less_exp [of 8 "unat w"] by (simp only:)
  then show ?thesis by simp
qed

lemma Uint32_PutUint32 [simp]: "Uint32 (PutUint32 v) = v"
proof -
  have "Uint32 (PutUint32 v) = take_bit 8 v OR push_bit 8 (take_bit 8 (drop_bit 8 v)) OR
      push_bit 16 (take_bit 8 (drop_bit 16 v)) OR push_bit 24 (take_bit 8 (drop_bit 24 v))"
    unfolding Uint32_def PutUint32_def Let_def by (simp add: byte_word and_ff_take_bit)
  also have "\<dots> = v"
  proof (rule bit_eqI)
    fix n assume "possible_bit TYPE(32 word) n"
    then have n: "n < 32" by simp
    consider "n < 8" | "8 \<le> n" "n < 16" | "16 \<le> n" "n < 24" | "24 \<le> n" using not_less by blast
    then show "bit (take_bit 8 v OR push_bit 8 (take_bit 8 (drop_bit 8 v)) OR
        push_bit 16 (take_bit 8 (drop_bit 16 v)) OR push_bit 24 (take_bit 8 (drop_bit 24 v))) n = bit v n"
      using n by cases (auto simp: bit_simps less_diff_conv2)
  qed
  finally show ?thesis .
qed

lemma length_PutUint32 [simp]: "length (PutUint32 v) = 4"
  by (simp add: PutUint32_def)

section \<open>Decimal numerals\<close>

text \<open>\<open>strconv.AppendInt\<close> and \<open>%d\<close> on numbers that are not negative.\<close>

definition digit :: "nat \<Rightarrow> char" where
  "digit d = char_of (48 + d)"

fun itoa :: "nat \<Rightarrow> string" where
  "itoa n = (if n < 10 then [digit n] else itoa (n div 10) @ [digit (n mod 10)])"

declare itoa.simps [simp del]

definition digit_value :: "char \<Rightarrow> nat option" where
  "digit_value c = (if 48 \<le> (of_char c :: nat) \<and> (of_char c :: nat) \<le> 57 then Some (of_char c - 48) else None)"

text \<open>\<open>%d\<close> of \<open>fmt\<close>.\<close>

definition fmt_int :: "int \<Rightarrow> string" where
  "fmt_int n = (if n < 0 then ''-'' @ itoa (nat (- n)) else itoa (nat n))"

lemma of_char_digit: "d < 10 \<Longrightarrow> (of_char (digit d) :: nat) = 48 + d"
  by (simp add: digit_def)

lemma digit_value_digit [simp]: "d < 10 \<Longrightarrow> digit_value (digit d) = Some d"
  by (simp add: digit_value_def of_char_digit)

lemma itoa_not_Nil [simp]: "itoa n \<noteq> []"
  by (subst itoa.simps) simp

lemma itoa_digits: "c \<in> set (itoa n) \<Longrightarrow> \<exists>d < 10. c = digit d"
proof (induction n rule: itoa.induct)
  case (1 n)
  then show ?case by (subst (asm) (2) itoa.simps) (auto split: if_splits intro: exI [of _ "n mod 10"])
qed

end
