(* ===== verification/Clock.thy ===== *)
theory Clock
  imports Prelude
begin

text \<open>
  The hybrid logical clock of \<open>src/core/clock/clock.go\<close>. A timestamp packs 47 bits of
  milliseconds above a 16-bit logical counter. \<open>Now\<close> and \<open>Update\<close> are retry loops
  around a compare-and-swap; one pass through a loop body is \<open>now_attempt\<close> or
  \<open>upd_attempt\<close>, which say what the pass decides to do from the value it loaded. The
  wall clock is an input: the list of readings the loop takes, one per pass, so a loop that
  is still sleeping when the readings run out has the value \<^term>\<open>None\<close>. Goroutines that
  race on the swap are the step relation \<open>clock_step\<close>.
\<close>

section \<open>Definitions\<close>

definition logicalBits :: nat where
  "logicalBits = 16"

definition logicalMask :: u64 where
  "logicalMask = 0xFFFF"

definition maxInt64 :: u64 where
  "maxInt64 = 0x7FFFFFFFFFFFFFFF"

definition maxPhysical :: u64 where
  "maxPhysical = drop_bit logicalBits maxInt64"

record clock =
  state :: u64
  saturationLogged :: bool

definition clampPhysical :: "u64 \<Rightarrow> u64" where
  "clampPhysical p = (if p > maxPhysical then maxPhysical else p)"

definition NewClock :: clock where
  "NewClock = \<lparr>state = 0, saturationLogged = False\<rparr>"

text \<open>One wall clock reading: \<open>clampPhysical(uint64(max(time.Now().UnixMilli(), 0)))\<close>.\<close>

definition sample_ms :: "i64 \<Rightarrow> u64" where
  "sample_ms t = clampPhysical (if sint t < 0 then 0 else t)"

text \<open>What one pass of a retry loop does after loading the state word.\<close>

datatype cas_plan = Saturated | Sleep | Swap u64

definition now_attempt :: "u64 \<Rightarrow> u64 \<Rightarrow> cas_plan" where
  "now_attempt now old =
     (let oldPhysical = drop_bit logicalBits old;
          oldLogical = old AND logicalMask
      in if oldPhysical \<ge> maxPhysical then Saturated
         else if now \<le> oldPhysical \<and> oldLogical \<ge> logicalMask then Sleep
         else let (newPhysical, newLogical) =
                    (if now > oldPhysical then (now, 0) else (oldPhysical, oldLogical + 1))
              in Swap (push_bit logicalBits newPhysical OR (newLogical AND logicalMask)))"

fun Now_loop :: "u64 \<Rightarrow> i64 list \<Rightarrow> clock \<Rightarrow> (i64 \<times> clock) option" where
  "Now_loop now ts c =
     (case now_attempt now (state c) of
        Saturated \<Rightarrow> Some (maxInt64, c\<lparr>saturationLogged := True\<rparr>)
      | Swap v \<Rightarrow> Some (v, c\<lparr>state := v\<rparr>)
      | Sleep \<Rightarrow> (case ts of [] \<Rightarrow> None | t # ts' \<Rightarrow> Now_loop (sample_ms t) ts' c))"

definition Now :: "i64 list \<Rightarrow> clock \<Rightarrow> (i64 \<times> clock) option" where
  "Now ts c = (case ts of [] \<Rightarrow> None | t # ts' \<Rightarrow> Now_loop (sample_ms t) ts' c)"

definition upd_attempt :: "u64 \<Rightarrow> u64 \<Rightarrow> u64 \<Rightarrow> cas_plan" where
  "upd_attempt remoteU now old =
     (let remotePhysical = drop_bit logicalBits remoteU;
          remoteLogical = remoteU AND logicalMask;
          oldPhysical = drop_bit logicalBits old;
          oldLogical = old AND logicalMask;
          chosenPhysical = max oldPhysical (max remotePhysical now)
      in if oldPhysical \<ge> maxPhysical then Saturated
         else if (if chosenPhysical = oldPhysical
                  then (if chosenPhysical = remotePhysical
                        then max oldLogical remoteLogical + 1
                        else oldLogical + 1) > logicalMask
                  else chosenPhysical = remotePhysical \<and> remoteLogical + 1 > logicalMask)
         then Sleep
         else let (newPhysical, newLogical) =
                    (if chosenPhysical = oldPhysical
                     then (if chosenPhysical = remotePhysical
                           then (oldPhysical, max oldLogical remoteLogical + 1)
                           else (oldPhysical, oldLogical + 1))
                     else if chosenPhysical = remotePhysical
                     then (remotePhysical, remoteLogical + 1)
                     else (chosenPhysical, 0))
              in Swap (push_bit logicalBits newPhysical OR (newLogical AND logicalMask)))"

fun Update_loop :: "u64 \<Rightarrow> u64 \<Rightarrow> i64 list \<Rightarrow> clock \<Rightarrow> clock option" where
  "Update_loop remoteU now ts c =
     (case upd_attempt remoteU now (state c) of
        Saturated \<Rightarrow> Some (c\<lparr>saturationLogged := True\<rparr>)
      | Swap v \<Rightarrow> Some (c\<lparr>state := v\<rparr>)
      | Sleep \<Rightarrow>
          (case ts of [] \<Rightarrow> None | t # ts' \<Rightarrow> Update_loop remoteU (sample_ms t) ts' c))"

definition Update :: "i64 \<Rightarrow> i64 list \<Rightarrow> clock \<Rightarrow> clock option" where
  "Update remote ts c =
     (if sint remote < 0 then Some c
      else case ts of
             [] \<Rightarrow> None
           | t # ts' \<Rightarrow>
               (let now = sample_ms t
                in if drop_bit logicalBits remote > now + 5000 then Some c
                   else Update_loop remote now ts' c))"

declare Now_loop.simps [simp del] Update_loop.simps [simp del]


section \<open>One pass of a loop\<close>

lemmas clock_consts = logicalBits_def logicalMask_def maxInt64_def maxPhysical_def

lemma unat_maxPhysical [simp]: "unat maxPhysical = 140737488355327"
  by (simp add: clock_consts)

lemma unat_logicalMask [simp]: "unat logicalMask = 65535"
  by (simp add: clock_consts)

lemma unat_phys [clock_unat]: "unat (drop_bit logicalBits w) = unat (w::u64) div 65536"
  by (simp add: logicalBits_def clock_unat)

lemma unat_logical [clock_unat]: "unat (w AND logicalMask) = unat w mod 65536"
  by (simp add: logicalMask_def clock_unat)

lemma unat_pack:
  assumes "unat p \<le> 140737488355327" and "unat l \<le> 65535"
  shows "unat (push_bit logicalBits p OR (l AND logicalMask)) = unat p * 65536 + unat l"
  using assms unat_pack_16 [of p l] by (simp add: clock_consts)

lemma sample_ms_bound [simp]: "unat (sample_ms t) \<le> 140737488355327"
  by (auto simp: sample_ms_def clampPhysical_def word_le_nat_alt word_less_nat_alt)

lemma unat_logical_Suc [clock_unat]: "unat ((w AND logicalMask) + 1) = Suc (unat w mod 65536)"
proof -
  have "unat (w AND logicalMask) < 65536" by (simp add: clock_unat)
  then show ?thesis by (simp add: unat_word_ariths clock_unat)
qed

lemma now_attempt_unat:
  "now_attempt now old =
     (if unat old div 65536 \<ge> 140737488355327 then Saturated
      else if unat now \<le> unat old div 65536 \<and> unat old mod 65536 = 65535 then Sleep
      else if unat now > unat old div 65536
      then Swap (push_bit logicalBits now OR (0 AND logicalMask))
      else Swap (push_bit logicalBits (drop_bit logicalBits old)
                   OR (((old AND logicalMask) + 1) AND logicalMask)))"
proof -
  have "65535 \<le> unat old mod 65536 \<longleftrightarrow> unat old mod 65536 = 65535"
    by (simp add: dual_order.antisym le_antisym)
  then show ?thesis
    by (simp add: now_attempt_def Let_def word_le_nat_alt word_less_nat_alt clock_unat)
qed

lemma now_attempt_Swap:
  assumes "now_attempt now old = Swap v" and "unat now \<le> 140737488355327"
  shows "unat old < unat v" and "unat v < 9223372036854775808" and "unat now \<le> unat v div 65536"
proof -
  have split: "unat old = unat old div 65536 * 65536 + unat old mod 65536" by simp
  have "unat old < unat v \<and> unat v < 9223372036854775808 \<and> unat now \<le> unat v div 65536"
  proof (cases "unat now > unat old div 65536")
    case True
    with assms have v: "unat v = unat now * 65536"
      using unat_pack [of now 0] by (auto simp: now_attempt_unat split: if_splits)
    show ?thesis using True assms(2) v by linarith
  next
    case False
    with assms(1) have small: "unat old div 65536 < 140737488355327" "unat old mod 65536 < 65535"
      and eq: "v = push_bit logicalBits (drop_bit logicalBits old)
                   OR (((old AND logicalMask) + 1) AND logicalMask)"
      by (auto simp: now_attempt_unat split: if_splits)
    then have "unat v = unat old div 65536 * 65536 + Suc (unat old mod 65536)"
      unfolding eq by (subst unat_pack) (simp_all add: clock_unat)
    then show ?thesis using False small split by linarith
  qed
  then show "unat old < unat v" and "unat v < 9223372036854775808" and "unat now \<le> unat v div 65536"
    by auto
qed

lemma unat_max_word: "unat (max (a::u64) b) = max (unat a) (unat b)"
  by (simp add: max_def word_le_nat_alt)

lemma unat_max_logical_Suc:
  "unat (max (v AND logicalMask) (w AND logicalMask) + 1) =
     Suc (max (unat v mod 65536) (unat w mod 65536))"
  by (cases "v AND logicalMask \<le> w AND logicalMask")
    (auto simp: max_def word_le_nat_alt unat_logical_Suc unat_logical)

lemma upd_attempt_plan:
  fixes remote now old :: u64
  defines "P \<equiv> drop_bit logicalBits old" and "R \<equiv> drop_bit logicalBits remote"
  defines "C \<equiv> max P (max R now)"
  assumes "upd_attempt remote now old = Swap v"
  obtains l where "unat P < 140737488355327" and "unat l \<le> 65535"
    and "v = push_bit logicalBits C OR (l AND logicalMask)"
    and "C = P \<Longrightarrow> unat old mod 65536 < unat l"
    and "C = R \<Longrightarrow> unat remote mod 65536 < unat l"
proof -
  have *: "(if P \<ge> maxPhysical then Saturated
      else if (if C = P then (if C = R then max (old AND logicalMask) (remote AND logicalMask) + 1
                              else (old AND logicalMask) + 1) > logicalMask
               else C = R \<and> (remote AND logicalMask) + 1 > logicalMask) then Sleep
      else let (np, nl) = (if C = P then (if C = R
                 then (P, max (old AND logicalMask) (remote AND logicalMask) + 1)
                 else (P, (old AND logicalMask) + 1))
               else if C = R then (R, (remote AND logicalMask) + 1) else (C, 0))
           in Swap (push_bit logicalBits np OR (nl AND logicalMask))) = Swap v"
    using assms(4) by (simp only: upd_attempt_def Let_def C_def P_def R_def)
  then have P: "unat P < 140737488355327"
    by (auto simp: word_le_nat_alt split: if_splits)
  consider (both) "C = P" "C = R" | (own) "C = P" "C \<noteq> R" | (remote) "C \<noteq> P" "C = R"
    | (wall) "C \<noteq> P" "C \<noteq> R" by blast
  then show thesis
  proof cases
    case both
    with * show ?thesis
      by (intro that [of "max (old AND logicalMask) (remote AND logicalMask) + 1"])
        (auto simp: P word_less_nat_alt unat_max_logical_Suc split: if_splits)
  next
    case own
    with * show ?thesis
      by (intro that [of "(old AND logicalMask) + 1"])
        (auto simp: P word_less_nat_alt unat_logical_Suc split: if_splits)
  next
    case remote
    with * show ?thesis
      by (intro that [of "(remote AND logicalMask) + 1"])
        (auto simp: P word_less_nat_alt unat_logical_Suc split: if_splits)
  next
    case wall
    with * show ?thesis
      by (intro that [of 0]) (auto simp: P split: if_splits)
  qed
qed

lemma upd_attempt_Swap:
  assumes "upd_attempt remote now old = Swap v" and "unat now \<le> 140737488355327"
    and "unat remote < 9223372036854775808"
  shows "unat old < unat v" and "unat remote < unat v" and "unat v < 9223372036854775808"
    and "unat v div 65536 = max (unat old div 65536) (max (unat remote div 65536) (unat now))"
proof -
  define C where "C = max (drop_bit logicalBits old) (max (drop_bit logicalBits remote) now)"
  obtain l where oldP: "unat old div 65536 < 140737488355327" and l: "unat l \<le> 65535"
    and v: "v = push_bit logicalBits C OR (l AND logicalMask)"
    and lo: "unat C = unat old div 65536 \<Longrightarrow> unat old mod 65536 < unat l"
    and lr: "unat C = unat remote div 65536 \<Longrightarrow> unat remote mod 65536 < unat l"
    using upd_attempt_plan [OF assms(1)] unfolding C_def word_unat_eq_iff unat_phys by metis
  have C: "unat C = max (unat old div 65536) (max (unat remote div 65536) (unat now))"
    by (simp add: C_def unat_max_word clock_unat)
  have rem: "unat remote div 65536 \<le> 140737488355327" using assms(3) by simp
  have vC: "unat v = unat C * 65536 + unat l"
    unfolding v using l oldP rem assms(2) C by (intro unat_pack) simp_all
  have split: "unat old = unat old div 65536 * 65536 + unat old mod 65536"
    "unat remote = unat remote div 65536 * 65536 + unat remote mod 65536" by simp_all
  show "unat old < unat v"
    using lo C vC split(1) by (cases "unat C = unat old div 65536") linarith+
  show "unat remote < unat v"
    using lr C vC split(2) by (cases "unat C = unat remote div 65536") linarith+
  show "unat v < 9223372036854775808" using vC l C oldP rem assms(2) by linarith
  show "unat v div 65536 = max (unat old div 65536) (max (unat remote div 65536) (unat now))"
    using vC l C by simp
qed

section \<open>The loops\<close>

definition clock_wf :: "clock \<Rightarrow> bool" where
  "clock_wf c \<longleftrightarrow> unat (state c) < 9223372036854775808"

definition saturated :: "clock \<Rightarrow> bool" where
  "saturated c \<longleftrightarrow> drop_bit logicalBits (state c) \<ge> maxPhysical"

lemma saturated_unat: "saturated c \<longleftrightarrow> 140737488355327 \<le> unat (state c) div 65536"
  by (simp add: saturated_def word_le_nat_alt clock_unat)

lemma now_attempt_Saturated_iff: "now_attempt now (state c) = Saturated \<longleftrightarrow> saturated c"
  by (simp add: now_attempt_def saturated_def Let_def)

lemma upd_attempt_Saturated_iff: "upd_attempt r now (state c) = Saturated \<longleftrightarrow> saturated c"
  by (simp add: upd_attempt_def saturated_def Let_def)

lemma Now_loop_cases:
  assumes "Now_loop now ts c = Some (r, c')" and "\<not> saturated c"
  shows "\<exists>now' \<in> insert now (sample_ms ` set ts).
           now_attempt now' (state c) = Swap r \<and> c' = c\<lparr>state := r\<rparr>"
  using assms(1)
proof (induction ts arbitrary: now)
  case Nil
  with assms(2) show ?case
    by (auto simp: Now_loop.simps [of now "[]"] now_attempt_Saturated_iff split: cas_plan.splits)
next
  case (Cons t ts)
  show ?case
  proof (cases "now_attempt now (state c)")
    case Sleep
    with Cons.prems have "Now_loop (sample_ms t) ts c = Some (r, c')"
      by (simp add: Now_loop.simps [of now "t # ts"])
    then show ?thesis using Cons.IH by fastforce
  qed (use Cons.prems assms(2) in
      \<open>auto simp: Now_loop.simps [of now "t # ts"] now_attempt_Saturated_iff\<close>)
qed

lemma Now_cases:
  assumes "Now ts c = Some (r, c')" and "\<not> saturated c"
  shows "\<exists>t \<in> set ts. now_attempt (sample_ms t) (state c) = Swap r \<and> c' = c\<lparr>state := r\<rparr>"
  using assms Now_loop_cases [of _ _ c r c'] by (fastforce simp: Now_def split: list.splits)

lemma Now_saturated:
  assumes "saturated c"
  shows "Now (t # ts) c = Some (maxInt64, c\<lparr>saturationLogged := True\<rparr>)"
  using assms now_attempt_Saturated_iff [of "sample_ms t" c]
  by (simp add: Now_def Now_loop.simps [of "sample_ms t"])

lemma Update_loop_cases:
  assumes "Update_loop r now ts c = Some c'" and "\<not> saturated c"
  shows "\<exists>now' \<in> insert now (sample_ms ` set ts).
           \<exists>v. upd_attempt r now' (state c) = Swap v \<and> c' = c\<lparr>state := v\<rparr>"
  using assms(1)
proof (induction ts arbitrary: now)
  case Nil
  with assms(2) show ?case
    by (auto simp: Update_loop.simps [of r now "[]"] upd_attempt_Saturated_iff
        split: cas_plan.splits)
next
  case (Cons t ts)
  show ?case
  proof (cases "upd_attempt r now (state c)")
    case Sleep
    with Cons.prems have "Update_loop r (sample_ms t) ts c = Some c'"
      by (simp add: Update_loop.simps [of r now "t # ts"])
    then show ?thesis using Cons.IH by fastforce
  qed (use Cons.prems assms(2) in
      \<open>auto simp: Update_loop.simps [of r now "t # ts"] upd_attempt_Saturated_iff\<close>)
qed

lemma Update_loop_saturated:
  "saturated c \<Longrightarrow> Update_loop r now ts c = Some (c\<lparr>saturationLogged := True\<rparr>)"
  using upd_attempt_Saturated_iff [of r now c] by (simp add: Update_loop.simps [of r now])

text \<open>A remote timestamp that \<open>Update\<close> lets in: not negative, at most 5 s ahead.\<close>

definition accepted :: "i64 \<Rightarrow> i64 \<Rightarrow> bool" where
  "accepted remote t \<longleftrightarrow>
     0 \<le> sint remote \<and> drop_bit logicalBits remote \<le> sample_ms t + 5000"

lemma accepted_unat:
  "accepted remote t \<longleftrightarrow>
     0 \<le> sint remote \<and> unat remote div 65536 \<le> unat (sample_ms t) + 5000"
proof -
  have "unat (sample_ms t) + 5000 < 18446744073709551616"
    using sample_ms_bound [of t] by linarith
  then have "unat (sample_ms t + 5000) = unat (sample_ms t) + 5000"
    by (simp add: unat_word_ariths)
  then show ?thesis by (simp add: accepted_def word_le_nat_alt clock_unat)
qed

lemma Update_accepted:
  "accepted remote t \<Longrightarrow> Update remote (t # ts) c = Update_loop remote (sample_ms t) ts c"
  by (auto simp: Update_def accepted_def Let_def not_less)

lemma Update_rejected: "\<not> accepted remote t \<Longrightarrow> Update remote (t # ts) c = Some c"
  by (auto simp: Update_def accepted_def Let_def not_le)

lemma Update_unchanged:
  assumes "Update r (t # ts) c = Some c'" and "\<not> (accepted r t \<and> \<not> saturated c)"
  shows "state c' = state c"
  using assms by (cases "accepted r t")
    (auto simp: Update_rejected Update_accepted Update_loop_saturated)

lemma Update_cases:
  assumes "Update remote (t # ts) c = Some c'" and "accepted remote t" and "\<not> saturated c"
  shows "\<exists>t' \<in> set (t # ts). \<exists>v. upd_attempt remote (sample_ms t') (state c) = Swap v
           \<and> c' = c\<lparr>state := v\<rparr>"
  using assms Update_loop_cases [of remote "sample_ms t" ts c c'] by (fastforce simp: Update_accepted)

section \<open>The clock as its clients see it\<close>

text \<open>
  The contract of the \<open>Clocker\<close> interface: a stamp handed out is above everything the
  clock has seen, and a merged remote stamp is below everything it hands out afterwards.
  \<open>clock_event\<close> lists what a client did, in order; the lemmas hold for every
  implementation that keeps the two laws.
\<close>

datatype clock_event = Issued i64 | Merged i64

fun event_stamp :: "clock_event \<Rightarrow> int" where
  "event_stamp (Issued t) = sint t"
| "event_stamp (Merged t) = sint t"

locale clocker =
  fixes now_step :: "'c \<Rightarrow> i64 \<Rightarrow> 'c \<Rightarrow> bool"
    and merge_step :: "'c \<Rightarrow> i64 \<Rightarrow> 'c \<Rightarrow> bool"
    and horizon :: "'c \<Rightarrow> int"
  assumes now_above: "now_step c t c' \<Longrightarrow> horizon c < sint t \<and> horizon c' = sint t"
    and merge_above: "merge_step c t c' \<Longrightarrow> sint t < horizon c' \<and> horizon c < horizon c'"
begin

inductive history :: "'c \<Rightarrow> clock_event list \<Rightarrow> 'c \<Rightarrow> bool" where
  history_nil: "history c [] c"
| history_now: "now_step c t c' \<Longrightarrow> history c' es c'' \<Longrightarrow> history c (Issued t # es) c''"
| history_merge: "merge_step c t c' \<Longrightarrow> history c' es c'' \<Longrightarrow> history c (Merged t # es) c''"

lemma history_issued_above:
  "history c es c' \<Longrightarrow> Issued t \<in> set es \<Longrightarrow> horizon c < sint t"
  by (induction rule: history.induct) (fastforce dest: now_above merge_above)+

lemma history_causal:
  "history c es c' \<Longrightarrow> es = xs @ e # ys \<Longrightarrow> Issued t \<in> set ys \<Longrightarrow> event_stamp e < sint t"
proof (induction arbitrary: xs rule: history.induct)
  case (history_nil c)
  then show ?case by simp
next
  case (history_now c u c' es c'')
  then show ?case
    using now_above [of c u c'] history_issued_above [of c' es c'' t]
    by (cases xs) auto
next
  case (history_merge c u c' es c'')
  then show ?case
    using merge_above [of c u c'] history_issued_above [of c' es c'' t]
    by (cases xs) (auto intro: less_trans)
qed

end

definition hlc_now :: "clock \<Rightarrow> i64 \<Rightarrow> clock \<Rightarrow> bool" where
  "hlc_now c t c' \<longleftrightarrow> clock_wf c \<and> \<not> saturated c \<and> (\<exists>ts. Now ts c = Some (t, c'))"

definition hlc_merge :: "clock \<Rightarrow> i64 \<Rightarrow> clock \<Rightarrow> bool" where
  "hlc_merge c r c' \<longleftrightarrow> clock_wf c \<and> \<not> saturated c \<and>
     (\<exists>t ts. accepted r t \<and> Update r (t # ts) c = Some c')"

lemma Now_result:
  assumes "Now ts c = Some (r, c')" and "\<not> saturated c"
  shows "unat (state c) < unat r" and "unat r < 9223372036854775808" and "c' = c\<lparr>state := r\<rparr>"
  using Now_cases [OF assms] by (auto intro: now_attempt_Swap)

lemma Update_result:
  assumes "Update r (t # ts) c = Some c'" and "accepted r t" and "\<not> saturated c"
  shows "unat r < unat (state c')" and "unat (state c) < unat (state c')"
    and "unat (state c') < 9223372036854775808"
  using Update_cases [OF assms] assms(2) nonneg_unat [of r]
  by (auto simp: accepted_unat dest: upd_attempt_Swap)

interpretation hlc: clocker hlc_now hlc_merge "\<lambda>c. sint (state c)"
proof
  fix c t c'
  assume "hlc_now c t c'"
  then obtain ts where n: "Now ts c = Some (t, c')" "\<not> saturated c" and wf: "clock_wf c"
    by (auto simp: hlc_now_def)
  from Now_result [OF n] wf show "sint (state c) < sint t \<and> sint (state c') = sint t"
    by (simp add: sint_mono)
next
  fix c t c'
  assume "hlc_merge c t c'"
  then obtain u us where u: "Update t (u # us) c = Some c'" "accepted t u" "\<not> saturated c"
    and wf: "clock_wf c" by (auto simp: hlc_merge_def)
  from Update_result [OF u] wf show "sint t < sint (state c') \<and> sint (state c) < sint (state c')"
    by (simp add: sint_mono)
qed

section \<open>Goroutines racing on the clock\<close>

text \<open>
  Each goroutine is between operations, about to load the state word, or holding the value
  it loaded. Every access to the shared word is one step; any goroutine may move, so a
  compare-and-swap may find that another goroutine was faster. \<open>issued\<close> records the
  timestamps that successful swaps of \<open>Now\<close> returned, newest first.
\<close>

datatype clock_pc =
    ClkIdle
  | NowRun u64
  | NowLoaded u64 u64
  | UpdRun u64 u64
  | UpdLoaded u64 u64 u64

record clock_sys =
  clk :: clock
  pcs :: "nat \<Rightarrow> clock_pc"
  issued :: "i64 list"

inductive clock_step :: "clock_sys \<Rightarrow> clock_sys \<Rightarrow> bool" where
  now_start: "pcs s i = ClkIdle \<Longrightarrow>
     clock_step s (s\<lparr>pcs := (pcs s)(i := NowRun (sample_ms t))\<rparr>)"
| now_load: "pcs s i = NowRun now \<Longrightarrow>
     clock_step s (s\<lparr>pcs := (pcs s)(i := NowLoaded now (state (clk s)))\<rparr>)"
| now_saturated: "pcs s i = NowLoaded now old \<Longrightarrow> now_attempt now old = Saturated \<Longrightarrow>
     clock_step s (s\<lparr>pcs := (pcs s)(i := ClkIdle), clk := (clk s)\<lparr>saturationLogged := True\<rparr>\<rparr>)"
| now_sleep: "pcs s i = NowLoaded now old \<Longrightarrow> now_attempt now old = Sleep \<Longrightarrow>
     clock_step s (s\<lparr>pcs := (pcs s)(i := NowRun (sample_ms t))\<rparr>)"
| now_swap: "pcs s i = NowLoaded now old \<Longrightarrow> now_attempt now old = Swap v \<Longrightarrow>
     state (clk s) = old \<Longrightarrow>
     clock_step s (s\<lparr>pcs := (pcs s)(i := ClkIdle), clk := (clk s)\<lparr>state := v\<rparr>,
                     issued := v # issued s\<rparr>)"
| now_lost: "pcs s i = NowLoaded now old \<Longrightarrow> now_attempt now old = Swap v \<Longrightarrow>
     state (clk s) \<noteq> old \<Longrightarrow>
     clock_step s (s\<lparr>pcs := (pcs s)(i := NowRun (sample_ms t))\<rparr>)"
| upd_start: "pcs s i = ClkIdle \<Longrightarrow> accepted r t \<Longrightarrow>
     clock_step s (s\<lparr>pcs := (pcs s)(i := UpdRun r (sample_ms t))\<rparr>)"
| upd_load: "pcs s i = UpdRun r now \<Longrightarrow>
     clock_step s (s\<lparr>pcs := (pcs s)(i := UpdLoaded r now (state (clk s)))\<rparr>)"
| upd_saturated: "pcs s i = UpdLoaded r now old \<Longrightarrow> upd_attempt r now old = Saturated \<Longrightarrow>
     clock_step s (s\<lparr>pcs := (pcs s)(i := ClkIdle), clk := (clk s)\<lparr>saturationLogged := True\<rparr>\<rparr>)"
| upd_sleep: "pcs s i = UpdLoaded r now old \<Longrightarrow> upd_attempt r now old = Sleep \<Longrightarrow>
     clock_step s (s\<lparr>pcs := (pcs s)(i := UpdRun r (sample_ms t))\<rparr>)"
| upd_swap: "pcs s i = UpdLoaded r now old \<Longrightarrow> upd_attempt r now old = Swap v \<Longrightarrow>
     state (clk s) = old \<Longrightarrow>
     clock_step s (s\<lparr>pcs := (pcs s)(i := ClkIdle), clk := (clk s)\<lparr>state := v\<rparr>\<rparr>)"
| upd_lost: "pcs s i = UpdLoaded r now old \<Longrightarrow> upd_attempt r now old = Swap v \<Longrightarrow>
     state (clk s) \<noteq> old \<Longrightarrow>
     clock_step s (s\<lparr>pcs := (pcs s)(i := UpdRun r (sample_ms t))\<rparr>)"

definition clock_init :: clock_sys where
  "clock_init = \<lparr>clk = NewClock, pcs = (\<lambda>_. ClkIdle), issued = []\<rparr>"

inductive clock_reachable :: "clock_sys \<Rightarrow> bool" where
  reach_init: "clock_reachable clock_init"
| reach_step: "clock_reachable s \<Longrightarrow> clock_step s s' \<Longrightarrow> clock_reachable s'"

fun pc_ok :: "clock_pc \<Rightarrow> bool" where
  "pc_ok ClkIdle = True"
| "pc_ok (NowRun now) = (unat now \<le> 140737488355327)"
| "pc_ok (NowLoaded now old) = (unat now \<le> 140737488355327)"
| "pc_ok (UpdRun r now) = (unat r < 9223372036854775808 \<and> unat now \<le> 140737488355327)"
| "pc_ok (UpdLoaded r now old) = (unat r < 9223372036854775808 \<and> unat now \<le> 140737488355327)"

definition clock_inv :: "clock_sys \<Rightarrow> bool" where
  "clock_inv s \<longleftrightarrow> clock_wf (clk s) \<and> (\<forall>i. pc_ok (pcs s i)) \<and>
     (\<forall>v \<in> set (issued s). unat v \<le> unat (state (clk s))) \<and>
     sorted_wrt (\<lambda>a b. sint b < sint a) (issued s)"

lemma clock_inv_pcD: "clock_inv s \<Longrightarrow> pc_ok (pcs s i)"
  by (simp add: clock_inv_def)

lemma clock_inv_pc:
  assumes "clock_inv s" and "pc_ok p"
  shows "clock_inv (s\<lparr>pcs := (pcs s)(i := p)\<rparr>)"
  using assms by (simp add: clock_inv_def)

lemma clock_inv_logged:
  assumes "clock_inv s"
  shows "clock_inv (s\<lparr>pcs := (pcs s)(i := ClkIdle), clk := (clk s)\<lparr>saturationLogged := True\<rparr>\<rparr>)"
  using assms by (simp add: clock_inv_def clock_wf_def)

lemma clock_inv_grow:
  assumes "clock_inv s" and "unat (state (clk s)) < unat v" and "unat v < 9223372036854775808"
  shows "clock_inv (s\<lparr>pcs := (pcs s)(i := ClkIdle), clk := (clk s)\<lparr>state := v\<rparr>\<rparr>)"
  using assms by (fastforce simp: clock_inv_def clock_wf_def)

lemma clock_inv_issue:
  assumes "clock_inv s" and "unat (state (clk s)) < unat v" and "unat v < 9223372036854775808"
  shows "clock_inv (s\<lparr>pcs := (pcs s)(i := ClkIdle), clk := (clk s)\<lparr>state := v\<rparr>,
                      issued := v # issued s\<rparr>)"
proof -
  have below: "unat u < unat v" if "u \<in> set (issued s)" for u
    using that assms(1,2) by (fastforce simp: clock_inv_def)
  then have "\<forall>u \<in> set (issued s). sint u < sint v"
    using assms(3) by (auto intro: sint_mono)
  then show ?thesis using assms below by (fastforce simp: clock_inv_def clock_wf_def)
qed

lemma clock_inv_step: "clock_step s s' \<Longrightarrow> clock_inv s \<Longrightarrow> clock_inv s'"
proof (induction rule: clock_step.induct)
  case (now_swap s i now old v)
  with clock_inv_pcD [of s i] show ?case
    by (intro clock_inv_issue) (auto dest: now_attempt_Swap)
next
  case (upd_swap s i r now old v)
  with clock_inv_pcD [of s i] show ?case
    by (intro clock_inv_grow) (auto dest: upd_attempt_Swap)
next
  case (now_load s i now)
  with clock_inv_pcD [of s i] show ?case by (intro clock_inv_pc) auto
next
  case (upd_load s i r now)
  with clock_inv_pcD [of s i] show ?case by (intro clock_inv_pc) auto
next
  case (upd_start s i r t)
  then show ?case by (intro clock_inv_pc) (auto simp: accepted_def nonneg_unat)
next
  case (upd_sleep s i r now old t)
  with clock_inv_pcD [of s i] show ?case by (intro clock_inv_pc) auto
next
  case (upd_lost s i r now old v t)
  with clock_inv_pcD [of s i] show ?case by (intro clock_inv_pc) auto
qed (auto intro: clock_inv_pc clock_inv_logged)

lemma clock_reachable_inv: "clock_reachable s \<Longrightarrow> clock_inv s"
proof (induction rule: clock_reachable.induct)
  case reach_init
  show ?case by (simp add: clock_init_def clock_inv_def clock_wf_def NewClock_def)
qed (rule clock_inv_step)

section \<open>Properties\<close>


definition demo_clock_sys :: clock_sys where
  "demo_clock_sys = \<lparr>clk = \<lparr>state = 131072, saturationLogged = False\<rparr>,
     pcs = (\<lambda>_. ClkIdle)(0 := ClkIdle), issued = [131072]\<rparr>"

lemma demo_clock_reachable: "clock_reachable demo_clock_sys"
proof -
  let ?s1 = "clock_init\<lparr>pcs := (pcs clock_init)(0 := NowRun (sample_ms 2))\<rparr>"
  let ?s2 = "?s1\<lparr>pcs := (pcs ?s1)(0 := NowLoaded (sample_ms 2) (state (clk ?s1)))\<rparr>"
  let ?s3 = "?s2\<lparr>pcs := (pcs ?s2)(0 := ClkIdle), clk := (clk ?s2)\<lparr>state := 131072\<rparr>,
                 issued := 131072 # issued ?s2\<rparr>"
  have "clock_reachable ?s1"
    by (rule reach_step [OF reach_init], rule now_start) (simp add: clock_init_def)
  then have "clock_reachable ?s2"
    by (rule reach_step, intro now_load) simp
  then have "clock_reachable ?s3"
  proof (rule reach_step)
    show "clock_step ?s2 ?s3"
      by (rule now_swap [of ?s2 0 "sample_ms 2" 0])
        (simp_all add: clock_init_def NewClock_def now_attempt_def sample_ms_def clampPhysical_def
          clock_consts Let_def)
  qed
  moreover have "?s3 = demo_clock_sys"
    by (simp add: demo_clock_sys_def clock_init_def NewClock_def)
  ultimately show ?thesis by simp
qed



lemma demo_history:
  "hlc.history NewClock [Merged 327690, Issued 327692]
     \<lparr>state = 327692, saturationLogged = False\<rparr>"
proof -
  have m: "hlc_merge NewClock 327690 \<lparr>state = 327691, saturationLogged = False\<rparr>"
    unfolding hlc_merge_def
    by (rule conjI, simp add: clock_wf_def NewClock_def, rule conjI,
        simp add: saturated_def NewClock_def clock_consts, rule exI [of _ 2], rule exI [of _ "[]"])
      (simp add: accepted_def Update_def Update_loop.simps upd_attempt_def sample_ms_def
        clampPhysical_def clock_consts Let_def NewClock_def max_def)
  have n: "hlc_now \<lparr>state = 327691, saturationLogged = False\<rparr> 327692
             \<lparr>state = 327692, saturationLogged = False\<rparr>"
    unfolding hlc_now_def
    by (rule conjI, simp add: clock_wf_def, rule conjI,
        simp add: saturated_def clock_consts, rule exI [of _ "[2]"])
      (simp add: Now_def Now_loop.simps now_attempt_def sample_ms_def clampPhysical_def
        clock_consts Let_def)
  show ?thesis
    by (rule hlc.history_merge [OF m], rule hlc.history_now [OF n], rule hlc.history_nil)
qed


text \<open>\<open>Now\<close> on an unsaturated clock returns a timestamp above the clock's state, not
  negative as an \<open>int64\<close>, whose physical part is at least some wall clock reading it took; the
  clock's state becomes that timestamp.\<close>

theorem Now_monotone:
  assumes "Now ts c = Some (r, c')" and "\<not> saturated c"
  shows "sint (state c) < sint r \<and> 0 \<le> sint r \<and> c' = c\<lparr>state := r\<rparr> \<and>
     (\<exists>t \<in> set ts. sample_ms t \<le> drop_bit logicalBits r)"
proof -
  from Now_cases [OF assms] obtain t where t: "t \<in> set ts"
    and a: "now_attempt (sample_ms t) (state c) = Swap r" and c': "c' = c\<lparr>state := r\<rparr>" by blast
  note f = now_attempt_Swap [OF a sample_ms_bound]
  have "sample_ms t \<le> drop_bit logicalBits r"
    using f(3) by (simp add: word_le_nat_alt clock_unat)
  moreover have "sint (state c) < sint r" using f by (auto intro: sint_mono)
  moreover have "0 \<le> sint r" using sint_eq_unat [OF f(2)] by simp
  ultimately show ?thesis using t c' by blast
qed

lemma Now_monotone_witness:
  "sint (state NewClock) < sint (131072::i64) \<and> Now [2] NewClock = Some (131072, NewClock\<lparr>state := 131072\<rparr>)"
proof -
  have r: "Now [2] NewClock = Some (131072, NewClock\<lparr>state := 131072\<rparr>)"
    by (simp add: Now_def Now_loop.simps now_attempt_def sample_ms_def clampPhysical_def
        clock_consts Let_def NewClock_def)
  moreover have "\<not> saturated NewClock" by (simp add: saturated_def NewClock_def clock_consts)
  ultimately show ?thesis using Now_monotone [OF r] by simp
qed

lemma Now_loop_None_iff:
  "Now_loop now ts c = None \<longleftrightarrow>
     (\<forall>n \<in> insert now (sample_ms ` set ts). now_attempt n (state c) = Sleep)"
proof (induction ts arbitrary: now)
  case Nil
  show ?case by (simp add: Now_loop.simps [of now "[]"] split: cas_plan.splits)
next
  case (Cons t ts)
  show ?case
    by (cases "now_attempt now (state c)") (simp_all add: Now_loop.simps [of now "t # ts"] Cons)
qed

text \<open>\<open>Now\<close> returns as soon as it can: with the readings \<open>ts\<close> it returns exactly when
  the clock is saturated, the logical counter has room, or one of the readings is past the clock's
  physical part. So an exhausted counter delays \<open>Now\<close> only until the wall clock ticks.\<close>

theorem Now_returns_iff:
  "(\<exists>r. Now ts c = Some r) \<longleftrightarrow>
     (\<exists>t \<in> set ts. saturated c \<or> state c AND logicalMask < logicalMask
        \<or> drop_bit logicalBits (state c) < sample_ms t)"
proof -
  have sleep: "now_attempt n (state c) = Sleep \<longleftrightarrow>
      \<not> saturated c \<and> n \<le> drop_bit logicalBits (state c) \<and> logicalMask \<le> state c AND logicalMask"
    for n by (simp add: now_attempt_def saturated_def Let_def)
  have "Now ts c = None \<longleftrightarrow> (\<forall>t \<in> set ts. now_attempt (sample_ms t) (state c) = Sleep)"
    by (cases ts) (simp_all add: Now_def Now_loop_None_iff)
  then show ?thesis by (auto simp: sleep not_le not_less)
qed

text \<open>Clock poisoning is bounded: whatever remote timestamp \<open>Update\<close> is given, the
  physical part of the clock afterwards is at most the old one, a wall clock reading taken during
  the call, or the first reading plus 5000 ms.\<close>

theorem Update_drift_bound:
  assumes "Update r (t # ts) c = Some c'"
  shows "\<exists>t' \<in> set (t # ts). unat (drop_bit logicalBits (state c')) \<le>
     max (unat (drop_bit logicalBits (state c))) (max (unat (sample_ms t')) (unat (sample_ms t) + 5000))"
proof (cases "accepted r t \<and> \<not> saturated c")
  case True
  then obtain t' v where t': "t' \<in> set (t # ts)" and c': "c' = c\<lparr>state := v\<rparr>"
    and a: "upd_attempt r (sample_ms t') (state c) = Swap v"
    using Update_cases [OF assms] by blast
  have "unat r < 9223372036854775808" using True by (simp add: accepted_unat nonneg_unat)
  from upd_attempt_Swap(4) [OF a sample_ms_bound this] t' True show ?thesis
    by (intro bexI [of _ t']) (auto simp: c' clock_unat accepted_unat le_max_iff_disj)
next
  case False
  then have "state c' = state c" using Update_unchanged assms by blast
  then show ?thesis by auto
qed

lemma Update_drift_bound_witness:
  "\<exists>t' \<in> set [2::i64]. unat (drop_bit logicalBits (state \<lparr>state = 327691, saturationLogged = False\<rparr>)) \<le>
     max (unat (drop_bit logicalBits (state NewClock))) (max (unat (sample_ms t')) (unat (sample_ms 2) + 5000))"
proof -
  have "Update 327690 [2] NewClock = Some \<lparr>state = 327691, saturationLogged = False\<rparr>"
    by (simp add: Update_def Update_loop.simps upd_attempt_def sample_ms_def
        clampPhysical_def clock_consts Let_def NewClock_def max_def)
  from Update_drift_bound [OF this] show ?thesis .
qed

text \<open>The state word never reaches the sign bit: whatever sequence of readings and remote
  stamps, a clock whose state is a non-negative \<open>int64\<close> keeps it so.\<close>

theorem clock_never_negative:
  assumes "0 \<le> sint (state c)"
  shows "(Now ts c = Some (r, c') \<longrightarrow> 0 \<le> sint r \<and> 0 \<le> sint (state c')) \<and>
     (Update u ts c = Some c'' \<longrightarrow> 0 \<le> sint (state c''))"
proof (intro conjI impI)
  have mx: "0 \<le> sint maxInt64" by (simp add: maxInt64_def)
  have nn: "unat w < 9223372036854775808 \<Longrightarrow> 0 \<le> sint (w::u64)" for w
    using sint_eq_unat [of w] by simp
  {
    assume n: "Now ts c = Some (r, c')"
    then obtain t ts' where ts: "ts = t # ts'" by (cases ts) (auto simp: Now_def)
    have "0 \<le> sint r \<and> 0 \<le> sint (state c')"
    proof (cases "saturated c")
      case True
      then show ?thesis using n ts assms mx by (auto simp: Now_saturated)
    next
      case False
      then show ?thesis using Now_result [OF n] nn by auto
    qed
  }
  then show "Now ts c = Some (r, c') \<Longrightarrow> 0 \<le> sint r"
    and "Now ts c = Some (r, c') \<Longrightarrow> 0 \<le> sint (state c')" by auto
  assume u: "Update u ts c = Some c''"
  show "0 \<le> sint (state c'')"
  proof (cases "0 \<le> sint u")
    case True
    with u obtain t ts' where ts: "ts = t # ts'" by (cases ts) (auto simp: Update_def)
    show ?thesis
    proof (cases "accepted u t \<and> \<not> saturated c")
      case True
      then show ?thesis using Update_result [of u t ts' c c''] u ts nn by auto
    next
      case False
      then show ?thesis using assms Update_unchanged [of u t ts' c c''] u ts by simp
    qed
  next
    case False
    then show ?thesis using assms u by (simp add: Update_def)
  qed
qed

lemma clock_never_negative_witness:
  "0 \<le> sint (131072::i64) \<and> Now [2] NewClock = Some (131072, NewClock\<lparr>state := 131072\<rparr>)"
proof -
  have r: "Now [2] NewClock = Some (131072, NewClock\<lparr>state := 131072\<rparr>)"
    by (simp add: Now_def Now_loop.simps now_attempt_def sample_ms_def clampPhysical_def
        clock_consts Let_def NewClock_def)
  then show ?thesis
    using clock_never_negative [of NewClock "[2]" 131072 "NewClock\<lparr>state := 131072\<rparr>"]
    by (simp add: NewClock_def)
qed

text \<open>The guard against spinning does not cover a fresh clock: with a wall clock stuck
  within 5 s of the largest representable time, merging the timestamp \<open>math.MaxInt64\<close> (what a
  saturated peer's \<open>Now\<close> returns) never returns, however often the loop retries.\<close>

theorem Update_spins_on_MaxInt64:
  assumes "\<not> saturated c" and "\<forall>t \<in> set ts. maxPhysical - 5000 \<le> sample_ms t"
  shows "Update maxInt64 ts c = None"
proof -
  have rp: "drop_bit logicalBits maxInt64 = maxPhysical" by (simp add: maxPhysical_def)
  have rl: "maxInt64 AND logicalMask = logicalMask" by (simp add: clock_consts)
  have b: "sample_ms t \<le> maxPhysical" for t
    using sample_ms_bound [of t] by (simp add: word_le_nat_alt)
  have sleep: "upd_attempt maxInt64 (sample_ms t) (state c) = Sleep" for t
  proof -
    have "drop_bit logicalBits (state c) < maxPhysical" using assms(1) by (simp add: saturated_def)
    then have "max (drop_bit logicalBits (state c)) (max maxPhysical (sample_ms t)) = maxPhysical"
      using b [of t] by (simp add: max_absorb1 max_absorb2 less_imp_le)
    then show ?thesis using \<open>drop_bit logicalBits (state c) < maxPhysical\<close>
      by (simp add: upd_attempt_def Let_def rp rl) (auto simp: logicalMask_def)
  qed
  have loop: "Update_loop maxInt64 (sample_ms t) us c = None" for t us
    by (induction us arbitrary: t) (simp_all add: Update_loop.simps [of maxInt64] sleep)
  have "accepted maxInt64 t" if "t \<in> set ts" for t
    using assms(2) that by (auto simp: accepted_unat word_le_nat_alt clock_consts)
  moreover have "\<not> sint maxInt64 < 0" by (simp add: maxInt64_def)
  then have "Update maxInt64 [] c = None" by (simp add: Update_def)
  ultimately show ?thesis by (cases ts) (simp_all add: Update_accepted loop)
qed

lemma Update_spins_on_MaxInt64_witness:
  "Update maxInt64 (replicate 1000 maxInt64) NewClock = None"
  by (rule Update_spins_on_MaxInt64)
    (simp_all add: saturated_def NewClock_def clock_consts sample_ms_def clampPhysical_def)

end
