(* ===== verification/KV.thy ===== *)
theory KV
  imports Prelude
begin

text \<open>
  The data that every component shares: the record of \<open>src/kv/types.go\<close>, the request
  messages of \<open>src/api/oryx.pb.go\<close>, and the environment of third-party code. xxHash
  (\<open>github.com/cespare/xxhash\<close>) and the persistent radix tree
  (\<open>github.com/hashicorp/go-immutable-radix\<close>) are not part of the repository: they are the
  fields of an \<open>env\<close> record, an argument of every definition that uses them. What the code
  relies on from the radix tree is the predicate \<open>radix_laws\<close>: lookups after insertion and
  deletion, and an iterator that lists the keys in ascending order.
\<close>

section \<open>Values and requests\<close>

record kv_value =
  NodeID :: string
  Data :: goslice
  Timestamp :: i64
  Tombstone :: bool
  ItemHash :: u64

record set_request =
  set_key :: string
  set_value :: goslice
  set_timestamp :: i64
  set_node :: string

record delete_request =
  del_key :: string
  del_timestamp :: i64
  del_node :: string

section \<open>Third-party code\<close>

record 't env =
  xxhash :: "bytes \<Rightarrow> u64"
  r_new :: 't
  r_get :: "'t \<Rightarrow> string \<Rightarrow> nat option"
  r_insert :: "'t \<Rightarrow> string \<Rightarrow> nat \<Rightarrow> 't"
  r_delete :: "'t \<Rightarrow> string \<Rightarrow> 't"
  r_iter :: "'t \<Rightarrow> (string \<times> nat) list"

definition radix_laws :: "'t env \<Rightarrow> bool" where
  "radix_laws E \<longleftrightarrow>
     (\<forall>k. r_get E (r_new E) k = None) \<and>
     (\<forall>t k w k'. r_get E (r_insert E t k w) k' = (if k' = k then Some w else r_get E t k')) \<and>
     (\<forall>t k k'. r_get E (r_delete E t k) k' = (if k' = k then None else r_get E t k')) \<and>
     (\<forall>t. sorted_wrt (<) (map fst (r_iter E t)) \<and> map_of (r_iter E t) = r_get E t)"

definition HashFunc :: "'t env \<Rightarrow> string \<Rightarrow> u64" where
  "HashFunc E key = xxhash E key"

definition HashBytes :: "'t env \<Rightarrow> bytes \<Rightarrow> u64" where
  "HashBytes E d = xxhash E d"

text \<open>A concrete environment: an association list as the tree and a small hash.\<close>

definition alist_iter :: "(string \<times> nat) list \<Rightarrow> (string \<times> nat) list" where
  "alist_iter t = map (\<lambda>k. (k, the (map_of t k))) (sort (remdups (map fst t)))"

definition toy_hash :: "bytes \<Rightarrow> u64" where
  "toy_hash d = foldl (\<lambda>h c. h * 31 + of_nat (of_char c)) 7 d"

definition demo_env :: "(string \<times> nat) list env" where
  "demo_env = \<lparr>xxhash = toy_hash, r_new = [], r_get = map_of,
     r_insert = (\<lambda>t k w. (k, w) # t), r_delete = (\<lambda>t k. filter (\<lambda>p. fst p \<noteq> k) t),
     r_iter = alist_iter\<rparr>"

section \<open>Consequences of the radix tree laws\<close>

lemma radix_sorted: "radix_laws E \<Longrightarrow> sorted_wrt (<) (map fst (r_iter E t))"
  by (simp add: radix_laws_def)

lemma radix_simps [simp]:
  assumes "radix_laws E"
  shows "r_get E (r_new E) k = None"
    and "r_get E (r_insert E t k w) k' = (if k' = k then Some w else r_get E t k')"
    and "r_get E (r_delete E t k) k' = (if k' = k then None else r_get E t k')"
    and "map_of (r_iter E t) = r_get E t"
    and "distinct (map fst (r_iter E t))"
  using assms by (simp_all add: radix_laws_def strict_sorted_iff)

lemma radix_dom: "radix_laws E \<Longrightarrow> dom (r_get E t) = fst ` set (r_iter E t)"
  using dom_map_of_conv_image_fst [of "r_iter E t"] by simp

lemma radix_finite [simp]: "radix_laws E \<Longrightarrow> finite (dom (r_get E t))"
  by (simp add: radix_dom)

lemma radix_iter_mem: "radix_laws E \<Longrightarrow> (k, w) \<in> set (r_iter E t) \<longleftrightarrow> r_get E t k = Some w"
  using map_of_eq_Some_iff [of "r_iter E t" k w] by simp

text \<open>The iterator is determined by the lookups: equal trees are listed equally.\<close>

lemma sorted_alist_unique:
  fixes xs ys :: "('a::linorder \<times> 'b) list"
  assumes "sorted_wrt (<) (map fst xs)" and "sorted_wrt (<) (map fst ys)" and "map_of xs = map_of ys"
  shows "xs = ys"
proof -
  have d: "distinct (map fst xs)" "distinct (map fst ys)"
    using assms(1,2) by (simp_all add: strict_sorted_iff)
  have rebuild: "distinct (map fst zs) \<Longrightarrow> map (\<lambda>k. (k, the (map_of zs k))) (map fst zs) = zs"
    for zs :: "('a \<times> 'b) list" by (auto intro!: map_idI simp: comp_def)
  have "fst ` set xs = fst ` set ys"
    using dom_map_of_conv_image_fst [of xs] dom_map_of_conv_image_fst [of ys] by (simp add: assms(3))
  then have keys: "map fst xs = map fst ys"
    by (intro strict_sorted_equal assms(1,2)) simp
  have "xs = map (\<lambda>k. (k, the (map_of xs k))) (map fst xs)" using rebuild [OF d(1)] by (rule sym)
  also have "\<dots> = map (\<lambda>k. (k, the (map_of ys k))) (map fst ys)" by (simp only: keys assms(3))
  also have "\<dots> = ys" by (rule rebuild [OF d(2)])
  finally show ?thesis .
qed

lemma radix_iter_cong:
  assumes "radix_laws E" and "r_get E s = r_get E t"
  shows "r_iter E s = r_iter E t"
proof (rule sorted_alist_unique)
  show "map_of (r_iter E s) = map_of (r_iter E t)"
    using assms(2) by (simp only: radix_simps(4) [OF assms(1)])
qed (rule radix_sorted [OF assms(1)])+

lemma radix_laws_demo: "radix_laws demo_env"
proof -
  have del: "map_of (filter (\<lambda>p. fst p \<noteq> k) t) k' = (if k' = k then None else map_of t k')"
    for k k' and t :: "(string \<times> nat) list"
    by (induction t) auto
  have srt: "sorted_wrt (<) (map fst (alist_iter t))" for t
    by (simp add: alist_iter_def comp_def strict_sorted_iff)
  have "map_of (alist_iter t) k = map_of t k" for t k
  proof -
    have "map_of (alist_iter t) k =
        (if k \<in> set (sort (remdups (map fst t))) then Some (the (map_of t k)) else None)"
      unfolding alist_iter_def map_of_map_restrict by (simp add: restrict_map_def)
    moreover have "k \<in> set (sort (remdups (map fst t))) \<longleftrightarrow> map_of t k \<noteq> None"
      by (simp add: map_of_eq_None_iff)
    ultimately have "map_of (alist_iter t) k =
        (if map_of t k \<noteq> None then Some (the (map_of t k)) else None)" by (simp only:)
    then show ?thesis by (cases "map_of t k") simp_all
  qed
  then have "map_of (alist_iter t) = map_of t" for t by (rule ext)
  then show ?thesis by (simp add: radix_laws_def demo_env_def del srt del: radix_simps)
qed

end
