(* ===== verification/Sharded_Map.thy ===== *)
theory Sharded_Map
  imports KV
begin

text \<open>
  The concurrent map of \<open>src/core/hashmap/shardedmap.go\<close>: 128 shards of 64 radix trees. A
  tree maps a key to a wrapper, and the wrapper holds the value in an atomic pointer, so an
  update of an existing key swaps a pointer and leaves every tree as it is. The model keeps
  this aliasing: a tree holds wrapper addresses, \<open>wrappers\<close> is the store of wrapper contents,
  and \<open>fresh\<close> the next unused address. Go's fixed arrays are functions of the index, which
  the code always takes modulo the array's length. Every writer holds its shard's lock for its
  whole body, so a writer is one function.

  The lemmas show that lookups see exactly the last accepted write, that the rolling XOR
  digests and counts are those of the contents, that the digests published to peers depend on
  the contents alone, and that last-write-wins merging does not depend on the order or
  repetition of the writes.
\<close>

section \<open>Definitions\<close>

definition SubBucketCount :: nat where "SubBucketCount = 64"
definition ShardCount :: nat where "ShardCount = 128"

record 't shard =
  buckets :: "nat \<Rightarrow> 't"
  readBuckets :: "nat \<Rightarrow> 't option"
  subDigests :: "nat \<Rightarrow> u64"
  subCounts :: "nat \<Rightarrow> u32"
  shardDigest :: u64
  shardCount :: u32

record 't sharded_map =
  shards :: "nat \<Rightarrow> 't shard"
  wrappers :: "nat \<Rightarrow> kv_value option"
  fresh :: nat

definition NewShardedMap :: "'t env \<Rightarrow> 't sharded_map" where
  "NewShardedMap E =
     \<lparr>shards = (\<lambda>_. \<lparr>buckets = (\<lambda>_. r_new E), readBuckets = (\<lambda>_. Some (r_new E)),
                   subDigests = (\<lambda>_. 0), subCounts = (\<lambda>_. 0), shardDigest = 0, shardCount = 0\<rparr>),
      wrappers = (\<lambda>_. None), fresh = 0\<rparr>"

definition shardIndex :: "u64 \<Rightarrow> nat" where
  "shardIndex hash = unat (hash mod of_nat ShardCount)"

definition subIndex :: "u64 \<Rightarrow> nat" where
  "subIndex hash = unat (drop_bit 16 hash mod of_nat SubBucketCount)"

definition getShardByHash :: "'t sharded_map \<Rightarrow> u64 \<Rightarrow> 't shard" where
  "getShardByHash sm hash = shards sm (shardIndex hash)"

definition Load :: "'t env \<Rightarrow> string \<Rightarrow> u64 \<Rightarrow> 't sharded_map \<Rightarrow> kv_value option" where
  "Load E key hash sm =
     (case readBuckets (getShardByHash sm hash) (subIndex hash) of
        None \<Rightarrow> None
      | Some tree \<Rightarrow>
          (case r_get E tree key of
             None \<Rightarrow> None
           | Some wrapper \<Rightarrow>
               (case wrappers sm wrapper of
                  None \<Rightarrow> None
                | Some v \<Rightarrow> Some (v\<lparr>ItemHash := 0\<rparr>))))"

definition LoadData :: "'t env \<Rightarrow> string \<Rightarrow> u64 \<Rightarrow> 't sharded_map \<Rightarrow> goslice option" where
  "LoadData E key hash sm =
     (case readBuckets (getShardByHash sm hash) (subIndex hash) of
        None \<Rightarrow> None
      | Some tree \<Rightarrow>
          (case r_get E tree key of
             None \<Rightarrow> None
           | Some wrapper \<Rightarrow>
               (case wrappers sm wrapper of
                  None \<Rightarrow> None
                | Some v \<Rightarrow> if Tombstone v then None else Some (Data v))))"

definition getItemHash :: "'t env \<Rightarrow> u64 \<Rightarrow> kv_value \<Rightarrow> u64" where
  "getItemHash E hash val =
     (let h = hash XOR word_rotl 17 (Timestamp val);
          h = (if NodeID val \<noteq> '''' then h XOR word_rotl 31 (HashFunc E (NodeID val)) else h);
          h = (if slice_len (Data val) > 0
               then h XOR word_rotl 47 (HashBytes E (slice_bytes (Data val))) else h)
      in if Tombstone val then h XOR 0x5555555555555555 else h)"

definition mixCount :: "u32 \<Rightarrow> u64" where
  "mixCount count =
     (let x = ucast count + 1;
          x = (x XOR drop_bit 30 x) * 0xbf58476d1ce4e5b9;
          x = (x XOR drop_bit 27 x) * 0x94d049bb133111eb
      in x XOR drop_bit 31 x)"

definition lwwWins :: "kv_value \<Rightarrow> kv_value \<Rightarrow> bool" where
  "lwwWins existing incoming =
     (if Timestamp existing \<noteq> Timestamp incoming
      then sint (Timestamp incoming) > sint (Timestamp existing)
      else if NodeID existing \<noteq> NodeID incoming then NodeID incoming > NodeID existing
      else ItemHash incoming > ItemHash existing)"

text \<open>The two ways a writer changes its shard: it swaps the pointer of a wrapper that is
  already in the tree, or it inserts the key with a new wrapper and publishes the new root.\<close>

definition swap_item ::
  "nat \<Rightarrow> nat \<Rightarrow> nat \<Rightarrow> kv_value \<Rightarrow> 't sharded_map \<Rightarrow> 't sharded_map" where
  "swap_item i b wrapper val sm =
     (let sh = shards sm i;
          (sub, dig) = (case wrappers sm wrapper of
             Some existing \<Rightarrow> (subDigests sh b XOR ItemHash existing,
                               shardDigest sh XOR ItemHash existing)
           | None \<Rightarrow> (subDigests sh b, shardDigest sh));
          sh' = sh\<lparr>subDigests := (subDigests sh)(b := sub XOR ItemHash val),
                   shardDigest := dig XOR ItemHash val\<rparr>
      in sm\<lparr>shards := (shards sm)(i := sh'), wrappers := (wrappers sm)(wrapper := Some val)\<rparr>)"

definition insert_item ::
  "'t env \<Rightarrow> nat \<Rightarrow> nat \<Rightarrow> string \<Rightarrow> kv_value \<Rightarrow> 't sharded_map \<Rightarrow> 't sharded_map" where
  "insert_item E i b key val sm =
     (let sh = shards sm i;
          wrapper = fresh sm;
          newTree = r_insert E (buckets sh b) key wrapper;
          sh' = sh\<lparr>subDigests := (subDigests sh)(b := subDigests sh b XOR ItemHash val),
                   shardDigest := shardDigest sh XOR ItemHash val,
                   buckets := (buckets sh)(b := newTree),
                   readBuckets := (readBuckets sh)(b := Some newTree),
                   subCounts := (subCounts sh)(b := subCounts sh b + 1),
                   shardCount := shardCount sh + 1\<rparr>
      in sm\<lparr>shards := (shards sm)(i := sh'), wrappers := (wrappers sm)(wrapper := Some val),
            fresh := Suc wrapper\<rparr>)"

definition Store :: "'t env \<Rightarrow> string \<Rightarrow> u64 \<Rightarrow> kv_value \<Rightarrow> 't sharded_map \<Rightarrow> 't sharded_map" where
  "Store E key hash val sm =
     (let i = shardIndex hash; b = subIndex hash;
          val = val\<lparr>ItemHash := getItemHash E hash val\<rparr>
      in case r_get E (buckets (shards sm i) b) key of
           Some wrapper \<Rightarrow> swap_item i b wrapper val sm
         | None \<Rightarrow> insert_item E i b key val sm)"

definition StoreLWW ::
  "'t env \<Rightarrow> string \<Rightarrow> u64 \<Rightarrow> kv_value \<Rightarrow> 't sharded_map \<Rightarrow> bool \<times> 't sharded_map" where
  "StoreLWW E key hash val sm =
     (let i = shardIndex hash; b = subIndex hash;
          val = val\<lparr>ItemHash := getItemHash E hash val\<rparr>
      in case r_get E (buckets (shards sm i) b) key of
           Some wrapper \<Rightarrow>
             (case wrappers sm wrapper of
                Some existing \<Rightarrow>
                  if \<not> lwwWins existing val then (False, sm)
                  else (True, swap_item i b wrapper val sm)
              | None \<Rightarrow> (True, swap_item i b wrapper val sm))
         | None \<Rightarrow> (True, insert_item E i b key val sm))"

definition Delete_key :: "'t env \<Rightarrow> string \<Rightarrow> u64 \<Rightarrow> 't sharded_map \<Rightarrow> 't sharded_map" where
  "Delete_key E key hash sm =
     (let i = shardIndex hash; b = subIndex hash; sh = shards sm i
      in case r_get E (buckets sh b) key of
           None \<Rightarrow> sm
         | Some wrapper \<Rightarrow>
             (let (sub, dig) = (case wrappers sm wrapper of
                    Some existing \<Rightarrow> (subDigests sh b XOR ItemHash existing,
                                      shardDigest sh XOR ItemHash existing)
                  | None \<Rightarrow> (subDigests sh b, shardDigest sh));
                  newTree = r_delete E (buckets sh b) key;
                  sh' = sh\<lparr>subDigests := (subDigests sh)(b := sub), shardDigest := dig,
                           buckets := (buckets sh)(b := newTree),
                           readBuckets := (readBuckets sh)(b := Some newTree),
                           subCounts := (subCounts sh)(b := subCounts sh b - 1),
                           shardCount := shardCount sh - 1\<rparr>
              in sm\<lparr>shards := (shards sm)(i := sh')\<rparr>))"

text \<open>A shard id is an \<open>int32\<close>, so it may be negative when a peer sends it.\<close>

definition FillShardDigests :: "'t sharded_map \<Rightarrow> (int \<rightharpoonup> u64) \<Rightarrow> (int \<rightharpoonup> u64)" where
  "FillShardDigests sm dst =
     foldl (\<lambda>m i. m(int i \<mapsto> shardDigest (shards sm i) XOR mixCount (shardCount (shards sm i))))
       dst [0..<ShardCount]"

definition RootDigest :: "'t sharded_map \<Rightarrow> u64" where
  "RootDigest sm =
     foldl (\<lambda>root i. root XOR (shardDigest (shards sm i) XOR mixCount (shardCount (shards sm i))))
       0 [0..<ShardCount]"

definition fill_buf :: "'t sharded_map \<Rightarrow> nat \<Rightarrow> u64 list option \<Rightarrow> u64 list" where
  "fill_buf sm i old =
     (let buf = (case old of None \<Rightarrow> [] | Some xs \<Rightarrow> xs);
          buf = (if length buf < SubBucketCount then replicate SubBucketCount 0 else buf);
          sh = shards sm i
      in map (\<lambda>b. subDigests sh b XOR mixCount (subCounts sh b)) [0..<SubBucketCount]
         @ drop SubBucketCount buf)"

definition FillDigests ::
  "'t sharded_map \<Rightarrow> (int \<rightharpoonup> u64 list) option \<Rightarrow> (int \<rightharpoonup> u64 list) option" where
  "FillDigests sm dst =
     (case dst of
        None \<Rightarrow> None
      | Some d \<Rightarrow> Some (foldl (\<lambda>m i. m(int i \<mapsto> fill_buf sm i (m (int i)))) d [0..<ShardCount]))"

text \<open>\<open>Range\<close> visits the entries in order and stops when the callback says so; the callback's
  own state is threaded through.\<close>

definition tree_entries :: "'t env \<Rightarrow> 't sharded_map \<Rightarrow> 't \<Rightarrow> (string \<times> kv_value) list" where
  "tree_entries E sm tree =
     List.map_filter (\<lambda>(k, w). map_option (Pair k) (wrappers sm w)) (r_iter E tree)"

definition map_entries :: "'t env \<Rightarrow> 't sharded_map \<Rightarrow> (string \<times> kv_value) list" where
  "map_entries E sm =
     concat (map (\<lambda>i. concat (map (\<lambda>b. tree_entries E sm (buckets (shards sm i) b))
       [0..<SubBucketCount])) [0..<ShardCount])"

fun visit :: "(string \<Rightarrow> kv_value \<Rightarrow> 's \<Rightarrow> bool \<times> 's) \<Rightarrow> (string \<times> kv_value) list \<Rightarrow> 's \<Rightarrow> 's" where
  "visit callback [] s = s"
| "visit callback ((k, v) # xs) s =
     (case callback k v s of (True, s') \<Rightarrow> visit callback xs s' | (False, s') \<Rightarrow> s')"

definition Range_map ::
  "'t env \<Rightarrow> (string \<Rightarrow> kv_value \<Rightarrow> 's \<Rightarrow> bool \<times> 's) \<Rightarrow> 't sharded_map \<Rightarrow> 's \<Rightarrow> 's" where
  "Range_map E callback sm s = visit callback (map_entries E sm) s"

definition RangeShard ::
  "'t env \<Rightarrow> int \<Rightarrow> u64 \<Rightarrow> (string \<Rightarrow> kv_value \<Rightarrow> 's \<Rightarrow> 's) \<Rightarrow> 't sharded_map \<Rightarrow> 's \<Rightarrow> 's" where
  "RangeShard E shardID mismatchMask callback sm s =
     (if shardID < 0 \<or> shardID \<ge> int ShardCount then s
      else fold (\<lambda>b s. if bit mismatchMask b
             then fold (\<lambda>(k, v). callback k v)
                    (tree_entries E sm (buckets (shards sm (nat shardID)) b)) s
             else s) [0..<SubBucketCount] s)"

section \<open>Contents and invariant\<close>

definition entry :: "'t env \<Rightarrow> 't sharded_map \<Rightarrow> nat \<Rightarrow> nat \<Rightarrow> string \<Rightarrow> kv_value option" where
  "entry E sm i b k =
     (case r_get E (buckets (shards sm i) b) k of None \<Rightarrow> None | Some w \<Rightarrow> wrappers sm w)"

definition keys_at :: "'t env \<Rightarrow> 't sharded_map \<Rightarrow> nat \<Rightarrow> nat \<Rightarrow> string set" where
  "keys_at E sm i b = dom (r_get E (buckets (shards sm i) b))"

definition item_hash :: "'t env \<Rightarrow> 't sharded_map \<Rightarrow> nat \<Rightarrow> nat \<Rightarrow> string \<Rightarrow> u64" where
  "item_hash E sm i b k = (case entry E sm i b k of None \<Rightarrow> 0 | Some v \<Rightarrow> ItemHash v)"

definition published :: "'t sharded_map \<Rightarrow> bool" where
  "published sm \<longleftrightarrow> (\<forall>i b. readBuckets (shards sm i) b = Some (buckets (shards sm i) b))"

definition allocated :: "'t env \<Rightarrow> 't sharded_map \<Rightarrow> bool" where
  "allocated E sm \<longleftrightarrow> (\<forall>i b k w. r_get E (buckets (shards sm i) b) k = Some w \<longrightarrow>
     w < fresh sm \<and> wrappers sm w \<noteq> None)"

definition unshared :: "'t env \<Rightarrow> 't sharded_map \<Rightarrow> bool" where
  "unshared E sm \<longleftrightarrow> (\<forall>i b k i' b' k' w.
     r_get E (buckets (shards sm i) b) k = Some w \<longrightarrow>
     r_get E (buckets (shards sm i') b') k' = Some w \<longrightarrow> i' = i \<and> b' = b \<and> k' = k)"

definition digests_ok :: "'t env \<Rightarrow> 't sharded_map \<Rightarrow> bool" where
  "digests_ok E sm \<longleftrightarrow> (\<forall>i.
     (\<forall>b. subDigests (shards sm i) b = xors.F (item_hash E sm i b) (keys_at E sm i b) \<and>
          subCounts (shards sm i) b = of_nat (card (keys_at E sm i b))) \<and>
     shardDigest (shards sm i) = xors.F (subDigests (shards sm i)) {..<SubBucketCount} \<and>
     shardCount (shards sm i) = (\<Sum>b<SubBucketCount. subCounts (shards sm i) b))"

definition sm_inv :: "'t env \<Rightarrow> 't sharded_map \<Rightarrow> bool" where
  "sm_inv E sm \<longleftrightarrow>
     radix_laws E \<and> published sm \<and> allocated E sm \<and> unshared E sm \<and> digests_ok E sm"

definition same_slot :: "u64 \<Rightarrow> u64 \<Rightarrow> bool" where
  "same_slot h h' \<longleftrightarrow> shardIndex h = shardIndex h' \<and> subIndex h = subIndex h'"

definition lookup :: "'t env \<Rightarrow> 't sharded_map \<Rightarrow> string \<Rightarrow> u64 \<Rightarrow> kv_value option" where
  "lookup E sm key hash = entry E sm (shardIndex hash) (subIndex hash) key"

definition stamped :: "'t env \<Rightarrow> u64 \<Rightarrow> kv_value \<Rightarrow> kv_value" where
  "stamped E hash val = val\<lparr>ItemHash := getItemHash E hash val\<rparr>"

section \<open>Indices\<close>

lemma unsharedD:
  assumes "unshared E sm" and "r_get E (buckets (shards sm i) b) k = Some w"
    and "r_get E (buckets (shards sm i') b') k' = Some w"
  shows "i' = i \<and> b' = b \<and> k' = k"
  using assms(1) unfolding unshared_def
  by (elim allE impE) (rule assms(2), rule assms(3), assumption)

lemma allocatedD:
  assumes "allocated E sm" and "r_get E (buckets (shards sm i) b) k = Some w"
  shows "w < fresh sm" and "\<exists>v. wrappers sm w = Some v"
  using assms unfolding allocated_def by blast+

lemma shardIndex_bound [simp]: "shardIndex h < ShardCount"
proof -
  have "h mod 128 < 128" by (rule word_mod_less_divisor) simp
  then show ?thesis by (simp add: shardIndex_def ShardCount_def word_less_nat_alt)
qed

lemma subIndex_bound [simp]: "subIndex h < SubBucketCount"
proof -
  have "drop_bit 16 h mod 64 < 64" by (rule word_mod_less_divisor) simp
  then show ?thesis by (simp add: subIndex_def SubBucketCount_def word_less_nat_alt)
qed

lemma same_slot_refl [simp]: "same_slot h h"
  by (simp add: same_slot_def)

section \<open>Effect of the two kinds of change\<close>

lemma buckets_swap [simp]:
  "buckets (shards (swap_item i b w val sm) i') b' = buckets (shards sm i') b'"
  by (simp add: swap_item_def Let_def split: option.split)

lemma wrappers_swap [simp]: "wrappers (swap_item i b w val sm) = (wrappers sm)(w := Some val)"
  by (simp add: swap_item_def Let_def split: option.split)

lemma fresh_swap [simp]: "fresh (swap_item i b w val sm) = fresh sm"
  by (simp add: swap_item_def Let_def split: option.split)

lemma buckets_insert [simp]:
  "buckets (shards (insert_item E i b key val sm) i') b' =
     (if i' = i \<and> b' = b then r_insert E (buckets (shards sm i) b) key (fresh sm)
      else buckets (shards sm i') b')"
  by (simp add: insert_item_def Let_def)

lemma wrappers_insert [simp]:
  "wrappers (insert_item E i b key val sm) = (wrappers sm)(fresh sm := Some val)"
  by (simp add: insert_item_def Let_def)

lemma fresh_insert [simp]: "fresh (insert_item E i b key val sm) = Suc (fresh sm)"
  by (simp add: insert_item_def Let_def)

lemma entry_swap:
  assumes "sm_inv E sm" and "r_get E (buckets (shards sm i) b) key = Some w"
  shows "entry E (swap_item i b w val sm) i' b' k =
     (if i' = i \<and> b' = b \<and> k = key then Some val else entry E sm i' b' k)"
proof -
  have u: "unshared E sm" using assms(1) by (simp only: sm_inv_def)
  have "i' = i \<and> b' = b \<and> k = key" if "r_get E (buckets (shards sm i') b') k = Some w"
    by (rule unsharedD [OF u assms(2) that])
  then show ?thesis using assms(2)
    by (cases "r_get E (buckets (shards sm i') b') k") (auto simp: entry_def)
qed

lemma keys_swap: "keys_at E (swap_item i b w val sm) i' b' = keys_at E sm i' b'"
  by (simp add: keys_at_def)

lemma entry_insert:
  assumes "sm_inv E sm" and "r_get E (buckets (shards sm i) b) key = None"
  shows "entry E (insert_item E i b key val sm) i' b' k =
     (if i' = i \<and> b' = b \<and> k = key then Some val else entry E sm i' b' k)"
proof -
  have a: "allocated E sm" and "radix_laws E" using assms(1) by (simp_all only: sm_inv_def)
  moreover have "w \<noteq> fresh sm" if "r_get E (buckets (shards sm i') b') k = Some w" for w
    using allocatedD(1) [OF a that] by simp
  ultimately show ?thesis by (auto simp: entry_def split: option.splits)
qed

lemma keys_insert:
  assumes "radix_laws E"
  shows "keys_at E (insert_item E i b key val sm) i' b' =
     (if i' = i \<and> b' = b then insert key (keys_at E sm i' b') else keys_at E sm i' b')"
  using assms by (auto simp: keys_at_def split: if_splits)

lemma entry_keys: "sm_inv E sm \<Longrightarrow> entry E sm i b k \<noteq> None \<longleftrightarrow> k \<in> keys_at E sm i b"
  by (auto simp: sm_inv_def allocated_def entry_def keys_at_def split: option.splits)

lemma finite_keys: "radix_laws E \<Longrightarrow> finite (keys_at E sm i b)"
  by (simp add: keys_at_def)

section \<open>Every writer keeps the invariant\<close>

lemma sm_invD:
  assumes "sm_inv E sm"
  shows "radix_laws E" and "published sm" and "allocated E sm" and "unshared E sm"
    and "digests_ok E sm"
  using assms by (simp_all only: sm_inv_def)

lemma digests_okD:
  assumes "digests_ok E sm"
  shows "subDigests (shards sm i) b = xors.F (item_hash E sm i b) (keys_at E sm i b)"
    and "subCounts (shards sm i) b = of_nat (card (keys_at E sm i b))"
    and "shardDigest (shards sm i) = xors.F (subDigests (shards sm i)) {..<SubBucketCount}"
    and "shardCount (shards sm i) = (\<Sum>b<SubBucketCount. subCounts (shards sm i) b)"
  using assms by (simp_all only: digests_ok_def)

lemma sum_shift_one:
  fixes f :: "nat \<Rightarrow> u32"
  assumes "b < n"
  shows "(\<Sum>j<n. (f(b := f b + d)) j) = (\<Sum>j<n. f j) + d"
proof -
  have "(\<Sum>j<n. (f(b := f b + d)) j) = (f b + d) + (\<Sum>j\<in>{..<n} - {b}. f j)"
    using assms by (subst sum.remove [of _ b]) (auto intro!: sum.cong)
  also have "\<dots> = (\<Sum>j<n. f j) + d"
    using assms by (subst (2) sum.remove [of _ b]) (auto simp: ac_simps)
  finally show ?thesis .
qed

lemma xors_shift_one:
  assumes "b < (n::nat)"
  shows "xors.F (f(b := (f b XOR c) XOR d)) {..<n} = (xors.F f {..<n} XOR c) XOR d"
proof -
  have "xors.F (f(b := (f b XOR c) XOR d)) (insert b {..<n}) =
      (xors.F f {..<n} XOR f b) XOR ((f b XOR c) XOR d)"
    by (subst xors_update) (simp_all add: assms)
  moreover have "insert b {..<n} = {..<n}" using assms by auto
  ultimately show ?thesis by (simp add: xor.assoc)
qed

lemma digests_put:
  assumes ok: "digests_ok E sm" and b: "b < SubBucketCount" and fin: "finite (keys_at E sm i b)"
    and sh: "shards sm' = (shards sm)(i := sh')"
    and sub: "subDigests sh' = (subDigests (shards sm i))
                (b := (subDigests (shards sm i) b XOR item_hash E sm i b key) XOR new)"
    and dig: "shardDigest sh' = (shardDigest (shards sm i) XOR item_hash E sm i b key) XOR new"
    and cnt: "subCounts sh' = (subCounts (shards sm i))(b := subCounts (shards sm i) b + d)"
    and tot: "shardCount sh' = shardCount (shards sm i) + d"
    and d: "d = (if key \<in> keys_at E sm i b then 0 else 1)"
    and absent: "key \<notin> keys_at E sm i b \<Longrightarrow> item_hash E sm i b key = 0"
    and keys: "\<And>j c. keys_at E sm' j c =
                 (if j = i \<and> c = b then insert key (keys_at E sm j c) else keys_at E sm j c)"
    and hash: "\<And>j c. item_hash E sm' j c =
                 (if j = i \<and> c = b then (item_hash E sm j c)(key := new) else item_hash E sm j c)"
  shows "digests_ok E sm'"
  unfolding digests_ok_def
proof (intro allI conjI)
  fix j c
  note old = digests_okD [OF ok]
  show "subDigests (shards sm' j) c = xors.F (item_hash E sm' j c) (keys_at E sm' j c)"
  proof (cases "j = i \<and> c = b")
    case True
    have "xors.F ((item_hash E sm i b)(key := new)) (insert key (keys_at E sm i b)) =
        (subDigests (shards sm i) b XOR item_hash E sm i b key) XOR new"
      using fin absent by (auto simp: xors_update old(1) simp del: fun_upd_apply)
    with True show ?thesis by (simp add: sh sub keys hash)
  qed (auto simp: sh sub keys hash old(1))
  show "subCounts (shards sm' j) c = of_nat (card (keys_at E sm' j c))"
    using fin by (auto simp: sh cnt keys d old(2) card_insert_if insert_absorb)
  show "shardDigest (shards sm' j) = xors.F (subDigests (shards sm' j)) {..<SubBucketCount}"
    using b by (cases "j = i") (simp_all add: sh sub dig old(3) xors_shift_one fun_upd_same fun_upd_other
      del: fun_upd_apply)
  show "shardCount (shards sm' j) = (\<Sum>c<SubBucketCount. subCounts (shards sm' j) c)"
    using b by (cases "j = i") (simp_all add: sh cnt tot old(4) sum_shift_one fun_upd_same fun_upd_other
      del: fun_upd_apply)
qed

lemma digests_remove:
  assumes ok: "digests_ok E sm" and b: "b < SubBucketCount" and fin: "finite (keys_at E sm i b)"
    and key: "key \<in> keys_at E sm i b"
    and sh: "shards sm' = (shards sm)(i := sh')"
    and sub: "subDigests sh' = (subDigests (shards sm i))
                (b := (subDigests (shards sm i) b XOR item_hash E sm i b key) XOR 0)"
    and dig: "shardDigest sh' = (shardDigest (shards sm i) XOR item_hash E sm i b key) XOR 0"
    and cnt: "subCounts sh' = (subCounts (shards sm i))(b := subCounts (shards sm i) b + (- 1))"
    and tot: "shardCount sh' = shardCount (shards sm i) + (- 1)"
    and keys: "\<And>j c. keys_at E sm' j c =
                 (if j = i \<and> c = b then keys_at E sm j c - {key} else keys_at E sm j c)"
    and hash: "\<And>j c k. item_hash E sm' j c k =
                 (if j = i \<and> c = b \<and> k = key then 0 else item_hash E sm j c k)"
  shows "digests_ok E sm'"
  unfolding digests_ok_def
proof (intro allI conjI)
  fix j c
  note old = digests_okD [OF ok]
  have same: "xors.F (item_hash E sm' j c) (keys_at E sm' j c) =
      xors.F (item_hash E sm j c) (keys_at E sm' j c)"
    by (rule xors.cong) (auto simp: hash keys)
  show "subDigests (shards sm' j) c = xors.F (item_hash E sm' j c) (keys_at E sm' j c)"
    unfolding same using fin key by (auto simp: sh sub keys old(1) xors_delete)
  have c: "card (keys_at E sm i b) = Suc (card (keys_at E sm i b - {key}))"
    using card_Suc_Diff1 [OF fin key] by (rule sym)
  have "of_nat (card (keys_at E sm i b - {key})) = (of_nat (card (keys_at E sm i b)) :: u32) + (- 1)"
    unfolding c of_nat_Suc by simp
  then show "subCounts (shards sm' j) c = of_nat (card (keys_at E sm' j c))"
    by (auto simp: sh cnt keys old(2))
  show "shardDigest (shards sm' j) = xors.F (subDigests (shards sm' j)) {..<SubBucketCount}"
    using b by (cases "j = i") (simp_all add: sh sub dig old(3) xors_shift_one fun_upd_same
      fun_upd_other del: fun_upd_apply xor.right_neutral)
  show "shardCount (shards sm' j) = (\<Sum>c<SubBucketCount. subCounts (shards sm' j) c)"
    using b by (cases "j = i") (simp_all add: sh cnt tot old(4) sum_shift_one fun_upd_same
      fun_upd_other del: fun_upd_apply add_uminus_conv_diff)
qed

lemma item_hash_eq:
  assumes "\<And>k. entry E sm' i b k = (if P \<and> k = key then Some val else entry E sm i b k)"
  shows "item_hash E sm' i b =
     (if P then (item_hash E sm i b)(key := ItemHash val) else item_hash E sm i b)"
  using assms by (auto simp: item_hash_def fun_eq_iff)

lemma item_hash_absent:
  "sm_inv E sm \<Longrightarrow> k \<notin> keys_at E sm i b \<Longrightarrow> item_hash E sm i b k = 0"
  using entry_keys [of E sm i b k] by (simp add: item_hash_def)

lemma swap_inv:
  assumes inv: "sm_inv E sm" and w: "r_get E (buckets (shards sm i) b) key = Some w"
    and b: "b < SubBucketCount"
  shows "sm_inv E (swap_item i b w val sm)"
proof -
  let ?sm = "swap_item i b w val sm"
  note I = sm_invD [OF inv]
  obtain e where e: "wrappers sm w = Some e" using allocatedD(2) [OF I(3) w] by blast
  have ih: "item_hash E sm i b key = ItemHash e" by (simp add: item_hash_def entry_def w e)
  have key: "key \<in> keys_at E sm i b" using w by (auto simp: keys_at_def)
  obtain sh' where sh: "shards ?sm = (shards sm)(i := sh')"
    and sub: "subDigests sh' = (subDigests (shards sm i))
                (b := (subDigests (shards sm i) b XOR ItemHash e) XOR ItemHash val)"
    and dig: "shardDigest sh' = (shardDigest (shards sm i) XOR ItemHash e) XOR ItemHash val"
    and same: "buckets sh' = buckets (shards sm i)" "readBuckets sh' = readBuckets (shards sm i)"
      "subCounts sh' = subCounts (shards sm i)" "shardCount sh' = shardCount (shards sm i)"
    by (simp add: swap_item_def Let_def e)
  have "digests_ok E ?sm"
  proof (rule digests_put [OF I(5) b finite_keys [OF I(1)] sh, where key = key and d = 0])
    fix j c
    show "keys_at E ?sm j c =
        (if j = i \<and> c = b then insert key (keys_at E sm j c) else keys_at E sm j c)"
      using key by (auto simp: keys_swap)
    show "item_hash E ?sm j c = (if j = i \<and> c = b then (item_hash E sm j c)(key := ItemHash val)
        else item_hash E sm j c)"
      by (rule item_hash_eq) (simp add: entry_swap [OF inv w])
  qed (simp_all add: sub dig same ih key)
  moreover have "published ?sm" using I(2) by (simp add: published_def sh same)
  moreover have "allocated E ?sm" using I(3) by (simp add: allocated_def)
  moreover have "unshared E ?sm" using I(4) by (simp add: unshared_def)
  ultimately show ?thesis using I(1) by (simp add: sm_inv_def)
qed

lemma insert_inv:
  assumes inv: "sm_inv E sm" and none: "r_get E (buckets (shards sm i) b) key = None"
    and b: "b < SubBucketCount"
  shows "sm_inv E (insert_item E i b key val sm)"
proof -
  let ?sm = "insert_item E i b key val sm"
  note I = sm_invD [OF inv]
  have key: "key \<notin> keys_at E sm i b" using none by (auto simp: keys_at_def)
  have ih: "item_hash E sm i b key = 0" by (rule item_hash_absent [OF inv key])
  obtain sh' where sh: "shards ?sm = (shards sm)(i := sh')"
    and f: "subDigests sh' = (subDigests (shards sm i))
              (b := subDigests (shards sm i) b XOR ItemHash val)"
      "shardDigest sh' = shardDigest (shards sm i) XOR ItemHash val"
      "subCounts sh' = (subCounts (shards sm i))(b := subCounts (shards sm i) b + 1)"
      "shardCount sh' = shardCount (shards sm i) + 1"
    and pub: "buckets sh' = (buckets (shards sm i))
                (b := r_insert E (buckets (shards sm i) b) key (fresh sm))"
      "readBuckets sh' = (readBuckets (shards sm i))
                (b := Some (r_insert E (buckets (shards sm i) b) key (fresh sm)))"
    by (simp add: insert_item_def Let_def)
  have "digests_ok E ?sm"
  proof (rule digests_put [OF I(5) b finite_keys [OF I(1)] sh, where key = key and d = 1])
    fix j c
    show "keys_at E ?sm j c =
        (if j = i \<and> c = b then insert key (keys_at E sm j c) else keys_at E sm j c)"
      by (rule keys_insert [OF I(1)])
    show "item_hash E ?sm j c = (if j = i \<and> c = b then (item_hash E sm j c)(key := ItemHash val)
        else item_hash E sm j c)"
      by (rule item_hash_eq) (simp add: entry_insert [OF inv none])
  qed (simp_all add: f ih key)
  moreover have "published ?sm" using I(2) by (simp add: published_def sh pub)
  moreover have "allocated E ?sm"
    using I(1,3) by (auto simp: allocated_def less_Suc_eq split: if_splits)
  moreover have "unshared E ?sm"
    unfolding unshared_def
  proof (intro allI impI)
    fix j c k j' c' k' w
    assume 1: "r_get E (buckets (shards ?sm j) c) k = Some w"
      and 2: "r_get E (buckets (shards ?sm j') c') k' = Some w"
    have fr: "r_get E (buckets (shards sm x) y) z \<noteq> Some (fresh sm)" for x y z
      using allocatedD(1) [OF I(3)] by blast
    show "j' = j \<and> c' = c \<and> k' = k"
      using 1 2 I(1) fr unsharedD [OF I(4)] by (auto split: if_splits)
  qed
  ultimately show ?thesis using I(1) by (simp add: sm_inv_def)
qed

lemma Delete_key_None:
  "r_get E (buckets (shards sm (shardIndex hash)) (subIndex hash)) key = None \<Longrightarrow>
   Delete_key E key hash sm = sm"
  by (simp add: Delete_key_def Let_def)

lemma Delete_key_shards:
  assumes inv: "sm_inv E sm"
    and w: "r_get E (buckets (shards sm (shardIndex hash)) (subIndex hash)) key = Some w"
  defines "i \<equiv> shardIndex hash" and "b \<equiv> subIndex hash"
  obtains sh' where "Delete_key E key hash sm = sm\<lparr>shards := (shards sm)(i := sh')\<rparr>"
    and "subDigests sh' = (subDigests (shards sm i))
           (b := subDigests (shards sm i) b XOR item_hash E sm i b key)"
    and "shardDigest sh' = shardDigest (shards sm i) XOR item_hash E sm i b key"
    and "subCounts sh' = (subCounts (shards sm i))(b := subCounts (shards sm i) b + (- 1))"
    and "shardCount sh' = shardCount (shards sm i) + (- 1)"
    and "buckets sh' = (buckets (shards sm i))(b := r_delete E (buckets (shards sm i) b) key)"
    and "readBuckets sh' =
           (readBuckets (shards sm i))(b := Some (r_delete E (buckets (shards sm i) b) key))"
proof -
  obtain e where e: "wrappers sm w = Some e" using allocatedD(2) [OF sm_invD(3) [OF inv] w] by blast
  then have ih: "item_hash E sm i b key = ItemHash e"
    using w by (simp add: item_hash_def entry_def i_def b_def)
  let ?t = "r_delete E (buckets (shards sm i) b) key"
  let ?sh = "(shards sm i)\<lparr>subDigests := (subDigests (shards sm i))
                (b := subDigests (shards sm i) b XOR ItemHash e),
              shardDigest := shardDigest (shards sm i) XOR ItemHash e,
              buckets := (buckets (shards sm i))(b := ?t),
              readBuckets := (readBuckets (shards sm i))(b := Some ?t),
              subCounts := (subCounts (shards sm i))(b := subCounts (shards sm i) b - 1),
              shardCount := shardCount (shards sm i) - 1\<rparr>"
  have "Delete_key E key hash sm = sm\<lparr>shards := (shards sm)(i := ?sh)\<rparr>"
    using w e by (simp add: Delete_key_def Let_def i_def b_def)
  then show thesis by (rule that) (simp_all add: ih)
qed

lemma entry_delete:
  assumes "sm_inv E sm"
  shows "entry E (Delete_key E key hash sm) i b k =
     (if i = shardIndex hash \<and> b = subIndex hash \<and> k = key then None else entry E sm i b k)"
proof (cases "r_get E (buckets (shards sm (shardIndex hash)) (subIndex hash)) key")
  case None
  then show ?thesis by (auto simp: Delete_key_None entry_def)
next
  case (Some w)
  obtain sh' where d: "Delete_key E key hash sm = sm\<lparr>shards := (shards sm)(shardIndex hash := sh')\<rparr>"
    and t: "buckets sh' = (buckets (shards sm (shardIndex hash)))(subIndex hash :=
              r_delete E (buckets (shards sm (shardIndex hash)) (subIndex hash)) key)"
    using Delete_key_shards [OF assms Some] by metis
  show ?thesis using sm_invD(1) [OF assms] by (simp add: entry_def d t cong: option.case_cong)
qed

lemma delete_inv:
  assumes inv: "sm_inv E sm"
  shows "sm_inv E (Delete_key E key hash sm)"
proof (cases "r_get E (buckets (shards sm (shardIndex hash)) (subIndex hash)) key")
  case None
  then show ?thesis using inv by (simp add: Delete_key_None)
next
  case (Some w)
  define i where "i = shardIndex hash"
  define b where "b = subIndex hash"
  let ?sm = "Delete_key E key hash sm" and ?K = "keys_at E sm i b"
  note I = sm_invD [OF inv]
  have bb: "b < SubBucketCount" by (simp add: b_def)
  obtain sh' where sm': "?sm = sm\<lparr>shards := (shards sm)(i := sh')\<rparr>"
    and f: "subDigests sh' = (subDigests (shards sm i))
              (b := (subDigests (shards sm i) b XOR item_hash E sm i b key) XOR 0)"
      "shardDigest sh' = (shardDigest (shards sm i) XOR item_hash E sm i b key) XOR 0"
      "subCounts sh' = (subCounts (shards sm i))(b := subCounts (shards sm i) b + (- 1))"
      "shardCount sh' = shardCount (shards sm i) + (- 1)"
    and t: "buckets sh' = (buckets (shards sm i))(b := r_delete E (buckets (shards sm i) b) key)"
      "readBuckets sh' =
         (readBuckets (shards sm i))(b := Some (r_delete E (buckets (shards sm i) b) key))"
    using Delete_key_shards [OF inv Some] unfolding i_def b_def by (metis xor.right_neutral)
  have sh: "shards ?sm = (shards sm)(i := sh')" "wrappers ?sm = wrappers sm" "fresh ?sm = fresh sm"
    by (simp_all add: sm')
  have key: "key \<in> ?K" using Some by (auto simp: keys_at_def i_def b_def)
  have fin: "finite ?K" by (rule finite_keys [OF I(1)])
  have keys: "keys_at E ?sm j c = (if j = i \<and> c = b then ?K - {key} else keys_at E sm j c)" for j c
    using I(1) by (auto simp: keys_at_def sh t split: if_splits)
  have hash: "item_hash E ?sm j c k = (if j = i \<and> c = b \<and> k = key then 0 else item_hash E sm j c k)"
    for j c k by (simp add: item_hash_def entry_delete [OF inv] i_def b_def)
  have "digests_ok E ?sm"
    by (rule digests_remove [OF I(5) bb fin key sh(1) f]) (simp_all add: keys hash)
  moreover have "published ?sm" using I(2) by (simp add: published_def sh t)
  moreover have "allocated E ?sm"
    using I(1,3) by (auto simp: allocated_def sh t split: if_splits)
  moreover have "unshared E ?sm"
    using I(1) unsharedD [OF I(4)] by (auto simp: unshared_def sh t split: if_splits)
  ultimately show ?thesis using I(1) by (simp add: sm_inv_def)
qed

section \<open>What each operation does to the contents\<close>

lemma new_inv: "radix_laws E \<Longrightarrow> sm_inv E (NewShardedMap E)"
proof -
  assume E: "radix_laws E"
  then have "dom (r_get E (r_new E)) = {}" by auto
  with E show ?thesis
    by (simp add: sm_inv_def NewShardedMap_def published_def allocated_def unshared_def
        digests_ok_def keys_at_def xors.neutral)
qed

lemma lookup_new [simp]: "radix_laws E \<Longrightarrow> lookup E (NewShardedMap E) k h = None"
  by (simp add: lookup_def entry_def NewShardedMap_def)

lemma Load_lookup:
  "sm_inv E sm \<Longrightarrow> Load E k h sm = map_option (\<lambda>v. v\<lparr>ItemHash := 0\<rparr>) (lookup E sm k h)"
  using sm_invD(2) [of E sm]
  by (simp add: Load_def lookup_def entry_def getShardByHash_def published_def split: option.split)

lemma LoadData_Load:
  "LoadData E k h sm =
     (case Load E k h sm of None \<Rightarrow> None | Some v \<Rightarrow> if Tombstone v then None else Some (Data v))"
  by (auto simp: LoadData_def Load_def split: option.splits)

lemma Store_spec:
  assumes "sm_inv E sm"
  shows "sm_inv E (Store E k h v sm)"
    and "lookup E (Store E k h v sm) k' h' =
      (if k' = k \<and> same_slot h' h then Some (stamped E h v) else lookup E sm k' h')"
proof -
  let ?r = "r_get E (buckets (shards sm (shardIndex h)) (subIndex h)) k"
  show "sm_inv E (Store E k h v sm)"
    by (cases ?r) (simp_all add: Store_def Let_def swap_inv [OF assms] insert_inv [OF assms])
  show "lookup E (Store E k h v sm) k' h' =
      (if k' = k \<and> same_slot h' h then Some (stamped E h v) else lookup E sm k' h')"
    by (cases ?r) (auto simp: Store_def Let_def lookup_def same_slot_def stamped_def
        entry_swap [OF assms] entry_insert [OF assms])
qed

lemma StoreLWW_eq:
  assumes "sm_inv E sm"
  shows "StoreLWW E k h v sm =
     (if (case lookup E sm k h of None \<Rightarrow> True | Some e \<Rightarrow> lwwWins e (stamped E h v))
      then (True, Store E k h v sm) else (False, sm))"
proof (cases "r_get E (buckets (shards sm (shardIndex h)) (subIndex h)) k")
  case None
  then show ?thesis by (simp add: StoreLWW_def Store_def lookup_def entry_def Let_def)
next
  case (Some w)
  obtain e where "wrappers sm w = Some e" using allocatedD(2) [OF sm_invD(3) [OF assms] Some] by blast
  with Some show ?thesis
    by (simp add: StoreLWW_def Store_def lookup_def entry_def Let_def stamped_def)
qed

lemma Delete_key_spec:
  assumes "sm_inv E sm"
  shows "sm_inv E (Delete_key E k h sm)"
    and "lookup E (Delete_key E k h sm) k' h' =
      (if k' = k \<and> same_slot h' h then None else lookup E sm k' h')"
  using delete_inv [OF assms] by (auto simp: lookup_def same_slot_def entry_delete [OF assms])

section \<open>Last write wins\<close>

text \<open>
  The contract of the conflict rule. For any strict order on versions, keeping the winner of
  each pair gives the maximum of everything seen; where the order is total on the versions
  seen, that maximum does not depend on the order or the repetition of the writes.
\<close>

locale lww_order =
  fixes wins :: "'v \<Rightarrow> 'v \<Rightarrow> bool"
  assumes wins_irrefl: "\<not> wins a a"
    and wins_trans: "wins a b \<Longrightarrow> wins b c \<Longrightarrow> wins a c"
    and wins_negtrans: "\<not> wins a b \<Longrightarrow> \<not> wins b c \<Longrightarrow> \<not> wins a c"
begin

definition merge :: "'v option \<Rightarrow> 'v \<Rightarrow> 'v option" where
  "merge e v = (case e of None \<Rightarrow> Some v | Some x \<Rightarrow> if wins x v then Some v else Some x)"

definition decided :: "'v set \<Rightarrow> bool" where
  "decided V \<longleftrightarrow> (\<forall>a \<in> V. \<forall>b \<in> V. a \<noteq> b \<longrightarrow> wins a b \<or> wins b a)"

lemma merge_max:
  "\<exists>m. foldl merge (Some x) vs = Some m \<and> m \<in> insert x (set vs) \<and>
       (\<forall>y \<in> insert x (set vs). \<not> wins m y)"
proof (induction vs arbitrary: x)
  case Nil
  show ?case by (simp add: wins_irrefl)
next
  case (Cons v vs)
  let ?z = "if wins x v then v else x"
  obtain m where m: "foldl merge (Some ?z) vs = Some m" "m \<in> insert ?z (set vs)"
    "\<forall>y \<in> insert ?z (set vs). \<not> wins m y" using Cons.IH [of ?z] by blast
  have "\<not> wins m x \<and> \<not> wins m v"
  proof (cases "wins x v")
    case True
    with m(3) show ?thesis using wins_trans by auto
  next
    case False
    with m(3) show ?thesis using wins_negtrans by auto
  qed
  moreover have "foldl merge (Some x) (v # vs) = Some m" using m(1) by (auto simp: merge_def)
  moreover have "m \<in> insert x (set (v # vs))" using m(2) by (auto split: if_splits)
  ultimately show ?case using m(3) by (intro exI [of _ m]) auto
qed

lemma merge_converges:
  assumes "set xs = set ys" and "decided (set xs)"
  shows "foldl merge None xs = foldl merge None ys"
proof (cases xs)
  case Nil
  then show ?thesis using assms by simp
next
  case (Cons x xs')
  then obtain y ys' where ys: "ys = y # ys'" using assms(1) by (cases ys) auto
  obtain m where m: "foldl merge (Some x) xs' = Some m" "m \<in> set xs" "\<forall>z \<in> set xs. \<not> wins m z"
    using merge_max [of x xs'] Cons by auto
  obtain n where n: "foldl merge (Some y) ys' = Some n" "n \<in> set xs" "\<forall>z \<in> set xs. \<not> wins n z"
    using merge_max [of y ys'] ys assms(1) by auto
  have "m = n" using m n assms(2) unfolding decided_def by blast
  then show ?thesis using m(1) n(1) Cons ys by (simp add: merge_def)
qed

end

text \<open>The rule compares the tuple (timestamp, node, item hash) lexicographically.\<close>

definition lww_key :: "kv_value \<Rightarrow> int \<times> string \<times> u64" where
  "lww_key v = (sint (Timestamp v), NodeID v, ItemHash v)"

lemma sint_inj: "sint (a::i64) = sint b \<longleftrightarrow> a = b"
  by (metis signed_word_eqI)

lemma lwwWins_key: "lwwWins a b \<longleftrightarrow> lww_key a < lww_key b"
  unfolding lwwWins_def lww_key_def less_prod_simp
  using sint_inj [of "Timestamp a" "Timestamp b"] by (simp add: order_less_imp_not_less) auto

interpretation lww: lww_order lwwWins
  by unfold_locales (auto simp: lwwWins_key)

lemma decided_iff: "lww.decided V \<longleftrightarrow> inj_on lww_key V"
  unfolding lww.decided_def inj_on_def lwwWins_key by (metis less_irrefl neqE)

section \<open>A replica's contents\<close>

text \<open>Every caller passes the key's own hash. \<open>placed\<close> says what that gives: a key sits in the
  tree its hash selects, and its stored item hash is the hash of its stored value.\<close>

definition placed :: "'t env \<Rightarrow> 't sharded_map \<Rightarrow> bool" where
  "placed E sm \<longleftrightarrow> (\<forall>i b k v. entry E sm i b k = Some v \<longrightarrow>
     i = shardIndex (HashFunc E k) \<and> b = subIndex (HashFunc E k) \<and>
     ItemHash v = getItemHash E (HashFunc E k) v)"

definition replica_inv :: "'t env \<Rightarrow> 't sharded_map \<Rightarrow> bool" where
  "replica_inv E sm \<longleftrightarrow> sm_inv E sm \<and> placed E sm"

definition contents :: "'t env \<Rightarrow> 't sharded_map \<Rightarrow> string \<Rightarrow> kv_value option" where
  "contents E sm k = lookup E sm k (HashFunc E k)"

definition lww_write :: "'t env \<Rightarrow> 't sharded_map \<Rightarrow> string \<Rightarrow> kv_value \<Rightarrow> 't sharded_map" where
  "lww_write E sm k v = snd (StoreLWW E k (HashFunc E k) v sm)"

definition version :: "'t env \<Rightarrow> string \<Rightarrow> kv_value \<Rightarrow> kv_value" where
  "version E k v = stamped E (HashFunc E k) v"

text \<open>The promise a replica makes to the protocols above it, and what follows from it: after
  any sequence of writes a key holds the merge of its own versions, and two replicas that saw
  the same writes hold the same contents.\<close>

locale lww_store = lww_order wins for wins :: "'v \<Rightarrow> 'v \<Rightarrow> bool" +
  fixes inv :: "'s \<Rightarrow> bool" and get :: "'s \<Rightarrow> 'k \<Rightarrow> 'v option"
    and put :: "'s \<Rightarrow> 'k \<Rightarrow> 'v \<Rightarrow> 's" and stamp :: "'k \<Rightarrow> 'v \<Rightarrow> 'v"
  assumes write_inv: "inv s \<Longrightarrow> inv (put s k v)"
    and get_write: "inv s \<Longrightarrow>
      get (put s k v) k' = (if k' = k then merge (get s k) (stamp k v) else get s k')"
begin

definition versions :: "('k \<times> 'v) list \<Rightarrow> 'k \<Rightarrow> 'v list" where
  "versions ws k = map (\<lambda>w. stamp k (snd w)) (filter (\<lambda>w. fst w = k) ws)"

definition writes :: "'s \<Rightarrow> ('k \<times> 'v) list \<Rightarrow> 's" where
  "writes s ws = foldl (\<lambda>s w. put s (fst w) (snd w)) s ws"

lemma writes_inv: "inv s \<Longrightarrow> inv (writes s ws)"
  by (induction ws arbitrary: s) (simp_all add: writes_def write_inv)

lemma get_writes: "inv s \<Longrightarrow> get (writes s ws) k = foldl merge (get s k) (versions ws k)"
  by (induction ws arbitrary: s) (auto simp: writes_def versions_def write_inv get_write)

lemma set_versions: "set (versions ws k) = (\<lambda>w. stamp k (snd w)) ` {w \<in> set ws. fst w = k}"
  by (auto simp: versions_def)

lemma writes_converge:
  assumes "inv s" and "inv t" and "\<And>k. get s k = None" and "\<And>k. get t k = None"
    and "set ws = set ws'" and "\<And>k. decided (set (versions ws k))"
  shows "get (writes s ws) = get (writes t ws')"
proof
  fix k
  have "set (versions ws k) = set (versions ws' k)" by (simp add: set_versions assms(5))
  then show "get (writes s ws) k = get (writes t ws') k"
    using merge_converges [OF _ assms(6)] assms(3,4)
    by (simp add: get_writes [OF assms(1)] get_writes [OF assms(2)])
qed

lemma rewrite_idem:
  assumes "inv s" and "get s k = Some v" and "stamp k w = v"
  shows "get (put s k w) = get s"
  using assms by (auto simp: fun_eq_iff get_write merge_def wins_irrefl)

end

lemma replicaD:
  assumes "replica_inv E sm"
  shows "sm_inv E sm" and "placed E sm" and "radix_laws E"
  using assms sm_invD(1) by (auto simp: replica_inv_def)

lemma new_replica: "radix_laws E \<Longrightarrow> replica_inv E (NewShardedMap E)"
  using new_inv [of E] by (auto simp: replica_inv_def placed_def entry_def NewShardedMap_def)

lemma contents_new [simp]: "radix_laws E \<Longrightarrow> contents E (NewShardedMap E) k = None"
  by (simp add: contents_def)

lemma getItemHash_ItemHash [simp]: "getItemHash E h (v\<lparr>ItemHash := x\<rparr>) = getItemHash E h v"
  by (simp add: getItemHash_def Let_def)

lemma entry_Store:
  assumes "sm_inv E sm"
  shows "entry E (Store E k h v sm) i b k' =
    (if i = shardIndex h \<and> b = subIndex h \<and> k' = k then Some (stamped E h v) else entry E sm i b k')"
  by (cases "r_get E (buckets (shards sm (shardIndex h)) (subIndex h)) k")
    (auto simp: Store_def Let_def stamped_def entry_swap [OF assms] entry_insert [OF assms])

lemma Store_replica:
  assumes "replica_inv E sm"
  shows "replica_inv E (Store E k (HashFunc E k) v sm)"
  using assms
  by (auto simp: replica_inv_def placed_def Store_spec(1) entry_Store stamped_def split: if_splits)

lemma Delete_replica:
  assumes "replica_inv E sm"
  shows "replica_inv E (Delete_key E k h sm)"
  using assms by (auto simp: replica_inv_def placed_def delete_inv entry_delete split: if_splits)

lemma contents_Store:
  "sm_inv E sm \<Longrightarrow> contents E (Store E k (HashFunc E k) v sm) = (contents E sm)(k \<mapsto> version E k v)"
  by (auto simp: contents_def fun_eq_iff Store_spec(2) version_def)

lemma contents_Delete:
  "sm_inv E sm \<Longrightarrow> contents E (Delete_key E k (HashFunc E k) sm) = (contents E sm)(k := None)"
  by (auto simp: contents_def fun_eq_iff Delete_key_spec(2))

lemma StoreLWW_contents:
  assumes "sm_inv E sm"
  shows "StoreLWW E k (HashFunc E k) v sm =
     (if (case contents E sm k of None \<Rightarrow> True | Some e \<Rightarrow> lwwWins e (version E k v))
      then (True, Store E k (HashFunc E k) v sm) else (False, sm))"
  unfolding contents_def version_def by (rule StoreLWW_eq [OF assms])

interpretation replica: lww_store lwwWins "replica_inv E" "contents E" "lww_write E" "version E" for E
proof
  fix s k v k'
  assume r: "replica_inv E s"
  show "replica_inv E (lww_write E s k v)"
    using r by (simp add: lww_write_def StoreLWW_contents [OF replicaD(1) [OF r]] Store_replica)
  show "contents E (lww_write E s k v) k' =
      (if k' = k then lww.merge (contents E s k) (version E k v) else contents E s k')"
    by (simp add: lww_write_def StoreLWW_contents [OF replicaD(1) [OF r]]
        contents_Store [OF replicaD(1) [OF r]] lww.merge_def split: option.split)
qed

section \<open>Iteration\<close>

lemma tree_entries_map:
  assumes "sm_inv E sm"
  shows "tree_entries E sm (buckets (shards sm i) b) =
    map (\<lambda>(k, w). (k, the (wrappers sm w))) (r_iter E (buckets (shards sm i) b))"
proof -
  note I = sm_invD [OF assms]
  have "\<exists>v. wrappers sm w = Some v" if "(k, w) \<in> set (r_iter E (buckets (shards sm i) b))" for k w
    using allocatedD(2) [OF I(3)] that by (simp add: radix_iter_mem [OF I(1)])
  then have "(\<lambda>(k, w). map_option (Pair k) (wrappers sm w)) p = Some ((\<lambda>(k, w). (k, the (wrappers sm w))) p)"
    if "p \<in> set (r_iter E (buckets (shards sm i) b))" for p
    using that by (cases p) fastforce
  then show ?thesis
    unfolding tree_entries_def List.map_filter_def
    by (induction "r_iter E (buckets (shards sm i) b)") (auto simp: filter_id_conv)
qed

lemma tree_entries_spec:
  assumes "sm_inv E sm"
  shows "sorted_wrt (<) (map fst (tree_entries E sm (buckets (shards sm i) b)))"
    and "map_of (tree_entries E sm (buckets (shards sm i) b)) = entry E sm i b"
proof -
  note E = sm_invD(1) [OF assms]
  have "map fst (tree_entries E sm (buckets (shards sm i) b)) = map fst (r_iter E (buckets (shards sm i) b))"
    by (auto simp: tree_entries_map [OF assms])
  then show "sorted_wrt (<) (map fst (tree_entries E sm (buckets (shards sm i) b)))"
    using radix_sorted [OF E] by simp
  have "map_of (tree_entries E sm (buckets (shards sm i) b)) k = entry E sm i b k" for k
    using allocatedD(2) [OF sm_invD(3) [OF assms], of i b k]
    by (auto simp: tree_entries_map [OF assms] map_of_map E entry_def split: option.split)
  then show "map_of (tree_entries E sm (buckets (shards sm i) b)) = entry E sm i b" by (rule ext)
qed

lemma tree_entries_distinct:
  "sm_inv E sm \<Longrightarrow> distinct (map fst (tree_entries E sm (buckets (shards sm i) b)))"
  using tree_entries_spec(1) [of E sm i b] by (simp add: strict_sorted_iff)

lemma tree_entries_mem:
  "sm_inv E sm \<Longrightarrow> (k, v) \<in> set (tree_entries E sm (buckets (shards sm i) b)) \<longleftrightarrow> entry E sm i b k = Some v"
  by (simp add: map_of_eq_Some_iff [symmetric] tree_entries_distinct tree_entries_spec(2))

lemma entry_placed:
  assumes "replica_inv E sm"
  shows "entry E sm i b k =
    (if i = shardIndex (HashFunc E k) \<and> b = subIndex (HashFunc E k) then contents E sm k else None)"
  using replicaD(2) [OF assms] unfolding placed_def contents_def lookup_def
  by (cases "entry E sm i b k") auto

lemma map_entries_mem:
  assumes "replica_inv E sm"
  shows "(k, v) \<in> set (map_entries E sm) \<longleftrightarrow> contents E sm k = Some v"
  by (auto simp: map_entries_def tree_entries_mem [OF replicaD(1) [OF assms]] entry_placed [OF assms]
      intro!: bexI [of _ "shardIndex (HashFunc E k)"] bexI [of _ "subIndex (HashFunc E k)"]
      split: if_splits)

lemma map_entries_distinct:
  assumes "replica_inv E sm"
  shows "distinct (map fst (map_entries E sm))"
proof -
  note I = replicaD(1) [OF assms]
  have mem: "k \<in> fst ` set (tree_entries E sm (buckets (shards sm i) b)) \<Longrightarrow>
      i = shardIndex (HashFunc E k) \<and> b = subIndex (HashFunc E k)" for k i b
    by (auto simp: tree_entries_mem [OF I] entry_placed [OF assms] split: if_splits)
  show ?thesis
    unfolding map_entries_def map_concat map_map comp_def
    by (intro distinct_concat_map distinct_upt tree_entries_distinct [OF I]) (auto dest!: imageI [of _ _ fst] mem)
qed

section \<open>Equal contents give equal digests\<close>

lemma same_contents_entry:
  assumes "replica_inv E s" and "replica_inv E t" and "contents E s = contents E t"
  shows "entry E s = entry E t"
  by (intro ext) (simp add: entry_placed [OF assms(1)] entry_placed [OF assms(2)] assms(3))

lemma same_entry_digests:
  assumes "sm_inv E s" and "sm_inv E t" and "entry E s = entry E t"
  shows "subDigests (shards s i) = subDigests (shards t i)"
    and "subCounts (shards s i) = subCounts (shards t i)"
    and "shardDigest (shards s i) = shardDigest (shards t i)"
    and "shardCount (shards s i) = shardCount (shards t i)"
    and "tree_entries E s (buckets (shards s i) b) = tree_entries E t (buckets (shards t i) b)"
proof -
  note S = digests_okD [OF sm_invD(5) [OF assms(1)]] and T = digests_okD [OF sm_invD(5) [OF assms(2)]]
  have keys: "keys_at E s = keys_at E t"
    using entry_keys [OF assms(1)] entry_keys [OF assms(2)] assms(3) by (auto simp: fun_eq_iff)
  have hash: "item_hash E s = item_hash E t" by (simp add: fun_eq_iff item_hash_def assms(3))
  show d: "subDigests (shards s i) = subDigests (shards t i)"
    by (rule ext) (simp add: S(1) T(1) keys hash)
  show c: "subCounts (shards s i) = subCounts (shards t i)"
    by (rule ext) (simp add: S(2) T(2) keys)
  show "shardDigest (shards s i) = shardDigest (shards t i)" by (simp add: S(3) T(3) d)
  show "shardCount (shards s i) = shardCount (shards t i)" by (simp add: S(4) T(4) c)
  show "tree_entries E s (buckets (shards s i) b) = tree_entries E t (buckets (shards t i) b)"
    by (rule sorted_alist_unique)
      (simp_all add: tree_entries_spec [OF assms(1)] tree_entries_spec [OF assms(2)] assms(3))
qed

text \<open>What a replica publishes to its peers and to its snapshot.\<close>

lemma published_eq:
  assumes "replica_inv E s" and "replica_inv E t" and "contents E s = contents E t"
  shows "RootDigest s = RootDigest t" and "FillShardDigests s = FillShardDigests t"
    and "FillDigests s = FillDigests t" and "map_entries E s = map_entries E t"
proof -
  note D = same_entry_digests [OF replicaD(1) [OF assms(1)] replicaD(1) [OF assms(2)]
      same_contents_entry [OF assms]]
  show "RootDigest s = RootDigest t" by (simp add: RootDigest_def D)
  show "FillShardDigests s = FillShardDigests t" by (simp add: FillShardDigests_def D fun_eq_iff)
  show "FillDigests s = FillDigests t" by (simp add: FillDigests_def fill_buf_def D Let_def fun_eq_iff split: option.split)
  show "map_entries E s = map_entries E t" by (simp add: map_entries_def D(5))
qed

section \<open>Different contents are noticed\<close>

text \<open>What \<open>FillShardDigests\<close> and \<open>FillDigests\<close> publish for a shard and for a sub-bucket.\<close>

definition shard_pub :: "'t sharded_map \<Rightarrow> nat \<Rightarrow> u64" where
  "shard_pub sm i = shardDigest (shards sm i) XOR mixCount (shardCount (shards sm i))"

definition sub_pub :: "'t sharded_map \<Rightarrow> nat \<Rightarrow> nat \<Rightarrow> u64" where
  "sub_pub sm i b = subDigests (shards sm i) b XOR mixCount (subCounts (shards sm i) b)"

lemma foldl_upd_upt:
  "foldl (\<lambda>m i. m(int i \<mapsto> f i)) d [0..<n] j = (if 0 \<le> j \<and> j < int n then Some (f (nat j)) else d j)"
  by (induction n) auto

lemma FillShardDigests_at:
  "FillShardDigests sm dst j =
     (if 0 \<le> j \<and> j < int ShardCount then Some (shard_pub sm (nat j)) else dst j)"
  by (simp add: FillShardDigests_def shard_pub_def foldl_upd_upt [where f = "shard_pub sm", unfolded shard_pub_def])

lemma foldl_upd_dep_upt:
  "foldl (\<lambda>m i. m(int i \<mapsto> f i (m (int i)))) d [0..<n] j =
     (if 0 \<le> j \<and> j < int n then Some (f (nat j) (d j)) else d j)"
  by (induction n) auto

lemma FillDigests_at:
  "\<exists>m. FillDigests sm (Some d) = Some m \<and>
     (\<forall>i < ShardCount. \<exists>ds. m (int i) = Some ds \<and> take SubBucketCount ds = map (sub_pub sm i) [0..<SubBucketCount])"
proof -
  have "take SubBucketCount (fill_buf sm i old) = map (sub_pub sm i) [0..<SubBucketCount]" for i old
    by (simp add: fill_buf_def sub_pub_def Let_def)
  then show ?thesis by (simp add: FillDigests_def foldl_upd_dep_upt)
qed

lemma RootDigest_xors: "RootDigest sm = xors.F (shard_pub sm) {..<ShardCount}"
  by (simp add: RootDigest_def xors_foldl shard_pub_def [abs_def])

lemma mixCount_inj: "mixCount m = mixCount n \<Longrightarrow> m = n"
proof -
  assume e: "mixCount m = mixCount n"
  have "(ucast m :: u64) + 1 = ucast n + 1"
    by (rule xorshift_inj [of 30], simp,
        rule mult_inj_inverse [of "0x96de1b173f119089" "0xbf58476d1ce4e5b9"], simp,
        rule xorshift_inj [of 27], simp,
        rule mult_inj_inverse [of "0x319642b2d24d8ec3" "0x94d049bb133111eb"], simp,
        rule xorshift_inj [of 31], simp, rule e [unfolded mixCount_def Let_def])
  then have "unat (ucast m :: u64) = unat (ucast n :: u64)" by simp
  moreover have "unat (ucast c :: u64) = unat c" for c :: u32
    using unsigned_less [of c, where ?'a = nat] by (simp add: unsigned_ucast_eq take_bit_nat_eq_self)
  ultimately show "m = n" by (metis unsigned_word_eqI)
qed

lemma diverged_digests:
  assumes s: "replica_inv E s" and t: "replica_inv E t"
    and off: "\<And>k'. k' \<noteq> k \<Longrightarrow> contents E s k' = contents E t k'"
    and v: "contents E s k = Some v" and w: "contents E t k = Some w"
  defines "i \<equiv> shardIndex (HashFunc E k)" and "b \<equiv> subIndex (HashFunc E k)"
  shows "sub_pub t j c = (if j = i \<and> c = b then (sub_pub s j c XOR ItemHash v) XOR ItemHash w else sub_pub s j c)"
    and "shard_pub t j = (if j = i then (shard_pub s j XOR ItemHash v) XOR ItemHash w else shard_pub s j)"
proof -
  note S = digests_okD [OF sm_invD(5) [OF replicaD(1) [OF s]]]
    and T = digests_okD [OF sm_invD(5) [OF replicaD(1) [OF t]]]
    and fin = finite_keys [OF replicaD(3) [OF s]]
  have off_t: "contents E t k' = (if k' = k then Some w else contents E s k')" for k'
    using off [of k'] w by simp
  have dom: "contents E t k' = None \<longleftrightarrow> contents E s k' = None" for k'
    using off [of k'] v w by (cases "k' = k") auto
  have keys: "keys_at E t = keys_at E s"
    by (intro ext set_eqI) (simp add: entry_keys [OF replicaD(1) [OF s], symmetric]
        entry_keys [OF replicaD(1) [OF t], symmetric] entry_placed [OF s] entry_placed [OF t] dom del: not_None_eq)
  have hash: "item_hash E t j c = (if j = i \<and> c = b then (item_hash E s j c)(k := ItemHash w) else item_hash E s j c)"
    for j c
    using v w off_t by (auto simp: item_hash_def fun_eq_iff entry_placed [OF s] entry_placed [OF t] i_def b_def)
  have k: "k \<in> keys_at E s i b" "item_hash E s i b k = ItemHash v"
    using entry_keys [OF replicaD(1) [OF s], of i b k] v
    by (simp_all add: item_hash_def entry_placed [OF s] i_def b_def)
  have cnt: "subCounts (shards t j) = subCounts (shards s j)" for j
    by (rule ext) (simp add: S(2) T(2) keys)
  have sub: "subDigests (shards t j) =
      (if j = i then (subDigests (shards s i))(b := (subDigests (shards s i) b XOR ItemHash v) XOR ItemHash w)
       else subDigests (shards s j))" for j
    using xors_update [OF fin, of "item_hash E s i b" k "ItemHash w" s i b] k
    by (auto simp: fun_eq_iff S(1) T(1) keys hash insert_absorb)
  show "sub_pub t j c = (if j = i \<and> c = b then (sub_pub s j c XOR ItemHash v) XOR ItemHash w else sub_pub s j c)"
    by (simp add: sub_pub_def sub cnt ac_simps)
  show "shard_pub t j = (if j = i then (shard_pub s j XOR ItemHash v) XOR ItemHash w else shard_pub s j)"
    using xors_shift_one [of b SubBucketCount "subDigests (shards s i)" "ItemHash v" "ItemHash w"]
    by (simp add: shard_pub_def S(3,4) T(3,4) cnt sub b_def ac_simps del: fun_upd_apply)
qed

section \<open>Properties\<close>

text \<open>A history of writes applied to a map, the versions of a key in a history, and the maps a
  program can reach.\<close>

definition lww_writes :: "'t env \<Rightarrow> (string \<times> kv_value) list \<Rightarrow> 't sharded_map \<Rightarrow> 't sharded_map" where
  "lww_writes E ws sm = foldl (\<lambda>s (k, v). snd (StoreLWW E k (HashFunc E k) v s)) sm ws"

definition key_versions :: "'t env \<Rightarrow> (string \<times> kv_value) list \<Rightarrow> string \<Rightarrow> kv_value list" where
  "key_versions E ws k = map (version E k) (map snd (filter (\<lambda>w. fst w = k) ws))"

inductive map_reach :: "'t env \<Rightarrow> 't sharded_map \<Rightarrow> bool" for E where
  reach_new: "map_reach E (NewShardedMap E)"
| reach_store: "map_reach E sm \<Longrightarrow> map_reach E (Store E k (HashFunc E k) v sm)"
| reach_lww: "map_reach E sm \<Longrightarrow> map_reach E (snd (StoreLWW E k (HashFunc E k) v sm))"
| reach_delete: "map_reach E sm \<Longrightarrow> map_reach E (Delete_key E k (HashFunc E k) sm)"

lemma lww_writes_replica: "lww_writes E ws sm = replica.writes E sm ws"
  by (simp add: lww_writes_def replica.writes_def lww_write_def case_prod_unfold)

lemma key_versions_replica: "key_versions E ws k = replica.versions TYPE('t) E ws k"
  for E :: "'t env"
  by (simp add: key_versions_def replica.versions_def comp_def)

lemma lww_writes_inv: "replica_inv E sm \<Longrightarrow> replica_inv E (lww_writes E ws sm)"
  by (simp add: lww_writes_replica replica.writes_inv)

lemma map_reach_inv: "map_reach E sm \<Longrightarrow> radix_laws E \<Longrightarrow> replica_inv E sm"
proof (induction rule: map_reach.induct)
  case (reach_lww sm k v)
  then show ?case using replica.write_inv [of E sm k v] by (simp add: lww_write_def)
qed (simp_all add: new_replica Store_replica Delete_replica)

text \<open>C6. Replicas converge. Two new maps that receive the same set of last-write-wins writes, in
  any order and with any repetitions, end with the same contents, the same listing and the same
  published digests, provided that no two different versions of a key tie in timestamp, node and
  item hash.\<close>

theorem replicas_converge:
  assumes "radix_laws E" and "set ws = set ws'"
    and "\<And>k. inj_on lww_key (set (key_versions E ws k))"
  defines "s \<equiv> lww_writes E ws (NewShardedMap E)" and "t \<equiv> lww_writes E ws' (NewShardedMap E)"
  shows "contents E s = contents E t \<and> map_entries E s = map_entries E t \<and>
    RootDigest s = RootDigest t \<and> FillShardDigests s = FillShardDigests t \<and> FillDigests s = FillDigests t"
proof -
  note new = new_replica [OF assms(1)]
  have "contents E s = contents E t"
    unfolding s_def t_def lww_writes_replica using assms(1-3)
    by (intro replica.writes_converge new) (simp_all add: decided_iff key_versions_replica)
  moreover have "replica_inv E s" "replica_inv E t" by (simp_all add: s_def t_def lww_writes_inv new)
  ultimately show ?thesis using published_eq [of E s t] by blast
qed

definition demo_value :: "string \<Rightarrow> i64 \<Rightarrow> string \<Rightarrow> kv_value" where
  "demo_value n ts d = \<lparr>NodeID = n, Data = Some d, Timestamp = ts, Tombstone = False, ItemHash = 0\<rparr>"

definition demo_writes :: "(string \<times> kv_value) list" where
  "demo_writes = [(''k'', demo_value ''a'' 5 ''x''), (''k'', demo_value ''b'' 5 ''y''), (''j'', demo_value ''a'' 6 ''z'')]"

theorem replicas_converge_witness:
  "RootDigest (lww_writes demo_env demo_writes (NewShardedMap demo_env)) =
   RootDigest (lww_writes demo_env (rev demo_writes) (NewShardedMap demo_env))"
proof -
  have "inj_on lww_key (set (key_versions demo_env demo_writes k))" for k
    by (auto simp: key_versions_def demo_writes_def demo_value_def version_def stamped_def lww_key_def inj_on_def)
  from replicas_converge [OF radix_laws_demo _ this, of "rev demo_writes"] show ?thesis by simp
qed

text \<open>C26. Whatever sequence of stores, last-write-wins stores and deletes a map has been through, its
  invariant holds: the trees own their wrappers, readers see the writers' trees, every key is in
  the tree its hash selects, and the rolling digests and counts of every shard and sub-bucket are
  the XOR sums and the numbers of the items actually stored.\<close>

theorem map_invariant:
  assumes "radix_laws E" and "map_reach E sm"
  shows "replica_inv E sm"
  using map_reach_inv assms by blast

theorem map_invariant_witness:
  "replica_inv demo_env (Delete_key demo_env ''k'' (HashFunc demo_env ''k'')
     (Store demo_env ''k'' (HashFunc demo_env ''k'') (demo_value ''a'' 5 ''x'') (NewShardedMap demo_env)))"
  by (intro map_invariant [OF radix_laws_demo] map_reach.intros)

text \<open>What a reader sees after a last-write-wins store. The store reports whether the write won;
  if it won, a load of the key returns the written value, and if it lost, nothing changed. Loads of
  other keys never change.\<close>

theorem StoreLWW_Load:
  assumes "replica_inv E sm" and "StoreLWW E k (HashFunc E k) v sm = (won, sm')"
  shows "(won \<longleftrightarrow> (case contents E sm k of None \<Rightarrow> True | Some e \<Rightarrow> lwwWins e (version E k v))) \<and>
    (if won then Load E k (HashFunc E k) sm' = Some (v\<lparr>ItemHash := 0\<rparr>) else sm' = sm) \<and>
    (\<forall>k'. k' \<noteq> k \<longrightarrow> Load E k' (HashFunc E k') sm' = Load E k' (HashFunc E k') sm) \<and> replica_inv E sm'"
proof -
  note I = replicaD(1) [OF assms(1)]
  have I': "sm_inv E (Store E k (HashFunc E k) v sm)" by (rule Store_spec(1) [OF I])
  show ?thesis
  proof (cases won)
    case True
    then show ?thesis
      using assms(2) Store_replica [OF assms(1), of k v]
      by (auto simp: StoreLWW_contents [OF I] Load_lookup [OF I] Load_lookup [OF I'] Store_spec(2) [OF I]
          stamped_def split: if_splits)
  next
    case False
    then show ?thesis using assms by (auto simp: StoreLWW_contents [OF I] split: if_splits)
  qed
qed

theorem StoreLWW_Load_witness:
  "Load demo_env ''k'' (HashFunc demo_env ''k'')
     (snd (StoreLWW demo_env ''k'' (HashFunc demo_env ''k'') (demo_value ''a'' 5 ''x'') (NewShardedMap demo_env))) =
   Some (demo_value ''a'' 5 ''x'')"
  using StoreLWW_Load [OF new_replica [OF radix_laws_demo] surjective_pairing, of "''k''" "demo_value ''a'' 5 ''x''"]
  by (simp add: demo_value_def radix_laws_demo split: if_splits)

text \<open>Anti-entropy sees a divergence. If two replicas differ only in the value of one key, and the
  two item hashes differ, then the root digests differ, exactly one shard's published digest
  differs, and within it exactly one sub-bucket's: the one the key's hash selects.\<close>

theorem divergence_located:
  assumes "replica_inv E s" and "replica_inv E t"
    and "\<And>k'. k' \<noteq> k \<Longrightarrow> contents E s k' = contents E t k'"
    and "contents E s k = Some v" and "contents E t k = Some w" and "ItemHash v \<noteq> ItemHash w"
  shows "RootDigest s \<noteq> RootDigest t \<and>
    (\<forall>j < ShardCount. FillShardDigests s d (int j) \<noteq> FillShardDigests t d (int j) \<longleftrightarrow> j = shardIndex (HashFunc E k)) \<and>
    (\<forall>j b. sub_pub s j b \<noteq> sub_pub t j b \<longleftrightarrow> j = shardIndex (HashFunc E k) \<and> b = subIndex (HashFunc E k))"
proof -
  note D = diverged_digests [OF assms(1-5)]
  have ne: "(x XOR ItemHash v) XOR ItemHash w \<noteq> x" for x :: u64
    using assms(6) by (metis xor_cancel(2) xor_cancel(1) xor.assoc)
  have "shard_pub t = (shard_pub s)(shardIndex (HashFunc E k) :=
      (shard_pub s (shardIndex (HashFunc E k)) XOR ItemHash v) XOR ItemHash w)"
    by (rule ext) (simp add: D(2))
  then have "RootDigest t = (RootDigest s XOR ItemHash v) XOR ItemHash w"
    by (simp add: RootDigest_xors xors_shift_one del: fun_upd_apply)
  then have "RootDigest s \<noteq> RootDigest t" using ne by metis
  moreover have "\<forall>j < ShardCount. FillShardDigests s d (int j) \<noteq> FillShardDigests t d (int j) \<longleftrightarrow>
      j = shardIndex (HashFunc E k)"
    using ne ne [symmetric] by (auto simp: FillShardDigests_at D(2))
  moreover have "\<forall>j b. sub_pub s j b \<noteq> sub_pub t j b \<longleftrightarrow>
      j = shardIndex (HashFunc E k) \<and> b = subIndex (HashFunc E k)"
    using ne ne [symmetric] by (auto simp: D(1))
  ultimately show ?thesis by blast
qed

lemma demo_put:
  "replica_inv demo_env (Store demo_env k (HashFunc demo_env k) v (NewShardedMap demo_env))"
  "contents demo_env (Store demo_env k (HashFunc demo_env k) v (NewShardedMap demo_env)) =
     [k \<mapsto> version demo_env k v]"
  using new_replica [OF radix_laws_demo] Store_replica contents_Store [of demo_env] new_inv [OF radix_laws_demo]
  by (auto simp: fun_eq_iff radix_laws_demo)

theorem divergence_located_witness:
  "RootDigest (Store demo_env ''k'' (HashFunc demo_env ''k'') (demo_value [] 5 []) (NewShardedMap demo_env)) \<noteq>
   RootDigest (Store demo_env ''k'' (HashFunc demo_env ''k'') (demo_value [] 6 []) (NewShardedMap demo_env))"
proof -
  have "ItemHash (version demo_env ''k'' (demo_value [] 5 [])) \<noteq> ItemHash (version demo_env ''k'' (demo_value [] 6 []))"
    by code_simp
  from divergence_located [OF demo_put(1) demo_put(1) _ _ _ this, of "''k''"] show ?thesis
    by (simp add: demo_put(2))
qed

text \<open>The number of items takes part in the digests: shards or sub-buckets whose items cancel to the
  same XOR but whose numbers of items differ publish different digests, because \<open>mixCount\<close> is
  injective.\<close>

theorem count_in_digest:
  assumes "shardDigest (shards s i) = shardDigest (shards t i)"
    and "shardCount (shards s i) \<noteq> shardCount (shards t i)" and "i < ShardCount"
  shows "FillShardDigests s d (int i) \<noteq> FillShardDigests t d (int i)"
  using assms mixCount_inj by (auto simp: FillShardDigests_at shard_pub_def) (metis xor_cancel(1))

theorem count_in_digest_witness:
  "FillShardDigests (NewShardedMap demo_env) Map.empty (int 3) \<noteq>
   FillShardDigests ((NewShardedMap demo_env)\<lparr>shards := (\<lambda>i. (shards (NewShardedMap demo_env) i)\<lparr>shardCount := 1\<rparr>)\<rparr>)
     Map.empty (int 3)"
  by (rule count_in_digest) (simp_all add: NewShardedMap_def ShardCount_def)

text \<open>\<open>Range\<close> hands its callback every stored key exactly once, with its stored value: a callback
  that collects everything collects a listing of the contents.\<close>

theorem Range_complete:
  assumes "replica_inv E sm"
  shows "\<exists>es. Range_map E (\<lambda>k v acc. (True, acc @ [(k, v)])) sm [] = es \<and>
    distinct (map fst es) \<and> map_of es = contents E sm"
proof -
  have collect: "visit (\<lambda>k v acc. (True, acc @ [(k, v)])) xs acc = acc @ xs" for xs acc
    by (induction xs arbitrary: acc) auto
  have "map_of (map_entries E sm) k = contents E sm k" for k
    using map_entries_mem [OF assms] map_entries_distinct [OF assms]
    by (metis map_of_eq_Some_iff not_None_eq option.exhaust)
  then show ?thesis
    using map_entries_distinct [OF assms] by (simp add: Range_map_def collect fun_eq_iff)
qed

theorem Range_complete_witness:
  "\<exists>es. Range_map demo_env (\<lambda>k v acc. (True, acc @ [(k, v)]))
      (Store demo_env ''k'' (HashFunc demo_env ''k'') (demo_value ''a'' 5 ''x'') (NewShardedMap demo_env)) [] = es \<and>
    distinct (map fst es) \<and> map_of es = [''k'' \<mapsto> version demo_env ''k'' (demo_value ''a'' 5 ''x'')]"
  using Range_complete [OF demo_put(1)] by (simp add: demo_put(2))

end
