(* ===== verification/Evict.thy ===== *)
theory Evict
  imports KV "HOL-Library.AList"
begin

text \<open>
  The eviction service of \<open>src/core/evict/eviction.go\<close>: a sharded least-recently-used cache
  of key hashes. A shard links its entries in a doubly linked list of heap objects and finds
  them through a hash table; its goroutine serves an access queue, a delete queue, its own
  eviction queue and a timer. The model keeps the pointers: \<open>heap\<close> is the store of entry
  objects, \<open>prev\<close> and \<open>next\<close> are addresses, and removed entries go through \<open>sync.Pool\<close>, which may or may
  not hand one back. The random draws and the clock readings are arguments. Instants and
  durations are integers (nanoseconds).

  The lemmas show that the pointer structure always is a proper list in step with the table,
  and that the shard refines a plain list of entries in order of use; a shard never holds more
  than its capacity; and where notifications are lost, block or panic.
\<close>

section \<open>Entries and shards\<close>

datatype Reason = ReasonTTL | ReasonCapacity

record lru_entry =
  e_expiry :: int
  e_prev :: "nat option"
  e_next :: "nat option"
  e_key :: string
  e_hash :: u64

record lru_shard =
  heap :: "nat \<Rightarrow> lru_entry"
  lru_head :: "nat option"
  lru_tail :: "nat option"
  cache :: "(u64 \<times> nat) list"
  pool :: "nat list"
  unused :: nat
  ch :: "(string \<times> u64) list"
  chCap :: nat
  delCh :: "u64 list"
  delCap :: nat
  evictCh :: "(string \<times> Reason) list"
  evictCap :: nat
  ttl :: int
  capacity :: u32

record lru =
  lru_shards :: "lru_shard list"

record lru_config =
  cfg_Capacity :: u32
  cfg_TTL :: int
  cfg_ShardCount :: int

datatype evict_panic = PanicCapacity | PanicShardCount | PanicInt64N | PanicTicker

definition blank_entry :: lru_entry where
  "blank_entry = \<lparr>e_expiry = 0, e_prev = None, e_next = None, e_key = '''', e_hash = 0\<rparr>"

definition new_shard :: "u32 \<Rightarrow> int \<Rightarrow> lru_shard" where
  "new_shard shardCap t =
     \<lparr>heap = (\<lambda>_. blank_entry), lru_head = None, lru_tail = None, cache = [], pool = [], unused = 0,
      ch = [], chCap = max (unat (shardCap div 2)) 8192,
      delCh = [], delCap = max (unat (shardCap div 2)) 8192,
      evictCh = [], evictCap = max (unat (shardCap div 4)) 4096,
      ttl = t, capacity = shardCap\<rparr>"

definition NewLRU :: "lru_config \<Rightarrow> evict_panic + lru" where
  "NewLRU config =
     (if cfg_Capacity config = 0 then Inl PanicCapacity
      else if cfg_ShardCount config \<le> 0 then Inl PanicShardCount
      else let shardCount = (if cfg_ShardCount config > int (unat (cfg_Capacity config))
                             then int (unat (cfg_Capacity config)) else cfg_ShardCount config);
               shardCap = cfg_Capacity config div word_of_int shardCount
           in Inr \<lparr>lru_shards = replicate (nat shardCount) (new_shard shardCap (cfg_TTL config))\<rparr>)"

section \<open>The list\<close>

definition set_next :: "nat \<Rightarrow> nat option \<Rightarrow> lru_shard \<Rightarrow> lru_shard" where
  "set_next a n s = s\<lparr>heap := (heap s)(a := (heap s a)\<lparr>e_next := n\<rparr>)\<rparr>"

definition set_prev :: "nat \<Rightarrow> nat option \<Rightarrow> lru_shard \<Rightarrow> lru_shard" where
  "set_prev a p s = s\<lparr>heap := (heap s)(a := (heap s a)\<lparr>e_prev := p\<rparr>)\<rparr>"

definition remove_entry :: "nat \<Rightarrow> lru_shard \<Rightarrow> lru_shard" where
  "remove_entry e s =
     (let s1 = (case e_prev (heap s e) of
                  Some p \<Rightarrow> set_next p (e_next (heap s e)) s
                | None \<Rightarrow> s\<lparr>lru_head := e_next (heap s e)\<rparr>);
          s2 = (case e_next (heap s1 e) of
                  Some n \<Rightarrow> set_prev n (e_prev (heap s1 e)) s1
                | None \<Rightarrow> s1\<lparr>lru_tail := e_prev (heap s1 e)\<rparr>)
      in set_next e None (set_prev e None s2))"

definition pushFront :: "nat \<Rightarrow> lru_shard \<Rightarrow> lru_shard" where
  "pushFront e s =
     (let s1 = set_prev e None (set_next e (lru_head s) s);
          s2 = (case lru_head s1 of Some h \<Rightarrow> set_prev h (Some e) s1 | None \<Rightarrow> s1);
          s3 = s2\<lparr>lru_head := Some e\<rparr>
      in if lru_tail s3 = None then s3\<lparr>lru_tail := Some e\<rparr> else s3)"

text \<open>\<open>sync.Pool\<close>: \<open>Get\<close> may return a pooled object or make a new one; \<open>reuse\<close> says which. The code's shards
  share one pool; here a shard takes back only its own objects. The difference cannot be seen: a
  pooled entry is unlinked and all its other fields are written before use.\<close>

definition pool_get :: "bool \<Rightarrow> lru_shard \<Rightarrow> nat \<times> lru_shard" where
  "pool_get reuse s =
     (case pool s of
        e # es \<Rightarrow> if reuse then (e, s\<lparr>pool := es\<rparr>)
                  else (unused s, s\<lparr>unused := Suc (unused s), heap := (heap s)(unused s := blank_entry)\<rparr>)
      | [] \<Rightarrow> (unused s, s\<lparr>unused := Suc (unused s), heap := (heap s)(unused s := blank_entry)\<rparr>))"

definition pool_put :: "nat \<Rightarrow> lru_shard \<Rightarrow> lru_shard" where
  "pool_put e s = s\<lparr>heap := (heap s)(e := (heap s e)\<lparr>e_key := ''''\<rparr>), pool := e # pool s\<rparr>"

section \<open>The operations of a shard\<close>

text \<open>\<open>None\<close>: the send on the full eviction queue blocks.\<close>

definition evictOldest :: "lru_shard \<Rightarrow> lru_shard option" where
  "evictOldest s =
     (case lru_tail s of
        None \<Rightarrow> Some s
      | Some e \<Rightarrow>
          (let s1 = remove_entry e s;
               s2 = s1\<lparr>cache := AList.delete (e_hash (heap s1 e)) (cache s1)\<rparr> in
           if length (evictCh s2) \<ge> evictCap s2 then None
           else Some (pool_put e (s2\<lparr>evictCh := evictCh s2 @ [(e_key (heap s2 e), ReasonCapacity)]\<rparr>))))"

datatype 'a served = Done 'a | Blocked | Panicked evict_panic

definition seen :: "int \<Rightarrow> int \<Rightarrow> bool \<Rightarrow> string \<Rightarrow> u64 \<Rightarrow> lru_shard \<Rightarrow> lru_shard served" where
  "seen now draw reuse k hkey s =
     (if ttl s div 10 \<le> 0 then Panicked PanicInt64N
      else
        (let expiry = now + (ttl s + draw mod (ttl s div 10)) in
         case map_of (cache s) hkey of
           Some e \<Rightarrow> Done (pushFront e (remove_entry e
             (s\<lparr>heap := (heap s)(e := (heap s e)\<lparr>e_expiry := expiry\<rparr>)\<rparr>)))
         | None \<Rightarrow>
             (case (if of_nat (length (cache s)) \<ge> capacity s then evictOldest s else Some s) of
                None \<Rightarrow> Blocked
              | Some s1 \<Rightarrow>
                  (let (e, s2) = pool_get reuse s1;
                       s3 = s2\<lparr>heap := (heap s2)(e := (heap s2 e)\<lparr>e_key := k, e_hash := hkey, e_expiry := expiry\<rparr>),
                               cache := AList.update hkey e (cache s2)\<rparr>
                   in Done (pushFront e s3)))))"

definition expire_tail :: "nat \<Rightarrow> lru_shard \<Rightarrow> lru_shard" where
  "expire_tail e s =
     (let s1 = remove_entry e s;
          s2 = s1\<lparr>cache := AList.delete (e_hash (heap s1 e)) (cache s1)\<rparr>;
          s3 = (if length (evictCh s2) < evictCap s2
                then s2\<lparr>evictCh := evictCh s2 @ [(e_key (heap s2 e), ReasonTTL)]\<rparr> else s2)
      in pool_put e s3)"

text \<open>The loop of \<open>evictExpired\<close>, with at most \<open>fuel\<close> turns.\<close>

fun expire_loop :: "nat \<Rightarrow> int \<Rightarrow> lru_shard \<Rightarrow> lru_shard option" where
  "expire_loop fuel now s =
     (case lru_tail s of
        None \<Rightarrow> Some s
      | Some e \<Rightarrow>
          if e_expiry (heap s e) > now then Some s
          else case fuel of 0 \<Rightarrow> None | Suc n \<Rightarrow> expire_loop n now (expire_tail e s))"

definition evictExpired :: "int \<Rightarrow> lru_shard \<Rightarrow> lru_shard option" where
  "evictExpired now s = expire_loop (length (cache s)) now s"

definition delete_hash :: "u64 \<Rightarrow> lru_shard \<Rightarrow> lru_shard" where
  "delete_hash hKey s =
     (case map_of (cache s) hKey of
        None \<Rightarrow> s
      | Some e \<Rightarrow> pool_put e ((remove_entry e s)\<lparr>cache := AList.delete hKey (cache s)\<rparr>))"

section \<open>Publishing\<close>

definition sample_mask :: "nat \<Rightarrow> nat \<Rightarrow> u32" where
  "sample_mask qLen qCap =
     (if qLen * 100 < qCap then 0
      else if qLen * 20 < qCap then 1
      else if qLen * 10 < qCap then 3
      else if qLen * 5 < qCap then 7
      else if qLen * 10 < qCap * 3 then 15
      else if qLen * 5 < qCap * 2 then 31
      else if qLen * 2 < qCap then 63
      else if qLen * 5 < qCap * 3 then 127
      else if qLen * 10 < qCap * 7 then 255
      else 511)"

definition shouldSample :: "nat \<Rightarrow> nat \<Rightarrow> u32 \<Rightarrow> bool" where
  "shouldSample qLen qCap r =
     (if qLen * 5 \<ge> qCap * 4 then False
      else sample_mask qLen qCap = 0 \<or> r AND sample_mask qLen qCap = 0)"

definition lru_index :: "lru \<Rightarrow> u64 \<Rightarrow> nat" where
  "lru_index l hash = unat (hash mod of_nat (length (lru_shards l)))"

definition Publish_lru :: "u32 \<Rightarrow> u32 \<Rightarrow> string \<Rightarrow> u64 \<Rightarrow> lru \<Rightarrow> lru" where
  "Publish_lru r1 r2 k hash l =
     (if r1 AND 1 \<noteq> 0 then l
      else
        (let i = lru_index l hash; s = lru_shards l ! i in
         if \<not> shouldSample (length (ch s)) (chCap s) r2 then l
         else if length (ch s) < chCap s
         then l\<lparr>lru_shards := (lru_shards l)[i := s\<lparr>ch := ch s @ [(k, hash)]\<rparr>]\<rparr>
         else l))"

definition PublishDelete :: "u64 \<Rightarrow> lru \<Rightarrow> lru" where
  "PublishDelete hash l =
     (let i = lru_index l hash; s = lru_shards l ! i in
      if length (delCh s) < delCap s
      then l\<lparr>lru_shards := (lru_shards l)[i := s\<lparr>delCh := delCh s @ [hash]\<rparr>]\<rparr>
      else l)"

text \<open>The totals whose quotient \<open>Occupancy\<close> returns.\<close>

definition Occupancy :: "lru \<Rightarrow> u32 \<times> u32" where
  "Occupancy l =
     foldl (\<lambda>(totalSize, totalCap) s. (totalSize + of_nat (length (cache s)), totalCap + capacity s))
       (0, 0) (lru_shards l)"

definition GetShardTTL :: "nat \<Rightarrow> lru \<Rightarrow> int" where
  "GetShardTTL i l = ttl (lru_shards l ! i)"

definition GetShardCapacity :: "nat \<Rightarrow> lru \<Rightarrow> u32" where
  "GetShardCapacity i l = capacity (lru_shards l ! i)"

section \<open>The serving loop\<close>

text \<open>One turn of \<open>run\<close>: the select takes any ready case. \<open>onEvict\<close> says whether a callback is set;
  \<open>evicted\<close> collects its calls. A shard that blocks or panics serves no further turn. Other
  goroutines may add to the access and delete queues at any time.\<close>

record lru_run =
  shard_st :: "lru_shard served"
  running :: bool
  onEvict :: bool
  evicted :: "(string \<times> Reason) list"

text \<open>\<open>Start\<close> spawns \<open>run\<close>, which first makes its ticker; \<open>Stop\<close> cancels and waits, so it returns between
  two turns.\<close>

definition Start_shard :: "lru_run \<Rightarrow> lru_run" where
  "Start_shard r =
     (case shard_st r of
        Done s \<Rightarrow> if ttl s > 0 \<and> ttl s div 10 \<le> 0 then r\<lparr>shard_st := Panicked PanicTicker\<rparr>
                  else r\<lparr>running := True\<rparr>
      | _ \<Rightarrow> r)"

definition Stop_shard :: "lru_run \<Rightarrow> lru_run" where
  "Stop_shard r = r\<lparr>running := False\<rparr>"

definition SetEvictCallback :: "lru_run \<Rightarrow> lru_run" where
  "SetEvictCallback r = r\<lparr>onEvict := True\<rparr>"

inductive lru_step :: "lru_run \<Rightarrow> lru_run \<Rightarrow> bool" where
  serve_seen: "shard_st r = Done s \<Longrightarrow> running r \<Longrightarrow> ch s = (k, h) # rest \<Longrightarrow>
    lru_step r (r\<lparr>shard_st := seen now draw reuse k h (s\<lparr>ch := rest\<rparr>)\<rparr>)"
| serve_delete: "shard_st r = Done s \<Longrightarrow> running r \<Longrightarrow> delCh s = h # rest \<Longrightarrow>
    lru_step r (r\<lparr>shard_st := Done (delete_hash h (s\<lparr>delCh := rest\<rparr>))\<rparr>)"
| serve_evict: "shard_st r = Done s \<Longrightarrow> running r \<Longrightarrow> evictCh s = m # rest \<Longrightarrow>
    lru_step r (r\<lparr>shard_st := Done (s\<lparr>evictCh := rest\<rparr>),
      evicted := (if onEvict r then evicted r @ [m] else evicted r)\<rparr>)"
| serve_tick: "shard_st r = Done s \<Longrightarrow> running r \<Longrightarrow> ttl s > 0 \<Longrightarrow> evictExpired now s = Some s' \<Longrightarrow>
    lru_step r (r\<lparr>shard_st := Done s'\<rparr>)"
| arrive_access: "shard_st r = Done s \<Longrightarrow> length (ch s) < chCap s \<Longrightarrow>
    lru_step r (r\<lparr>shard_st := Done (s\<lparr>ch := ch s @ [(k, h)]\<rparr>)\<rparr>)"
| arrive_delete: "shard_st r = Done s \<Longrightarrow> length (delCh s) < delCap s \<Longrightarrow>
    lru_step r (r\<lparr>shard_st := Done (s\<lparr>delCh := delCh s @ [h]\<rparr>)\<rparr>)"
| start: "shard_st r = Done s \<Longrightarrow> \<not> running r \<Longrightarrow> lru_step r (Start_shard r)"
| stop: "shard_st r = Done s \<Longrightarrow> running r \<Longrightarrow> lru_step r (Stop_shard r)"
| callback: "shard_st r = Done s \<Longrightarrow> lru_step r (SetEvictCallback r)"

section \<open>Linked lists on the heap\<close>

text \<open>A segment of the list: from the predecessor \<open>p\<close> of its first entry to the successor \<open>n\<close> of its
  last.\<close>

fun dseg :: "(nat \<Rightarrow> lru_entry) \<Rightarrow> nat option \<Rightarrow> nat list \<Rightarrow> nat option \<Rightarrow> bool" where
  "dseg h p [] n \<longleftrightarrow> True"
| "dseg h p (e # es) n \<longleftrightarrow> e_prev (h e) = p \<and> e_next (h e) = (case es of [] \<Rightarrow> n | x # _ \<Rightarrow> Some x) \<and> dseg h (Some e) es n"

definition first_of :: "nat list \<Rightarrow> nat option \<Rightarrow> nat option" where
  "first_of xs n = (case xs of [] \<Rightarrow> n | x # _ \<Rightarrow> Some x)"

definition last_of :: "nat list \<Rightarrow> nat option \<Rightarrow> nat option" where
  "last_of xs p = (if xs = [] then p else Some (last xs))"

lemma first_of_simps [simp]:
  "first_of [] n = n" "first_of (x # xs) n = Some x" "first_of (xs @ ys) n = first_of xs (first_of ys n)"
  by (simp_all add: first_of_def split: list.split)

lemma last_of_simps [simp]:
  "last_of [] p = p" "last_of (xs @ [x]) p = Some x" "last_of (x # xs) p = last_of xs (Some x)"
  by (simp_all add: last_of_def)

lemma dseg_append:
  "dseg h p (xs @ ys) n \<longleftrightarrow> dseg h p xs (first_of ys n) \<and> dseg h (last_of xs p) ys n"
  by (induction xs arbitrary: p) (auto split: list.splits simp: first_of_def)

lemma dseg_upd [simp]: "e \<notin> set xs \<Longrightarrow> dseg (h(e := v)) p xs n \<longleftrightarrow> dseg h p xs n"
  by (induction xs arbitrary: p) simp_all

definition linked :: "lru_shard \<Rightarrow> nat list \<Rightarrow> bool" where
  "linked s es \<longleftrightarrow> distinct es \<and> dseg (heap s) None es None \<and>
     lru_head s = first_of es None \<and> lru_tail s = last_of es None"

lemma remove_linked:
  assumes "linked s (xs @ e # ys)"
  shows "linked (remove_entry e s) (xs @ ys)"
proof (cases xs rule: rev_cases)
  case Nil
  then show ?thesis using assms
    by (cases ys) (auto simp: remove_entry_def Let_def set_next_def set_prev_def linked_def last_of_def)
next
  case (snoc xs' a)
  then show ?thesis using assms
    by (cases ys) (auto simp: remove_entry_def Let_def set_next_def set_prev_def linked_def dseg_append last_of_def)
qed

lemma pushFront_linked:
  assumes "linked s es" and "e \<notin> set es"
  shows "linked (pushFront e s) (e # es)"
  using assms by (cases es) (auto simp: pushFront_def Let_def set_next_def set_prev_def linked_def last_of_def)

section \<open>The shard as a list in order of use\<close>

text \<open>What the shard's operations need from the list: taking an entry out, and putting one in front.\<close>

locale recency_list =
  fixes rep :: "'s \<Rightarrow> 'e list \<Rightarrow> bool" and take_out :: "'e \<Rightarrow> 's \<Rightarrow> 's" and put_first :: "'e \<Rightarrow> 's \<Rightarrow> 's"
  assumes rep_distinct: "rep s es \<Longrightarrow> distinct es"
    and rep_take_out: "rep s (xs @ e # ys) \<Longrightarrow> rep (take_out e s) (xs @ ys)"
    and rep_put_first: "rep s es \<Longrightarrow> e \<notin> set es \<Longrightarrow> rep (put_first e s) (e # es)"
begin

lemma rep_remove1: "rep s es \<Longrightarrow> e \<in> set es \<Longrightarrow> rep (take_out e s) (remove1 e es)"
  using rep_take_out by (metis remove1_split)

lemma rep_touch: "rep s es \<Longrightarrow> e \<in> set es \<Longrightarrow> rep (put_first e (take_out e s)) (e # remove1 e es)"
  by (intro rep_put_first rep_remove1) (simp_all add: rep_distinct)

end

interpretation dll: recency_list linked remove_entry pushFront
  by unfold_locales (simp_all add: remove_linked pushFront_linked, simp add: linked_def)

lemma set_next_fields [simp]:
  "e_key (heap (set_next a n s) x) = e_key (heap s x)" "e_hash (heap (set_next a n s) x) = e_hash (heap s x)"
  "e_expiry (heap (set_next a n s) x) = e_expiry (heap s x)"
  "lru_head (set_next a n s) = lru_head s" "lru_tail (set_next a n s) = lru_tail s"
  "cache (set_next a n s) = cache s" "pool (set_next a n s) = pool s" "unused (set_next a n s) = unused s"
  "evictCh (set_next a n s) = evictCh s" "evictCap (set_next a n s) = evictCap s"
  "capacity (set_next a n s) = capacity s" "ttl (set_next a n s) = ttl s"
  by (simp_all add: set_next_def)

lemma set_prev_fields [simp]:
  "e_key (heap (set_prev a n s) x) = e_key (heap s x)" "e_hash (heap (set_prev a n s) x) = e_hash (heap s x)"
  "e_expiry (heap (set_prev a n s) x) = e_expiry (heap s x)"
  "lru_head (set_prev a n s) = lru_head s" "lru_tail (set_prev a n s) = lru_tail s"
  "cache (set_prev a n s) = cache s" "pool (set_prev a n s) = pool s" "unused (set_prev a n s) = unused s"
  "evictCh (set_prev a n s) = evictCh s" "evictCap (set_prev a n s) = evictCap s"
  "capacity (set_prev a n s) = capacity s" "ttl (set_prev a n s) = ttl s"
  by (simp_all add: set_prev_def)

lemma remove_fields [simp]:
  "e_key (heap (remove_entry e s) x) = e_key (heap s x)" "e_hash (heap (remove_entry e s) x) = e_hash (heap s x)"
  "e_expiry (heap (remove_entry e s) x) = e_expiry (heap s x)"
  "cache (remove_entry e s) = cache s" "pool (remove_entry e s) = pool s" "unused (remove_entry e s) = unused s"
  "evictCh (remove_entry e s) = evictCh s" "evictCap (remove_entry e s) = evictCap s"
  "capacity (remove_entry e s) = capacity s" "ttl (remove_entry e s) = ttl s"
  by (simp_all add: remove_entry_def Let_def split: option.split)

lemma push_fields [simp]:
  "e_key (heap (pushFront e s) x) = e_key (heap s x)" "e_hash (heap (pushFront e s) x) = e_hash (heap s x)"
  "e_expiry (heap (pushFront e s) x) = e_expiry (heap s x)"
  "cache (pushFront e s) = cache s" "pool (pushFront e s) = pool s" "unused (pushFront e s) = unused s"
  "evictCh (pushFront e s) = evictCh s" "evictCap (pushFront e s) = evictCap s"
  "capacity (pushFront e s) = capacity s" "ttl (pushFront e s) = ttl s"
  by (simp_all add: pushFront_def Let_def split: option.split)

definition lru_item :: "lru_shard \<Rightarrow> nat \<Rightarrow> u64 \<times> string \<times> int" where
  "lru_item s e = (e_hash (heap s e), e_key (heap s e), e_expiry (heap s e))"

text \<open>The table and the list hold the same entries, each found under its own hash; pooled entries are
  outside the list.\<close>

definition lru_inv :: "lru_shard \<Rightarrow> nat list \<Rightarrow> bool" where
  "lru_inv s es \<longleftrightarrow> linked s es \<and> distinct (map fst (cache s)) \<and>
     (\<forall>h e. map_of (cache s) h = Some e \<longleftrightarrow> e \<in> set es \<and> e_hash (heap s e) = h) \<and>
     distinct (pool s) \<and> set (pool s) \<inter> set es = {} \<and> (\<forall>e \<in> set es \<union> set (pool s). e < unused s) \<and>
     0 < capacity s \<and> length es \<le> unat (capacity s)"

definition lru_rep :: "lru_shard \<Rightarrow> (u64 \<times> string \<times> int) list \<Rightarrow> bool" where
  "lru_rep s xs \<longleftrightarrow> (\<exists>es. lru_inv s es \<and> xs = map (lru_item s) es)"

lemma lru_invD:
  assumes "lru_inv s es"
  shows "linked s es" "distinct es" "distinct (map fst (cache s))"
    "\<And>h e. map_of (cache s) h = Some e \<longleftrightarrow> e \<in> set es \<and> e_hash (heap s e) = h"
    "distinct (pool s)" "set (pool s) \<inter> set es = {}" "\<And>e. e \<in> set es \<Longrightarrow> e < unused s"
    "\<And>e. e \<in> set (pool s) \<Longrightarrow> e < unused s" "0 < capacity s" "length es \<le> unat (capacity s)"
  using assms by (auto simp: lru_inv_def linked_def)

lemma cache_length:
  assumes "lru_inv s es"
  shows "length (cache s) = length es"
proof -
  note I = lru_invD [OF assms]
  have "inj_on (\<lambda>e. e_hash (heap s e)) (set es)"
    by (rule inj_onI) (metis I(4) option.inject)
  then have "card ((\<lambda>e. e_hash (heap s e)) ` set es) = length es"
    using I(2) by (simp add: card_image distinct_card)
  moreover have "(\<lambda>e. e_hash (heap s e)) ` set es = fst ` set (cache s)"
    using I(4) by (auto simp: dom_map_of_conv_image_fst [symmetric] dom_def)
  moreover have "card (fst ` set (cache s)) = length (cache s)"
    using distinct_card [OF I(3)] by simp
  ultimately show ?thesis by simp
qed

text \<open>Taking an entry out of list and table and returning it to the pool.\<close>

definition drop_entry :: "nat \<Rightarrow> (string \<times> Reason) list \<Rightarrow> lru_shard \<Rightarrow> lru_shard" where
  "drop_entry e q s = pool_put e ((remove_entry e s)\<lparr>cache := AList.delete (e_hash (heap s e)) (cache s), evictCh := q\<rparr>)"

lemma linked_cong:
  "(\<And>e. e_prev (heap s' e) = e_prev (heap s e) \<and> e_next (heap s' e) = e_next (heap s e)) \<Longrightarrow>
   lru_head s' = lru_head s \<Longrightarrow> lru_tail s' = lru_tail s \<Longrightarrow> linked s' es \<longleftrightarrow> linked s es"
proof -
  assume a: "\<And>e. e_prev (heap s' e) = e_prev (heap s e) \<and> e_next (heap s' e) = e_next (heap s e)"
    "lru_head s' = lru_head s" "lru_tail s' = lru_tail s"
  have "dseg (heap s') p es n \<longleftrightarrow> dseg (heap s) p es n" for p n
    using a(1) by (induction es arbitrary: p) simp_all
  then show ?thesis using a(2,3) by (simp add: linked_def)
qed

lemma drop_entry_inv:
  assumes "lru_inv s es" and "e \<in> set es"
  shows "lru_inv (drop_entry e q s) (remove1 e es)"
    and "x \<noteq> e \<Longrightarrow> lru_item (drop_entry e q s) x = lru_item s x"
proof -
  note I = lru_invD [OF assms(1)]
  let ?s = "drop_entry e q s"
  have "linked ?s (remove1 e es) \<longleftrightarrow> linked (remove_entry e s) (remove1 e es)"
    by (rule linked_cong) (simp_all add: drop_entry_def pool_put_def)
  then have "linked ?s (remove1 e es)" using dll.rep_remove1 [OF I(1) assms(2)] by simp
  moreover have "distinct (map fst (cache ?s))" by (simp add: drop_entry_def pool_put_def I(3) distinct_delete)
  moreover have "map_of (cache ?s) h = Some x \<longleftrightarrow> x \<in> set (remove1 e es) \<and> e_hash (heap ?s x) = h" for h x
    using I(2) assms(2) I(4) [of h x] I(4) [of h e]
    by (auto simp: drop_entry_def pool_put_def delete_conv' split: if_splits)
  moreover have "length (remove1 e es) \<le> unat (capacity ?s)"
    using I(10) by (auto simp: drop_entry_def pool_put_def length_remove1)
  ultimately show "lru_inv ?s (remove1 e es)"
    using I assms(2) by (auto simp: lru_inv_def drop_entry_def pool_put_def)
  show "lru_item ?s x = lru_item s x" if "x \<noteq> e"
    using that by (simp add: lru_item_def drop_entry_def pool_put_def)
qed

lemma remove1_items:
  assumes "lru_inv s es" and "e \<in> set es"
  shows "map (lru_item s) (remove1 e es) = filter (\<lambda>i. fst i \<noteq> e_hash (heap s e)) (map (lru_item s) es)"
proof -
  note I = lru_invD [OF assms(1)]
  have "x = e \<longleftrightarrow> e_hash (heap s x) = e_hash (heap s e)" if "x \<in> set es" for x
    using I(4) that assms(2) by (metis option.inject)
  then have "filter (\<lambda>x. x \<noteq> e) es = filter (\<lambda>x. e_hash (heap s x) \<noteq> e_hash (heap s e)) es"
    by (intro filter_cong) auto
  moreover have "remove1 e es = filter (\<lambda>x. x \<noteq> e) es"
    using I(2) by (simp add: distinct_remove1_removeAll removeAll_filter_not_eq) (rule filter_cong, auto)
  ultimately show ?thesis by (simp add: filter_map comp_def lru_item_def)
qed

lemma drop_entry_rep:
  assumes "lru_inv s es" and "e \<in> set es"
  shows "map (lru_item (drop_entry e q s)) (remove1 e es) =
    filter (\<lambda>i. fst i \<noteq> e_hash (heap s e)) (map (lru_item s) es)"
proof -
  have "map (lru_item (drop_entry e q s)) (remove1 e es) = map (lru_item s) (remove1 e es)"
    using drop_entry_inv(2) [OF assms] lru_invD(2) [OF assms(1)] by (intro map_cong) auto
  then show ?thesis using remove1_items [OF assms] by simp
qed

lemma pool_get_inv:
  assumes "lru_inv s es" and "pool_get reuse s = (e, s')"
  shows "lru_inv s' es" and "e \<notin> set es" and "e \<notin> set (pool s')" and "e < unused s'"
    and "x \<in> set es \<Longrightarrow> lru_item s' x = lru_item s x"
    and "cache s' = cache s" "capacity s' = capacity s" "evictCh s' = evictCh s"
proof -
  note I = lru_invD [OF assms(1)]
  have nu: "unused s \<notin> set es" "unused s \<notin> set (pool s)" using I(7,8) by blast+
  then have new: "linked (s\<lparr>unused := n, heap := (heap s)(unused s := v)\<rparr>) es" for n v
    using I(1) by (simp add: linked_def)
  have old: "linked (s\<lparr>pool := q\<rparr>) es" for q using I(1) by (simp add: linked_def)
  show "lru_inv s' es"
    using assms new old nu by (auto simp: lru_inv_def pool_get_def less_SucI split: list.splits if_splits)
  show "e \<notin> set es" "e \<notin> set (pool s')" "e < unused s'"
    using assms(2) I(5,6,8) nu by (auto simp: pool_get_def split: list.splits if_splits)
  show "lru_item s' x = lru_item s x" if "x \<in> set es"
    using assms I(7) [OF that] by (auto simp: pool_get_def lru_item_def split: list.splits if_splits)
  show "cache s' = cache s" "capacity s' = capacity s" "evictCh s' = evictCh s"
    using assms by (auto simp: pool_get_def split: list.splits if_splits)
qed

section \<open>The abstract cache\<close>

text \<open>A list of (hash, key, expiry), most recently used first. \<open>spec_seen\<close> is the behaviour the
  service documents: a hit moves to the front, a miss goes to the front, and the last entry
  leaves a full cache.\<close>

definition spec_seen :: "nat \<Rightarrow> string \<Rightarrow> u64 \<Rightarrow> int \<Rightarrow> (u64 \<times> string \<times> int) list \<Rightarrow> (u64 \<times> string \<times> int) list" where
  "spec_seen cap k h x xs =
     (case map_of (map (\<lambda>(h, k, _). (h, k)) xs) h of
        Some k0 \<Rightarrow> (h, k0, x) # filter (\<lambda>i. fst i \<noteq> h) xs
      | None \<Rightarrow> (h, k, x) # (if length xs \<ge> cap then butlast xs else xs))"

definition spec_evicted :: "nat \<Rightarrow> u64 \<Rightarrow> (u64 \<times> string \<times> int) list \<Rightarrow> (string \<times> Reason) list" where
  "spec_evicted cap h xs =
     (if h \<notin> fst ` set xs \<and> length xs \<ge> cap then [(fst (snd (last xs)), ReasonCapacity)] else [])"

definition spec_delete :: "u64 \<Rightarrow> (u64 \<times> string \<times> int) list \<Rightarrow> (u64 \<times> string \<times> int) list" where
  "spec_delete h xs = filter (\<lambda>i. fst i \<noteq> h) xs"

definition spec_dead :: "int \<Rightarrow> (u64 \<times> string \<times> int) list \<Rightarrow> (u64 \<times> string \<times> int) list" where
  "spec_dead now xs = takeWhile (\<lambda>(_, _, x). x \<le> now) (rev xs)"

definition spec_expire :: "int \<Rightarrow> (u64 \<times> string \<times> int) list \<Rightarrow> (u64 \<times> string \<times> int) list" where
  "spec_expire now xs = rev (dropWhile (\<lambda>(_, _, x). x \<le> now) (rev xs))"

lemma new_shard_rep: "0 < c \<Longrightarrow> lru_rep (new_shard c t) []"
  by (simp add: lru_rep_def lru_inv_def new_shard_def linked_def)

lemma rep_hash_miss:
  assumes "lru_inv s es"
  shows "map_of (cache s) h = None \<longleftrightarrow> map_of (map (\<lambda>(h, k, _). (h, k)) (map (lru_item s) es)) h = None"
    and "map_of (cache s) h = None \<longleftrightarrow> h \<notin> fst ` set (map (lru_item s) es)"
proof -
  have "map_of (cache s) h = None \<longleftrightarrow> (\<forall>e \<in> set es. e_hash (heap s e) \<noteq> h)"
    using lru_invD(4) [OF assms] by (metis not_None_eq)
  then show "map_of (cache s) h = None \<longleftrightarrow> map_of (map (\<lambda>(h, k, _). (h, k)) (map (lru_item s) es)) h = None"
    and "map_of (cache s) h = None \<longleftrightarrow> h \<notin> fst ` set (map (lru_item s) es)"
    by (auto simp: map_of_eq_None_iff lru_item_def image_iff)
qed

lemma rep_hash_hit:
  assumes "lru_inv s es" and "map_of (cache s) h = Some e"
  shows "map_of (map (\<lambda>(h, k, _). (h, k)) (map (lru_item s) es)) h = Some (e_key (heap s e))"
proof -
  note I = lru_invD [OF assms(1)]
  have e: "e \<in> set es" "e_hash (heap s e) = h" using I(4) assms(2) by auto
  have "distinct (map (\<lambda>e. e_hash (heap s e)) es)"
    using I(2,4) by (simp add: distinct_map) (rule inj_onI, metis option.inject)
  then show ?thesis
    using e by (simp add: lru_item_def comp_def map_of_eq_Some_iff) (metis (mono_tags, lifting) image_eqI)
qed

lemma evictOldest_drop:
  assumes "lru_inv s es" and "es \<noteq> []"
  shows "evictOldest s = (if length (evictCh s) \<ge> evictCap s then None
    else Some (drop_entry (last es) (evictCh s @ [(e_key (heap s (last es)), ReasonCapacity)]) s))"
  using lru_invD(1) [OF assms(1)] assms(2)
  by (simp add: evictOldest_def linked_def last_of_def drop_entry_def pool_put_def)

lemma remove1_last: "distinct xs \<Longrightarrow> xs \<noteq> [] \<Longrightarrow> remove1 (last xs) xs = butlast xs"
  by (induction xs) auto

lemma touch_rep:
  fixes x :: int
  assumes inv: "lru_inv s es" and hit: "map_of (cache s) h = Some e"
  defines "s0 \<equiv> s\<lparr>heap := (heap s)(e := (heap s e)\<lparr>e_expiry := x\<rparr>)\<rparr>"
  shows "lru_rep (pushFront e (remove_entry e s0)) (spec_seen cap k h x (map (lru_item s) es))"
    and "evictCh (pushFront e (remove_entry e s0)) = evictCh s"
proof -
  note I = lru_invD [OF inv]
  let ?s = "pushFront e (remove_entry e s0)"
  have e: "e \<in> set es" "e_hash (heap s e) = h" using I(4) hit by auto
  have "linked s0 es \<longleftrightarrow> linked s es" unfolding s0_def by (rule linked_cong) simp_all
  then have l: "linked ?s (e # remove1 e es)" using dll.rep_touch I(1) e(1) by blast
  have set: "set (e # remove1 e es) = set es" using e(1) I(2) by auto
  have item: "lru_item ?s y = (if y = e then (h, e_key (heap s e), x) else lru_item s y)" for y
    by (simp add: lru_item_def s0_def e(2))
  have "lru_inv ?s (e # remove1 e es)"
    unfolding lru_inv_def set using l I e length_pos_if_in_set [OF e(1)] by (auto simp: s0_def length_remove1)
  moreover have "map (lru_item s) (remove1 e es) = filter (\<lambda>i. fst i \<noteq> h) (map (lru_item s) es)"
    using remove1_items [OF inv e(1)] e(2) by simp
  moreover have "map (lru_item ?s) (remove1 e es) = map (lru_item s) (remove1 e es)"
    using I(2) by (intro map_cong) (auto simp: item)
  ultimately have "lru_inv ?s (e # remove1 e es)"
    and "map (lru_item ?s) (e # remove1 e es) = spec_seen cap k h x (map (lru_item s) es)"
    unfolding spec_seen_def rep_hash_hit [OF inv hit] by (simp_all add: item)
  then show "lru_rep ?s (spec_seen cap k h x (map (lru_item s) es))"
    unfolding lru_rep_def by metis
  show "evictCh ?s = evictCh s" by (simp add: s0_def)
qed

lemma insert_rep:
  fixes x :: int and k :: string
  assumes inv: "lru_inv s es" and miss: "map_of (cache s) h = None" and room: "length es < unat (capacity s)"
    and get: "pool_get reuse s = (e, s2)"
  defines "s3 \<equiv> s2\<lparr>heap := (heap s2)(e := (heap s2 e)\<lparr>e_key := k, e_hash := h, e_expiry := x\<rparr>),
                    cache := AList.update h e (cache s2)\<rparr>"
  shows "lru_rep (pushFront e s3) ((h, k, x) # map (lru_item s) es)"
    and "evictCh (pushFront e s3) = evictCh s"
proof -
  note G = pool_get_inv [OF inv get] and I = lru_invD [OF pool_get_inv(1) [OF inv get]]
  have "linked s3 es" using I(1) G(2) by (simp add: s3_def linked_def)
  then have l: "linked (pushFront e s3) (e # es)" using dll.rep_put_first G(2) by blast
  have "lru_inv (pushFront e s3) (e # es)"
    unfolding lru_inv_def using l I G miss room
    by (auto simp: s3_def update_conv' distinct_update split: if_splits)
  moreover have "map (lru_item (pushFront e s3)) (e # es) = (h, k, x) # map (lru_item s) es"
    using G(2,5) by (auto simp: lru_item_def s3_def)
  ultimately show "lru_rep (pushFront e s3) ((h, k, x) # map (lru_item s) es)"
    unfolding lru_rep_def by metis
  show "evictCh (pushFront e s3) = evictCh s" using G by (simp add: s3_def)
qed

lemma full_iff:
  assumes "lru_inv s es"
  shows "of_nat (length (cache s)) \<ge> capacity s \<longleftrightarrow> unat (capacity s) \<le> length es"
proof -
  have "length es \<le> unat (capacity s)" using lru_invD(10) [OF assms] .
  then have "length es < 2 ^ 32" using unsigned_less [of "capacity s", where ?'a = nat] by simp
  then show ?thesis by (simp add: cache_length [OF assms] word_le_nat_alt unat_of_nat)
qed

lemma drop_last:
  assumes "lru_inv s es" and "es \<noteq> []"
  shows "lru_inv (drop_entry (last es) q s) (butlast es)"
    and "map (lru_item (drop_entry (last es) q s)) (butlast es) = butlast (map (lru_item s) es)"
proof -
  note d = remove1_last [OF lru_invD(2) [OF assms(1)] assms(2)]
  show "lru_inv (drop_entry (last es) q s) (butlast es)"
    using drop_entry_inv(1) [OF assms(1), of "last es" q] assms(2) by (simp add: d)
  have "last es \<notin> set (butlast es)"
    using lru_invD(2) [OF assms(1)] assms(2) by (metis append_butlast_last_id distinct_butlast not_distinct_conv_prefix)
  then show "map (lru_item (drop_entry (last es) q s)) (butlast es) = butlast (map (lru_item s) es)"
    using drop_entry_inv(2) [OF assms(1), of "last es" _ q] assms(2)
    by (simp add: map_butlast [symmetric]) (metis in_set_butlastD last_in_set)
qed

lemma drop_entry_fields [simp]:
  "cache (drop_entry e q s) = AList.delete (e_hash (heap s e)) (cache s)" "evictCh (drop_entry e q s) = q"
  "capacity (drop_entry e q s) = capacity s" "evictCap (drop_entry e q s) = evictCap s" "ttl (drop_entry e q s) = ttl s"
  by (simp_all add: drop_entry_def pool_put_def)

lemma seen_rep:
  assumes inv: "lru_inv s es" and run: "seen now draw reuse k h s = Done s'"
  defines "x \<equiv> now + (ttl s + draw mod (ttl s div 10))" and "xs \<equiv> map (lru_item s) es"
  shows "lru_rep s' (spec_seen (unat (capacity s)) k h x xs) \<and>
    evictCh s' = evictCh s @ spec_evicted (unat (capacity s)) h xs"
proof (cases "map_of (cache s) h")
  case (Some e)
  then have "s' = pushFront e (remove_entry e (s\<lparr>heap := (heap s)(e := (heap s e)\<lparr>e_expiry := x\<rparr>)\<rparr>))"
    using run by (simp add: seen_def x_def split: if_splits)
  moreover have "h \<in> fst ` set xs" using rep_hash_miss(2) [OF inv, of h] Some by (simp add: xs_def)
  ultimately show ?thesis using touch_rep [OF inv Some] by (simp add: xs_def spec_evicted_def)
next
  case None
  note miss = rep_hash_miss [OF inv, of h]
  obtain s1 where s1: "(if unat (capacity s) \<le> length es then evictOldest s else Some s) = Some s1"
    and s': "(case pool_get reuse s1 of (e, s2) \<Rightarrow>
        pushFront e (s2\<lparr>heap := (heap s2)(e := (heap s2 e)\<lparr>e_key := k, e_hash := h, e_expiry := x\<rparr>),
                       cache := AList.update h e (cache s2)\<rparr>)) = s'"
    using run None by (auto simp: seen_def Let_def x_def full_iff [OF inv] split: if_splits option.splits prod.splits)
  obtain e s2 where g: "pool_get reuse s1 = (e, s2)" by (cases "pool_get reuse s1") auto
  have spec: "spec_seen (unat (capacity s)) k h x xs =
      (h, k, x) # (if unat (capacity s) \<le> length es then butlast xs else xs)"
    using miss(1) None by (simp add: spec_seen_def xs_def)
  show ?thesis
  proof (cases "unat (capacity s) \<le> length es")
    case True
    then have ne: "es \<noteq> []" using lru_invD(9) [OF inv] by (auto simp: word_less_nat_alt)
    then have d: "s1 = drop_entry (last es) (evictCh s @ [(e_key (heap s (last es)), ReasonCapacity)]) s"
      using s1 True evictOldest_drop [OF inv ne] by (simp split: if_splits)
    have "map_of (cache s1) h = None" "length (butlast es) < unat (capacity s1)"
      using None True lru_invD(10) [OF inv] ne by (auto simp: d delete_conv')
    then have "evictCh s' = evictCh s1 \<and> lru_rep s' ((h, k, x) # map (lru_item s1) (butlast es))"
      using insert_rep [OF drop_last(1) [OF inv ne, of "evictCh s @ [(e_key (heap s (last es)), ReasonCapacity)]",
        folded d] _ _ g] s' g by auto
    then show ?thesis
      unfolding spec using drop_last(2) [OF inv ne] True ne miss(2) None
      by (auto simp: spec_evicted_def xs_def d lru_item_def last_map)
  next
    case False
    then have s: "s1 = s" using s1 by simp
    then show ?thesis
      unfolding spec using insert_rep [OF inv None _ g [unfolded s]] s' g False by (auto simp: spec_evicted_def xs_def)
  qed
qed

lemma delete_rep:
  assumes "lru_rep s xs"
  shows "lru_rep (delete_hash h s) (spec_delete h xs)"
proof -
  obtain es where es: "lru_inv s es" "xs = map (lru_item s) es" using assms by (auto simp: lru_rep_def)
  show ?thesis
  proof (cases "map_of (cache s) h")
    case None
    then have "spec_delete h xs = xs"
      using rep_hash_miss(2) [OF es(1), of h] by (auto simp: spec_delete_def es(2) filter_id_conv image_iff)
    then show ?thesis using None assms by (simp add: delete_hash_def)
  next
    case (Some e)
    then have e: "e \<in> set es" "e_hash (heap s e) = h" using lru_invD(4) [OF es(1)] by auto
    then have "delete_hash h s = drop_entry e (evictCh s) s"
      using Some by (simp add: delete_hash_def drop_entry_def pool_put_def)
    then show ?thesis
      using drop_entry_inv(1) [OF es(1) e(1)] drop_entry_rep [OF es(1) e(1)] e(2)
      unfolding lru_rep_def spec_delete_def es(2) by metis
  qed
qed

lemma expire_tail_drop:
  "expire_tail e s = drop_entry e (if length (evictCh s) < evictCap s
     then evictCh s @ [(e_key (heap s e), ReasonTTL)] else evictCh s) s"
  by (simp add: expire_tail_def drop_entry_def pool_put_def Let_def)

lemma expire_loop_rep:
  "lru_inv s es \<Longrightarrow> length es \<le> fuel \<Longrightarrow>
     \<exists>s'. expire_loop fuel now s = Some s' \<and> lru_rep s' (spec_expire now (map (lru_item s) es)) \<and>
       evictCh s' = evictCh s @ take (evictCap s - length (evictCh s))
         (map (\<lambda>(_, k, _). (k, ReasonTTL)) (spec_dead now (map (lru_item s) es)))"
proof (induction fuel arbitrary: s es)
  case 0
  then have "lru_tail s = None" using lru_invD(1) [OF 0(1)] by (simp add: linked_def)
  then show ?case using 0 by (auto simp: lru_rep_def spec_expire_def spec_dead_def)
next
  case (Suc n)
  show ?case
  proof (cases es rule: rev_cases)
    case Nil
    then have "lru_tail s = None" using lru_invD(1) [OF Suc(2)] by (simp add: linked_def)
    then show ?thesis using Suc(2) Nil by (auto simp: lru_rep_def spec_expire_def spec_dead_def)
  next
    case (snoc es' e)
    then have t: "lru_tail s = Some e" using lru_invD(1) [OF Suc(2)] by (simp add: linked_def)
    show ?thesis
    proof (cases "e_expiry (heap s e) > now")
      case True
      then show ?thesis using t Suc(2) snoc
        by (auto simp: lru_rep_def spec_expire_def spec_dead_def lru_item_def)
    next
      case False
      let ?q = "if length (evictCh s) < evictCap s then evictCh s @ [(e_key (heap s e), ReasonTTL)] else evictCh s"
      have d: "lru_inv (drop_entry e ?q s) es'" "map (lru_item (drop_entry e ?q s)) es' = map (lru_item s) es'"
        using drop_last [OF Suc(2), of ?q] snoc by simp_all
      obtain s' where s': "expire_loop n now (drop_entry e ?q s) = Some s'"
        "lru_rep s' (spec_expire now (map (lru_item s) es'))"
        "evictCh s' = ?q @ take (evictCap s - length ?q) (map (\<lambda>(_, k, _). (k, ReasonTTL)) (spec_dead now (map (lru_item s) es')))"
        using Suc(1) [OF d(1)] Suc(3) snoc d(2) by auto
      have "expire_loop (Suc n) now s = Some s'" using t False s'(1) by (simp add: expire_tail_drop)
      moreover have "spec_expire now (map (lru_item s) es) = spec_expire now (map (lru_item s) es')"
        "spec_dead now (map (lru_item s) es) =
           (e_hash (heap s e), e_key (heap s e), e_expiry (heap s e)) # spec_dead now (map (lru_item s) es')"
        using False snoc by (simp_all add: spec_expire_def spec_dead_def lru_item_def)
      ultimately show ?thesis using s'(2,3)
        by (auto simp: take_Cons' simp del: expire_loop.simps split: if_splits)
    qed
  qed
qed

lemma seen_keeps: "lru_rep s xs \<Longrightarrow> seen now draw reuse k h s = Done s' \<Longrightarrow> \<exists>ys. lru_rep s' ys"
  using seen_rep unfolding lru_rep_def by metis

lemma expire_rep:
  assumes "lru_rep s xs"
  shows "\<exists>s'. evictExpired now s = Some s' \<and> lru_rep s' (spec_expire now xs) \<and>
    evictCh s' = evictCh s @ take (evictCap s - length (evictCh s))
      (map (\<lambda>(_, k, _). (k, ReasonTTL)) (spec_dead now xs))"
proof -
  obtain es where es: "lru_inv s es" "xs = map (lru_item s) es" using assms by (auto simp: lru_rep_def)
  show ?thesis unfolding evictExpired_def es(2)
    by (rule expire_loop_rep [OF es(1)]) (simp add: cache_length [OF es(1)])
qed

lemma expire_keeps: "lru_rep s xs \<Longrightarrow> evictExpired now s = Some s' \<Longrightarrow> \<exists>ys. lru_rep s' ys"
  using expire_rep [of s xs now] by auto

section \<open>Properties\<close>


lemma demo_shard:
  defines "s \<equiv> new_shard 1 100"
  shows "\<exists>s'. seen 0 3 False ''a'' 7 s = Done s'"
  by (auto simp: s_def seen_def new_shard_def pool_get_def Let_def)


text \<open>C28. Expiry returns, removes exactly the expired entries at the end of the list, and announces them
  until the eviction queue is full. The announcements beyond that are dropped, so their keys are
  never reported although they have left the cache.\<close>

theorem lru_expire_refines:
  assumes "lru_rep s xs"
  shows "\<exists>s'. evictExpired now s = Some s' \<and> lru_rep s' (spec_expire now xs) \<and>
    evictCh s' = evictCh s @ take (evictCap s - length (evictCh s))
      (map (\<lambda>(_, k, _). (k, ReasonTTL)) (spec_dead now xs))"
  by (rule expire_rep [OF assms])

theorem lru_expire_refines_witness:
  "\<exists>s'. evictExpired 5 (new_shard 1 100) = Some s' \<and> lru_rep s' [] \<and> evictCh s' = []"
proof -
  have "lru_rep (new_shard 1 100) []" by (rule new_shard_rep) simp
  from lru_expire_refines [OF this, of 5] show ?thesis
    by (simp add: new_shard_def spec_expire_def spec_dead_def)
qed

inductive lru_reach :: "u32 \<Rightarrow> int \<Rightarrow> lru_run \<Rightarrow> bool" for c t where
  lru_start: "lru_reach c t \<lparr>shard_st = Done (new_shard c t), running = False, onEvict = False, evicted = []\<rparr>"
| lru_next: "lru_reach c t r \<Longrightarrow> lru_step r r' \<Longrightarrow> lru_reach c t r'"

lemma rep_queues [simp]:
  "lru_rep (s\<lparr>ch := a\<rparr>) xs \<longleftrightarrow> lru_rep s xs" "lru_rep (s\<lparr>delCh := b\<rparr>) xs \<longleftrightarrow> lru_rep s xs"
  "lru_rep (s\<lparr>evictCh := q\<rparr>) xs \<longleftrightarrow> lru_rep s xs"
  by (simp_all add: lru_rep_def lru_inv_def linked_def lru_item_def [abs_def])

lemma expire_capacity: "expire_loop n now s = Some s' \<Longrightarrow> capacity s' = capacity s"
proof (induction n arbitrary: s)
  case 0
  then show ?case
    by (subst (asm) expire_loop.simps) (auto simp del: expire_loop.simps split: option.splits if_splits)
next
  case (Suc n)
  have "capacity (expire_tail e s) = capacity s" for e by (simp add: expire_tail_drop)
  then show ?case using Suc
    by (subst (asm) (2) expire_loop.simps) (auto simp del: expire_loop.simps split: option.splits if_splits)
qed

lemma evictOldest_capacity: "evictOldest s = Some s' \<Longrightarrow> capacity s' = capacity s"
  by (auto simp: evictOldest_def pool_put_def Let_def split: option.splits if_splits)

lemma seen_capacity: "seen now draw reuse k h s = Done s' \<Longrightarrow> capacity s' = capacity s"
  by (auto simp: seen_def Let_def pool_get_def dest: evictOldest_capacity
      split: if_splits option.splits prod.splits list.splits)

lemma delete_capacity: "capacity (delete_hash h s) = capacity s"
  by (simp add: delete_hash_def pool_put_def split: option.split)

lemma lru_reach_inv:
  assumes "lru_reach c t r" and "0 < c"
  shows "\<forall>s. shard_st r = Done s \<longrightarrow> capacity s = c \<and> (\<exists>xs. lru_rep s xs)"
  using assms(1)
proof (induction rule: lru_reach.induct)
  case lru_start
  then show ?case using new_shard_rep [OF assms(2), of t] by (auto simp: new_shard_def)
next
  case (lru_next r r')
  from lru_next(2) show ?case
  proof cases
    case (serve_seen s k h rest now draw reuse)
    then obtain xs where "capacity s = c" "lru_rep (s\<lparr>ch := rest\<rparr>) xs" using lru_next(3) by auto
    then show ?thesis
      using seen_capacity [of now draw reuse k h "s\<lparr>ch := rest\<rparr>"] seen_keeps [of "s\<lparr>ch := rest\<rparr>" xs now draw reuse k h]
      by (simp add: serve_seen(1))
  next
    case (serve_tick s now s')
    then obtain xs where "capacity s = c" "lru_rep s xs" using lru_next(3) by auto
    then show ?thesis
      using serve_tick expire_keeps expire_capacity [OF serve_tick(5) [unfolded evictExpired_def]] by auto
  next
    case (serve_delete s h rest)
    then obtain xs where "capacity s = c" "lru_rep (s\<lparr>delCh := rest\<rparr>) xs" using lru_next(3) by auto
    then show ?thesis using delete_rep [of "s\<lparr>delCh := rest\<rparr>" xs h] by (auto simp: serve_delete(1) delete_capacity)
  qed (use lru_next(3) in \<open>auto simp: Start_shard_def Stop_shard_def SetEvictCallback_def split: if_splits\<close>)
qed

lemma rep_length: "lru_rep s xs \<Longrightarrow> length (cache s) = length xs \<and> length xs \<le> unat (capacity s)"
  using cache_length lru_invD(10) by (fastforce simp: lru_rep_def)

text \<open>C29. Whatever the shard's goroutine and its clients do, a running shard's pointers form a proper
  list in step with its table, and it never holds more entries than its capacity.\<close>

theorem lru_capacity_invariant:
  assumes "lru_reach c t r" and "0 < c" and "shard_st r = Done s"
  shows "(\<exists>xs. lru_rep s xs) \<and> length (cache s) \<le> unat c"
  using lru_reach_inv [OF assms(1,2)] assms(3) rep_length by fastforce

theorem lru_capacity_invariant_witness:
  "\<exists>s. lru_reach 1 100 \<lparr>shard_st = Done s, running = False, onEvict = False, evicted = []\<rparr> \<and> ch s = [(''a'', 7)] \<and>
    length (cache s) \<le> 1"
proof -
  let ?s = "(new_shard 1 100)\<lparr>ch := [(''a'', 7)]\<rparr>"
  have "lru_reach 1 100 (\<lparr>shard_st = Done (new_shard 1 100), running = False, onEvict = False, evicted = []\<rparr>\<lparr>shard_st :=
      Done ((new_shard 1 100)\<lparr>ch := ch (new_shard 1 100) @ [(''a'', 7)]\<rparr>)\<rparr>)"
    by (rule lru_next [OF lru_start arrive_access]) (simp_all add: new_shard_def)
  then have r: "lru_reach 1 100 \<lparr>shard_st = Done ?s, running = False, onEvict = False, evicted = []\<rparr>"
    by (simp add: new_shard_def)
  from lru_capacity_invariant [OF r] have "length (cache ?s) \<le> 1" by simp
  then show ?thesis using r by (intro exI [of _ ?s]) simp
qed

text \<open>Where a shard stops serving for ever. With a time to live below ten nanoseconds, zero included,
  serving the first access panics; and with a full cache and a full eviction queue, serving a new
  key blocks on the queue that only this goroutine empties. In neither case can any further turn be
  taken.\<close>

theorem lru_stops:
  assumes "lru_rep s xs" and "ttl s < 10 \<or>
      h \<notin> fst ` set xs \<and> unat (capacity s) \<le> length xs \<and> evictCap s \<le> length (evictCh s)"
  shows "seen now draw reuse k h s = (if ttl s < 10 then Panicked PanicInt64N else Blocked) \<and>
    \<not> lru_step \<lparr>shard_st = seen now draw reuse k h s, running = True, onEvict = cb, evicted = es\<rparr> r'"
proof -
  obtain es' where es: "lru_inv s es'" "xs = map (lru_item s) es'" using assms(1) by (auto simp: lru_rep_def)
  have "seen now draw reuse k h s = Blocked"
    if "\<not> ttl s < 10" "h \<notin> fst ` set xs" "unat (capacity s) \<le> length xs" "evictCap s \<le> length (evictCh s)"
  proof -
    have ne: "es' \<noteq> []" using that(3) lru_invD(9) [OF es(1)] by (auto simp: es(2) word_less_nat_alt)
    have "map_of (cache s) h = None" using rep_hash_miss(2) [OF es(1)] that(2) by (simp add: es(2))
    then show ?thesis using that full_iff [OF es(1)] evictOldest_drop [OF es(1) ne]
      by (simp add: seen_def Let_def es(2))
  qed
  moreover have "seen now draw reuse k h s = Panicked PanicInt64N" if "ttl s < 10"
    using that by (auto simp: seen_def)
  ultimately have st: "seen now draw reuse k h s = (if ttl s < 10 then Panicked PanicInt64N else Blocked)"
    using assms(2) by auto
  then show ?thesis by (auto elim!: lru_step.cases split: if_splits)
qed

theorem lru_stops_witness:
  "seen 0 0 False ''a'' 7 (new_shard 1 0) = Panicked PanicInt64N"
  using lru_stops [OF new_shard_rep [of 1 0], of 7] by (simp add: new_shard_def)

text \<open>The configured capacity is a bound for the whole service. A configuration that is accepted gives
  at least one shard, no more shards than the capacity, every shard room for at least one entry and
  an empty proper list, and capacities that add up to at most the capacity configured, missing it
  by less than the number of shards.\<close>

theorem NewLRU_capacity:
  assumes "NewLRU config = Inr l"
  shows "lru_shards l \<noteq> [] \<and> length (lru_shards l) \<le> unat (cfg_Capacity config) \<and>
    (\<forall>s \<in> set (lru_shards l). 0 < capacity s \<and> lru_rep s []) \<and>
    sum_list (map (\<lambda>s. unat (capacity s)) (lru_shards l)) \<le> unat (cfg_Capacity config) \<and>
    unat (cfg_Capacity config) < sum_list (map (\<lambda>s. unat (capacity s)) (lru_shards l)) + length (lru_shards l)"
proof -
  define cap where "cap = unat (cfg_Capacity config)"
  define n where "n = nat (if cfg_ShardCount config > int cap then int cap else cfg_ShardCount config)"
  have ok: "cfg_Capacity config \<noteq> 0" "0 < cfg_ShardCount config"
    using assms by (auto simp: NewLRU_def split: if_splits)
  then have c: "0 < cap" by (simp add: cap_def unat_gt_0)
  have n: "0 < n" "n \<le> cap" using ok c by (auto simp: n_def)
  have "n < 2 ^ 32" using n(2) unsigned_less [of "cfg_Capacity config", where ?'a = nat] by (simp add: cap_def)
  then have un: "unat (of_nat n :: u32) = n" by (simp add: unat_of_nat)
  let ?q = "cfg_Capacity config div of_nat n"
  have q: "unat ?q = cap div n" by (simp add: unat_div un cap_def)
  then have q0: "0 < unat ?q" using n by (simp add: div_greater_zero_iff)
  have l: "lru_shards l = replicate n (new_shard ?q (cfg_TTL config))"
  proof -
    have e: "(if cfg_ShardCount config > int cap then int cap else cfg_ShardCount config) = int n"
      using ok by (simp add: n_def)
    have "NewLRU config = Inr \<lparr>lru_shards = replicate n (new_shard ?q (cfg_TTL config))\<rparr>"
      unfolding NewLRU_def Let_def cap_def [symmetric] e using ok by simp
    then show ?thesis using assms by simp
  qed
  have "n * (cap div n) \<le> cap" "cap < n * (cap div n) + n"
    using dividend_less_times_div [OF n(1), of cap] by (simp_all add: add.commute)
  then show ?thesis
    unfolding cap_def [symmetric] using n q q0 new_shard_rep [of ?q "cfg_TTL config"]
    by (auto simp: l sum_list_replicate new_shard_def word_less_nat_alt)
qed

theorem NewLRU_capacity_witness:
  "\<exists>l. NewLRU \<lparr>cfg_Capacity = 10, cfg_TTL = 100, cfg_ShardCount = 3\<rparr> = Inr l \<and> length (lru_shards l) \<le> 10"
proof -
  obtain l where l: "NewLRU \<lparr>cfg_Capacity = 10, cfg_TTL = 100, cfg_ShardCount = 3\<rparr> = Inr l"
    by (simp add: NewLRU_def)
  from NewLRU_capacity [OF l] l show ?thesis by simp
qed

end
