(* ===== verification/Writer.thy ===== *)
theory Writer
  imports Clock Sharded_Map Wal
begin

text \<open>
  The storage writer of \<open>src/core/writer/storagewriter.go\<close>, which composes the clock, the map
  and the log: a replicated set or delete moves the clock, is merged into the map under the
  conflict rule, and, if it won, is appended to the log. A result is \<open>None\<close> while the clock's
  \<open>Update\<close> is still spinning on the readings given.

  The lemmas show what a request does on every branch, and that the log and the map stay in
  step: replaying the log gives back, for every key, what the map holds.
\<close>

record 't storage =
  sw_hm :: "'t sharded_map"
  sw_wal :: waler
  sw_clock :: clock

definition NewStorageWriter :: "'t sharded_map \<Rightarrow> waler \<Rightarrow> clock \<Rightarrow> 't storage" where
  "NewStorageWriter hm w c = \<lparr>sw_hm = hm, sw_wal = w, sw_clock = c\<rparr>"

definition cloneBytes :: "goslice \<Rightarrow> goslice" where
  "cloneBytes b = (case b of None \<Rightarrow> None | Some xs \<Rightarrow> Some (take (length xs) xs))"

definition set_to_value :: "set_request \<Rightarrow> kv_value" where
  "set_to_value req = \<lparr>NodeID = set_node req, Data = cloneBytes (set_value req),
     Timestamp = set_timestamp req, Tombstone = False, ItemHash = 0\<rparr>"

definition delete_to_value :: "delete_request \<Rightarrow> kv_value" where
  "delete_to_value req = \<lparr>NodeID = del_node req, Data = None,
     Timestamp = del_timestamp req, Tombstone = True, ItemHash = 0\<rparr>"

definition ApplySet ::
  "'t env \<Rightarrow> codec \<Rightarrow> i64 list \<Rightarrow> set_request \<Rightarrow> 't storage \<Rightarrow> (wal_error option \<times> 't storage) option" where
  "ApplySet E C ts req sw =
     (case Update (set_timestamp req) ts (sw_clock sw) of
        None \<Rightarrow> None
      | Some c \<Rightarrow>
          (let hash = HashFunc E (set_key req);
               (won, hm') = StoreLWW E (set_key req) hash (set_to_value req) (sw_hm sw);
               sw1 = sw\<lparr>sw_clock := c, sw_hm := hm'\<rparr> in
           if \<not> won then Some (None, sw1)
           else let (e, w') = w_Publish C hash (MsgSet req) (sw_wal sw1)
                in Some (e, sw1\<lparr>sw_wal := w'\<rparr>)))"

definition Exists :: "'t env \<Rightarrow> string \<Rightarrow> 't storage \<Rightarrow> bool" where
  "Exists E key sw =
     (case Load E key (HashFunc E key) (sw_hm sw) of None \<Rightarrow> False | Some v \<Rightarrow> \<not> Tombstone v)"

definition ApplyDelete ::
  "'t env \<Rightarrow> codec \<Rightarrow> i64 list \<Rightarrow> delete_request \<Rightarrow> 't storage \<Rightarrow> (wal_error option \<times> 't storage) option" where
  "ApplyDelete E C ts req sw =
     (case Update (del_timestamp req) ts (sw_clock sw) of
        None \<Rightarrow> None
      | Some c \<Rightarrow>
          (let hash = HashFunc E (del_key req);
               (won, hm') = StoreLWW E (del_key req) hash (delete_to_value req) (sw_hm sw);
               sw1 = sw\<lparr>sw_clock := c, sw_hm := hm'\<rparr> in
           if \<not> won then Some (None, sw1)
           else let (e, w') = w_Publish C hash (MsgDelete req) (sw_wal sw1)
                in Some (e, sw1\<lparr>sw_wal := w'\<rparr>)))"

section \<open>Requests of either kind\<close>

fun Apply :: "'t env \<Rightarrow> codec \<Rightarrow> i64 list \<Rightarrow> wal_msg \<Rightarrow> 't storage \<Rightarrow> (wal_error option \<times> 't storage) option" where
  "Apply E C ts (MsgSet r) sw = ApplySet E C ts r sw"
| "Apply E C ts (MsgDelete r) sw = ApplyDelete E C ts r sw"
| "Apply E C ts m sw = None"

fun req_value :: "wal_msg \<Rightarrow> kv_value" where
  "req_value (MsgSet r) = set_to_value r"
| "req_value (MsgDelete r) = delete_to_value r"
| "req_value m = \<lparr>NodeID = '''', Data = None, Timestamp = 0, Tombstone = False, ItemHash = 0\<rparr>"

lemma cloneBytes_id [simp]: "cloneBytes b = b"
  by (simp add: cloneBytes_def split: option.split)

lemma req_value_fields [simp]:
  "Timestamp (req_value m) = msg_timestamp m"
  "is_req m \<Longrightarrow> Tombstone (req_value m) = Tombstone (msg_value m)"
  "is_req m \<Longrightarrow> slice_bytes (Data (req_value m)) = slice_bytes (Data (msg_value m))"
  by (cases m; simp add: set_to_value_def delete_to_value_def set_entry_value_def delete_entry_value_def)+

lemma Apply_eq:
  "is_req m \<Longrightarrow> Apply E C ts m sw =
     (case Update (msg_timestamp m) ts (sw_clock sw) of
        None \<Rightarrow> None
      | Some c \<Rightarrow>
          (let (won, hm') = StoreLWW E (msg_key m) (HashFunc E (msg_key m)) (req_value m) (sw_hm sw);
               sw1 = sw\<lparr>sw_clock := c, sw_hm := hm'\<rparr> in
           if \<not> won then Some (None, sw1)
           else let (e, w') = w_Publish C (HashFunc E (msg_key m)) m (sw_wal sw1)
                in Some (e, sw1\<lparr>sw_wal := w'\<rparr>)))"
  by (induction m) (auto simp: ApplySet_def ApplyDelete_def Let_def split: option.split prod.split)

definition req_wins :: "'t env \<Rightarrow> wal_msg \<Rightarrow> 't storage \<Rightarrow> bool" where
  "req_wins E m sw \<longleftrightarrow> (case contents E (sw_hm sw) (msg_key m) of None \<Rightarrow> True
     | Some e \<Rightarrow> lwwWins e (version E (msg_key m) (req_value m)))"

lemma Apply_cases:
  assumes "replica_inv E (sw_hm sw)" and "is_req m" and "Apply E C ts m sw = Some (e, sw')"
  obtains (stale) c where "\<not> req_wins E m sw" "Update (msg_timestamp m) ts (sw_clock sw) = Some c"
      "e = None" "sw' = sw\<lparr>sw_clock := c\<rparr>"
  | (won) c w' where "req_wins E m sw" "Update (msg_timestamp m) ts (sw_clock sw) = Some c"
      "w_Publish C (HashFunc E (msg_key m)) m (sw_wal sw) = (e, w')"
      "sw' = sw\<lparr>sw_clock := c, sw_wal := w',
               sw_hm := Store E (msg_key m) (HashFunc E (msg_key m)) (req_value m) (sw_hm sw)\<rparr>"
proof -
  note L = StoreLWW_contents [OF replicaD(1) [OF assms(1)], of "msg_key m" "req_value m", folded req_wins_def]
  obtain c where c: "Update (msg_timestamp m) ts (sw_clock sw) = Some c"
    using assms(3) by (cases "Update (msg_timestamp m) ts (sw_clock sw)") (simp_all add: Apply_eq [OF assms(2)])
  show ?thesis
  proof (cases "req_wins E m sw")
    case True
    obtain x w' where p: "w_Publish C (HashFunc E (msg_key m)) m (sw_wal sw) = (x, w')"
      by (cases "w_Publish C (HashFunc E (msg_key m)) m (sw_wal sw)") auto
    show ?thesis
      using assms(3) True c p by (intro won [of c w']) (auto simp: Apply_eq [OF assms(2)] L)
  next
    case False
    then show ?thesis using assms(3) c by (intro stale [of c]) (auto simp: Apply_eq [OF assms(2)] L)
  qed
qed

section \<open>The log and the map in step\<close>

definition key_log :: "wal_msg list \<Rightarrow> string \<Rightarrow> wal_msg list" where
  "key_log ms k = filter (\<lambda>m. msg_key m = k) ms"

text \<open>The requests accepted so far are \<open>old\<close>, which the log has given up, and \<open>ms\<close>, which it holds. The
  map has the last accepted request of every key, and the timestamps of a key's accepted requests
  never go back.\<close>

definition log_since :: "'t env \<Rightarrow> codec \<Rightarrow> 't storage \<Rightarrow> wal_msg list \<Rightarrow> wal_msg list \<Rightarrow> bool" where
  "log_since E C sw old ms \<longleftrightarrow> replica_inv E (sw_hm sw) \<and> list_all is_req (old @ ms) \<and>
     (\<exists>w. sw_wal sw = RealWal w \<and> wal_holds C E w ms) \<and>
     (\<forall>k. contents E (sw_hm sw) k = (if key_log (old @ ms) k = [] then None
        else Some (version E k (req_value (last (key_log (old @ ms) k)))))) \<and>
     (\<forall>k. sorted_wrt (\<lambda>a b. sint (msg_timestamp a) \<le> sint (msg_timestamp b)) (key_log (old @ ms) k))"

abbreviation logged :: "'t env \<Rightarrow> codec \<Rightarrow> 't storage \<Rightarrow> wal_msg list \<Rightarrow> bool" where
  "logged E C sw ms \<equiv> log_since E C sw [] ms"

lemma key_log_snoc: "key_log (ms @ [m]) k = (if msg_key m = k then key_log ms k @ [m] else key_log ms k)"
  by (simp add: key_log_def)

lemma sorted_snoc_last:
  assumes "sorted_wrt (\<lambda>a b. f a \<le> (f b :: int)) xs" and "xs \<noteq> [] \<Longrightarrow> f (last xs) \<le> f x"
  shows "sorted_wrt (\<lambda>a b. f a \<le> f b) (xs @ [x])"
  using assms by (cases xs rule: rev_cases) (auto simp: sorted_wrt_append intro: order_trans)

lemma lwwWins_timestamp: "lwwWins a b \<Longrightarrow> sint (Timestamp a) \<le> sint (Timestamp b)"
  by (auto simp: lwwWins_def split: if_splits)

lemma version_Timestamp [simp]: "Timestamp (version E k v) = Timestamp v"
  by (simp add: version_def stamped_def)

lemma Apply_log_since:
  assumes "log_since E C sw old ms" and "is_req m" and "record_of C m p" and "Apply E C ts m sw = Some (e, sw')"
  shows "e = None \<and> log_since E C sw' old (if req_wins E m sw then ms @ [m] else ms)"
proof -
  let ?ms = "old @ ms"
  obtain w where w: "sw_wal sw = RealWal w" "wal_holds C E w ms" and inv: "replica_inv E (sw_hm sw)"
    using assms(1) by (auto simp: log_since_def)
  from inv assms(2,4) show ?thesis
  proof (cases rule: Apply_cases)
    case (stale c)
    then show ?thesis using assms(1) by (simp add: log_since_def)
  next
    case (won c w')
    obtain w1 where w1: "Publish C (HashFunc E (msg_key m)) m w = (None, m, w1)" "wal_holds C E w1 (ms @ [m])"
      using Publish_holds [OF w(2) assms(3)] by blast
    have p: "e = None" "w' = RealWal w1" using won(3) w(1) w1(1) by simp_all
    have c: "contents E (sw_hm sw') = (contents E (sw_hm sw))(msg_key m \<mapsto> version E (msg_key m) (req_value m))"
      using won(4) contents_Store [OF replicaD(1) [OF inv]] by simp
    have "sint (msg_timestamp (last (key_log ?ms (msg_key m)))) \<le> sint (msg_timestamp m)"
      if "key_log ?ms (msg_key m) \<noteq> []"
      using won(1) assms(1) that lwwWins_timestamp by (fastforce simp: req_wins_def log_since_def)
    then have "sorted_wrt (\<lambda>a b. sint (msg_timestamp a) \<le> sint (msg_timestamp b)) (key_log (?ms @ [m]) k)" for k
      using assms(1) sorted_snoc_last [of "\<lambda>m. sint (msg_timestamp m)"]
      unfolding key_log_snoc log_since_def by (auto simp del: append_assoc)
    moreover have "contents E (sw_hm sw') k = (if key_log (?ms @ [m]) k = [] then None
        else Some (version E k (req_value (last (key_log (?ms @ [m]) k)))))" for k
      using assms(1) unfolding c key_log_snoc log_since_def by auto
    moreover have "replica_inv E (sw_hm sw')" using Store_replica [OF inv] won(4) by simp
    ultimately show ?thesis using won(1,4) p w1(2) assms(1,2) by (auto simp: log_since_def)
  qed
qed

lemma msg_value_Timestamp [simp]: "Timestamp (msg_value m) = msg_timestamp m"
  by (cases m) (auto simp: set_entry_value_def delete_entry_value_def)

lemma newest_fold:
  assumes "xs \<noteq> []" and "sorted_wrt (\<lambda>a b. sint (msg_timestamp a) \<le> sint (msg_timestamp b)) xs" and "list_all is_req xs"
  shows "\<exists>m \<in> set xs. msg_timestamp m = msg_timestamp (last xs) \<and> foldl newest None xs = Some (msg_value m)"
  using assms
proof (induction xs rule: rev_induct)
  case (snoc m xs)
  show ?case
  proof (cases "xs = []")
    case True
    then show ?thesis by (simp add: newest_def newer_def)
  next
    case False
    then obtain a where a: "a \<in> set xs" "msg_timestamp a = msg_timestamp (last xs)" "foldl newest None xs = Some (msg_value a)"
      using snoc by (auto simp: sorted_wrt_append)
    have "sint (msg_timestamp (last xs)) \<le> sint (msg_timestamp m)"
      using snoc.prems(2) False by (simp add: sorted_wrt_append)
    then have "sint (msg_timestamp m) > sint (msg_timestamp a) \<or> msg_timestamp m = msg_timestamp a"
      using a(2) sint_inj by (metis antisym_conv2)
    moreover have "foldl newest None (xs @ [m]) = newest (Some (msg_value a)) m" using a(3) by simp
    ultimately show ?thesis using a(1,2) by (auto simp: newest_def [of "Some _"] newer_def)
  qed
qed simp

text \<open>What a client can tell of two values.\<close>

definition same_visible :: "kv_value option \<Rightarrow> kv_value option \<Rightarrow> bool" where
  "same_visible a b \<longleftrightarrow> (case (a, b) of
     (None, None) \<Rightarrow> True
   | (Some v, Some v') \<Rightarrow> Timestamp v = Timestamp v' \<and> Tombstone v = Tombstone v' \<and>
       slice_bytes (Data v) = slice_bytes (Data v')
   | _ \<Rightarrow> False)"

definition stamps_unique :: "wal_msg list \<Rightarrow> bool" where
  "stamps_unique ms \<longleftrightarrow> (\<forall>m \<in> set ms. \<forall>m' \<in> set ms. msg_key m = msg_key m' \<longrightarrow> msg_timestamp m = msg_timestamp m' \<longrightarrow> m = m')"

lemma logged_replay:
  assumes "logged E C sw ms"
  shows "map_option Timestamp (replayed Map.empty ms k) = map_option Timestamp (contents E (sw_hm sw) k)"
    and "stamps_unique ms \<Longrightarrow> same_visible (replayed Map.empty ms k) (contents E (sw_hm sw) k)"
proof -
  let ?xs = "key_log ms k"
  have r: "replayed Map.empty ms k = foldl newest None ?xs" by (simp add: replayed_def key_log_def)
  have q: "list_all is_req ?xs" and st: "sorted_wrt (\<lambda>a b. sint (msg_timestamp a) \<le> sint (msg_timestamp b)) ?xs"
    and c: "contents E (sw_hm sw) k = (if ?xs = [] then None else Some (version E k (req_value (last ?xs))))"
    using assms by (auto simp: log_since_def key_log_def list_all_iff)
  show "map_option Timestamp (replayed Map.empty ms k) = map_option Timestamp (contents E (sw_hm sw) k)"
    using newest_fold [OF _ st q] by (cases "?xs = []") (auto simp: r c)
  show "same_visible (replayed Map.empty ms k) (contents E (sw_hm sw) k)" if u: "stamps_unique ms"
  proof (cases "?xs = []")
    case False
    obtain m where m: "m \<in> set ?xs" "msg_timestamp m = msg_timestamp (last ?xs)" "foldl newest None ?xs = Some (msg_value m)"
      using newest_fold [OF False st q] by blast
    have "last ?xs \<in> set ?xs" using False by simp
    then have "m = last ?xs" using u m(1,2) by (auto simp: stamps_unique_def key_log_def)
    moreover have "is_req (last ?xs)" using q False by (simp add: list_all_iff)
    ultimately show ?thesis using m(3) False
      by (simp add: r c same_visible_def version_def stamped_def)
  qed (simp add: r c same_visible_def)
qed

section \<open>Runs\<close>

fun apply_all :: "'t env \<Rightarrow> codec \<Rightarrow> (i64 list \<times> wal_msg) list \<Rightarrow> 't storage \<Rightarrow> (wal_error option list \<times> 't storage) option" where
  "apply_all E C [] sw = Some ([], sw)"
| "apply_all E C ((ts, m) # rs) sw =
     (case Apply E C ts m sw of None \<Rightarrow> None
      | Some (e, sw') \<Rightarrow> map_option (\<lambda>(es, sw''). (e # es, sw'')) (apply_all E C rs sw'))"

text \<open>The requests of a run that were accepted.\<close>

fun won_all :: "'t env \<Rightarrow> codec \<Rightarrow> (i64 list \<times> wal_msg) list \<Rightarrow> 't storage \<Rightarrow> wal_msg list" where
  "won_all E C [] sw = []"
| "won_all E C ((ts, m) # rs) sw =
     (case Apply E C ts m sw of None \<Rightarrow> []
      | Some (e, sw') \<Rightarrow> (if req_wins E m sw then [m] else []) @ won_all E C rs sw')"

lemma won_all_set: "set (won_all E C rs sw) \<subseteq> snd ` set rs"
  by (induction rs arbitrary: sw) (fastforce split: option.splits if_splits)+

lemma won_all_append:
  "apply_all E C rs sw = Some (es, sw') \<Longrightarrow> won_all E C (rs @ rs') sw = won_all E C rs sw @ won_all E C rs' sw'"
  by (induction rs arbitrary: sw es) (auto split: option.splits)

lemma apply_all_append:
  "apply_all E C (rs @ rs') sw = Some (es, sw'') \<Longrightarrow>
     \<exists>es1 sw' es2. apply_all E C rs sw = Some (es1, sw') \<and> apply_all E C rs' sw' = Some (es2, sw'')"
  by (induction rs arbitrary: sw es) (auto split: option.splits, blast+)

abbreviation recordable :: "codec \<Rightarrow> (i64 list \<times> wal_msg) list \<Rightarrow> bool" where
  "recordable C rs \<equiv> list_all (\<lambda>(ts, m). is_req m \<and> (\<exists>p. record_of C m p)) rs"

lemma apply_all_log_since:
  "log_since E C sw old ms \<Longrightarrow> recordable C rs \<Longrightarrow> apply_all E C rs sw = Some (es, sw') \<Longrightarrow>
     (\<forall>e \<in> set es. e = None) \<and> log_since E C sw' old (ms @ won_all E C rs sw)"
proof (induction rs arbitrary: sw ms es)
  case Nil
  then show ?case by simp
next
  case (Cons r rs)
  obtain ts m where r: "r = (ts, m)" by (cases r) auto
  obtain e sw1 es' where a: "Apply E C ts m sw = Some (e, sw1)" "apply_all E C rs sw1 = Some (es', sw')" "es = e # es'"
    using Cons.prems(3) by (auto simp: r split: option.splits)
  obtain p where p: "is_req m" "record_of C m p" using Cons.prems(2) by (auto simp: r)
  let ?ms = "if req_wins E m sw then ms @ [m] else ms"
  have l: "e = None" "log_since E C sw1 old ?ms" using Apply_log_since [OF Cons.prems(1) p a(1)] by simp_all
  have "(\<forall>e \<in> set es'. e = None) \<and> log_since E C sw' old (?ms @ won_all E C rs sw1)"
    using Cons.IH [OF l(2) _ a(2)] Cons.prems(2) by auto
  then show ?case using a(1,3) l(1) by (simp add: r split: if_splits)
qed

lemma new_logged:
  assumes "radix_laws E" and "wal_holds C E w []"
  shows "logged E C (NewStorageWriter (NewShardedMap E) (RealWal w) c) []"
  using new_replica [OF assms(1)] assms by (simp add: log_since_def NewStorageWriter_def key_log_def)

section \<open>Properties\<close>

text \<open>What a replicated request does, on every branch. The clock takes the request's timestamp. If the
  request loses against the stored version, map and log are untouched and there is no error. If it
  wins, the map holds it afterwards, also when the log then reports an error. Other keys are never
  touched and the map's invariant is kept.\<close>

theorem Apply_effect:
  assumes "replica_inv E (sw_hm sw)" and "is_req m" and "Apply E C ts m sw = Some (e, sw')"
  shows "Update (msg_timestamp m) ts (sw_clock sw) = Some (sw_clock sw') \<and> replica_inv E (sw_hm sw') \<and>
    (if req_wins E m sw
     then contents E (sw_hm sw') = (contents E (sw_hm sw))(msg_key m \<mapsto> version E (msg_key m) (req_value m)) \<and>
       w_Publish C (HashFunc E (msg_key m)) m (sw_wal sw) = (e, sw_wal sw')
     else e = None \<and> sw_hm sw' = sw_hm sw \<and> sw_wal sw' = sw_wal sw)"
  using assms
proof (cases rule: Apply_cases)
  case (won c w')
  then show ?thesis
    using Store_replica [OF assms(1)] contents_Store [OF replicaD(1) [OF assms(1)]] by simp
qed (use assms(1) in simp)

definition demo_storage :: "(string \<times> nat) list storage" where
  "demo_storage = NewStorageWriter (NewShardedMap demo_env) (RealWal demo_wal) NewClock"

lemma demo_update: "\<exists>c. Update 5 [1] NewClock = Some c"
proof -
  have "Update 5 [1] NewClock \<noteq> None" by code_simp
  then show ?thesis by blast
qed

lemma demo_update_again: "Update 5 [1] NewClock = Some c \<Longrightarrow> \<exists>c'. Update 5 [1] c = Some c'"
proof -
  assume "Update 5 [1] NewClock = Some c"
  moreover have "(case Update 5 [1] NewClock of None \<Rightarrow> True | Some c \<Rightarrow> Update 5 [1] c \<noteq> None)" by code_simp
  ultimately show ?thesis by auto
qed

lemma demo_logged: "logged demo_env demo_codec demo_storage []"
  unfolding demo_storage_def by (rule new_logged [OF radix_laws_demo demo_wal_holds])

lemma Apply_total:
  "is_req m \<Longrightarrow> Update (msg_timestamp m) ts (sw_clock sw) = Some c \<Longrightarrow> \<exists>e sw'. Apply E C ts m sw = Some (e, sw')"
  by (auto simp: Apply_eq Let_def split: prod.splits)

lemma demo_apply:
  assumes "is_req m" and "msg_timestamp m = 5"
  shows "\<exists>e sw'. Apply demo_env demo_codec [1] m demo_storage = Some (e, sw')"
proof -
  obtain c where "Update 5 [1] NewClock = Some c" using demo_update by blast
  then have "Update (msg_timestamp m) [1] (sw_clock demo_storage) = Some c"
    by (simp add: assms(2) demo_storage_def NewStorageWriter_def)
  then show ?thesis by (rule Apply_total [OF assms(1)])
qed

theorem Apply_effect_witness:
  "\<exists>e sw'. Apply demo_env demo_codec [1] (demo_set ''k'' ''x'' 5) demo_storage = Some (e, sw') \<and>
    contents demo_env (sw_hm sw') ''k'' = Some (version demo_env ''k'' (req_value (demo_set ''k'' ''x'' 5)))"
proof -
  let ?m = "demo_set ''k'' ''x'' 5"
  have i: "replica_inv demo_env (sw_hm demo_storage)" "is_req ?m" "req_wins demo_env ?m demo_storage"
    using demo_logged by (auto simp: log_since_def demo_set_def req_wins_def key_log_def)
  obtain e sw' where a: "Apply demo_env demo_codec [1] ?m demo_storage = Some (e, sw')"
    using demo_apply [OF i(2)] by (auto simp: demo_set_def)
  from Apply_effect [OF i(1,2) a] a i(3) show ?thesis by (simp add: demo_set_def)
qed



text \<open>Where log and map part: a tie in the timestamp. If a second request for a key carries the same
  timestamp and a greater node name, the map takes the second and the log records both, but replay,
  which compares timestamps alone, brings back the first. The value served before a restart is
  not the value served after it.\<close>

theorem replay_reverts_tie:
  assumes "codec_laws C" and "logged E C sw0 []"
    and "record_of C (MsgSet r1) p1" and "record_of C (MsgSet r2) p2"
    and "set_key r1 = set_key r2" and "set_timestamp r1 = set_timestamp r2" and "set_node r1 < set_node r2"
    and "Apply E C ts1 (MsgSet r1) sw0 = Some (e1, sw1)" and "Apply E C ts2 (MsgSet r2) sw1 = Some (e2, sw2)"
  shows "\<exists>w results w'. Load E (set_key r2) (HashFunc E (set_key r2)) (sw_hm sw2) = Some (set_to_value r2) \<and>
    sw_wal sw2 = RealWal w \<and> Replay C w = (None, results, w') \<and> results (set_key r2) = Some (set_entry_value r1)"
proof -
  have "req_wins E (MsgSet r1) sw0" using assms(2) by (simp add: req_wins_def log_since_def key_log_def)
  then have l1: "logged E C sw1 [MsgSet r1]" using Apply_log_since [OF assms(2) _ assms(3,8)] by simp
  have "req_wins E (MsgSet r2) sw1"
    using l1 assms(5-7)
    by (auto simp: req_wins_def log_since_def key_log_def lwwWins_def version_def stamped_def set_to_value_def)
  then have l2: "logged E C sw2 [MsgSet r1, MsgSet r2]" using Apply_log_since [OF l1 _ assms(4,9)] by simp
  then obtain w where w: "sw_wal sw2 = RealWal w" "wal_holds C E w [MsgSet r1, MsgSet r2]" and inv: "sm_inv E (sw_hm sw2)"
    and c: "contents E (sw_hm sw2) (set_key r2) = Some (version E (set_key r2) (set_to_value r2))"
    using replicaD(1) assms(5) by (fastforce simp: log_since_def key_log_def)
  obtain w' where "Replay C w = (None, replayed Map.empty [MsgSet r1, MsgSet r2], w')"
    using Replay_holds [OF assms(1) w(2)] by blast
  moreover have "replayed Map.empty [MsgSet r1, MsgSet r2] (set_key r2) = Some (set_entry_value r1)"
    using assms(5,6) by (simp add: replayed_def newest_def newer_def set_entry_value_def)
  moreover have "Load E (set_key r2) (HashFunc E (set_key r2)) (sw_hm sw2) = Some (set_to_value r2)"
    using c Load_lookup [OF inv, of "set_key r2" "HashFunc E (set_key r2)"]
    by (simp add: contents_def version_def stamped_def set_to_value_def)
  ultimately show ?thesis using w(1) by blast
qed

theorem replay_reverts_tie_witness:
  "\<exists>(sw2 :: (string \<times> nat) list storage) w results w'. sw_wal sw2 = RealWal w \<and> Replay demo_codec w = (None, results, w') \<and>
    LoadData demo_env ''k'' (HashFunc demo_env ''k'') (sw_hm sw2) = Some (Some ''y'') \<and>
    map_option Data (results ''k'') = Some (Some ''x'')"
proof -
  let ?r1 = "\<lparr>set_key = ''k'', set_value = Some ''x'', set_timestamp = 5, set_node = ''a''\<rparr>"
  let ?r2 = "\<lparr>set_key = ''k'', set_value = Some ''y'', set_timestamp = 5, set_node = ''b''\<rparr>"
  obtain p1 p2 where p: "record_of demo_codec (MsgSet ?r1) p1" "record_of demo_codec (MsgSet ?r2) p2"
    by (auto simp: record_of_def demo_codec_def small_def demo_ts_def)
  obtain c where c: "Update 5 [1] NewClock = Some c" using demo_update by blast
  have c0: "sw_clock demo_storage = NewClock" by (simp add: demo_storage_def NewStorageWriter_def)
  have u1: "Update (msg_timestamp (MsgSet ?r1)) [1] (sw_clock demo_storage) = Some c" by (simp only: c0) (simp add: c)
  obtain e1 sw1 where a1: "Apply demo_env demo_codec [1] (MsgSet ?r1) demo_storage = Some (e1, sw1)"
    using Apply_total [OF _ u1, of demo_env demo_codec] by auto
  have i: "replica_inv demo_env (sw_hm demo_storage)" using demo_logged by (simp add: log_since_def)
  have "sw_clock sw1 = c" using i _ a1 by (cases rule: Apply_cases) (use u1 in auto)
  then obtain c' where "Update (msg_timestamp (MsgSet ?r2)) [1] (sw_clock sw1) = Some c'"
    using demo_update_again [OF c] by auto
  then obtain e2 sw2 where a2: "Apply demo_env demo_codec [1] (MsgSet ?r2) sw1 = Some (e2, sw2)"
    using Apply_total [of "MsgSet ?r2" "[1]" sw1 c' demo_env demo_codec] by auto
  from replay_reverts_tie [OF codec_laws_demo demo_logged p _ _ _ a1 a2] obtain w results w'
    where "Load demo_env ''k'' (HashFunc demo_env ''k'') (sw_hm sw2) = Some (set_to_value ?r2)"
      "sw_wal sw2 = RealWal w" "Replay demo_codec w = (None, results, w')" "results ''k'' = Some (set_entry_value ?r1)"
    by auto
  then have "sw_wal sw2 = RealWal w \<and> Replay demo_codec w = (None, results, w') \<and>
      LoadData demo_env ''k'' (HashFunc demo_env ''k'') (sw_hm sw2) = Some (Some ''y'') \<and>
      map_option Data (results ''k'') = Some (Some ''x'')"
    by (simp add: LoadData_Load set_to_value_def set_entry_value_def)
  then show ?thesis by blast
qed

end
