(* ===== verification/Snap.thy ===== *)
theory Snap
  imports Wal
begin

text \<open>
  The snapshotter of \<open>src/core/snap/snapshot.go\<close>: the entries of a snapshot, how a file of them
  is written and put in place, and the two goroutines that decide when. The standard library's
  gob encoding is modelled by what it keeps of a struct: a field that holds its zero value is not
  transmitted, and decoding leaves the receiver's field alone when it is absent. The outcomes of
  the file operations are inputs.

  The lemmas show what decoding gives back, that a snapshot replaces its predecessor whole or not
  at all and the log is cleared only afterwards, and what the two goroutines can do.
\<close>

section \<open>Entries\<close>

record snapshot_entry =
  se_Key :: string
  se_Data :: goslice
  se_Timestamp :: i64
  se_NodeID :: string
  se_Tombstone :: bool

record gob_entry =
  g_Key :: "string option"
  g_Data :: "bytes option"
  g_Timestamp :: "i64 option"
  g_NodeID :: "string option"
  g_Tombstone :: "bool option"

definition sent :: "'a \<Rightarrow> 'a \<Rightarrow> 'a option" where
  "sent zero x = (if x = zero then None else Some x)"

definition received :: "'a \<Rightarrow> 'a option \<Rightarrow> 'a" where
  "received old x = (case x of None \<Rightarrow> old | Some y \<Rightarrow> y)"

definition gob_encode :: "snapshot_entry \<Rightarrow> gob_entry" where
  "gob_encode e =
     \<lparr>g_Key = sent '''' (se_Key e), g_Data = sent [] (slice_bytes (se_Data e)),
      g_Timestamp = sent 0 (se_Timestamp e), g_NodeID = sent '''' (se_NodeID e),
      g_Tombstone = sent False (se_Tombstone e)\<rparr>"

definition gob_decode :: "gob_entry \<Rightarrow> snapshot_entry \<Rightarrow> snapshot_entry" where
  "gob_decode g e =
     \<lparr>se_Key = received (se_Key e) (g_Key g),
      se_Data = received (se_Data e) (map_option Some (g_Data g)),
      se_Timestamp = received (se_Timestamp e) (g_Timestamp g),
      se_NodeID = received (se_NodeID e) (g_NodeID g),
      se_Tombstone = received (se_Tombstone e) (g_Tombstone g)\<rparr>"

text \<open>A snapshot file: the values on it, and whether a part of a further value follows them.\<close>

record snap_file =
  sf_vals :: "gob_entry list"
  sf_torn :: bool

definition snap_size_positive :: "snap_file \<Rightarrow> bool" where
  "snap_size_positive f \<longleftrightarrow> sf_vals f \<noteq> [] \<or> sf_torn f"

section \<open>Writing a snapshot\<close>

text \<open>\<open>enc.Encode\<close> on a file. \<open>left\<close> counts the calls that still succeed; \<open>None\<close> is no failure.\<close>

record encoder =
  enc_file :: snap_file
  enc_left :: "nat option"

definition Encode :: "snapshot_entry \<Rightarrow> encoder \<Rightarrow> bool \<times> encoder" where
  "Encode e enc =
     (case enc_left enc of
        Some 0 \<Rightarrow> (False, enc\<lparr>enc_file := (enc_file enc)\<lparr>sf_torn := True\<rparr>\<rparr>)
      | left \<Rightarrow> (True, enc\<lparr>enc_file := (enc_file enc)\<lparr>sf_vals := sf_vals (enc_file enc) @ [gob_encode e]\<rparr>,
                           enc_left := map_option (\<lambda>n. n - 1) left\<rparr>))"

record snap_disk =
  at_path :: "snap_file option"
  at_tmp :: "snap_file option"

text \<open>The outcomes of \<open>os.Create\<close>, \<open>Encode\<close>, \<open>Sync\<close>, \<open>Close\<close>, \<open>os.Rename\<close> and \<open>os.Remove\<close>.\<close>

record snap_io =
  io_create :: bool
  io_encode :: "nat option"
  io_sync :: bool
  io_close :: bool
  io_rename :: bool
  io_remove :: bool

definition cleanup :: "snap_io \<Rightarrow> snap_disk \<Rightarrow> snap_disk" where
  "cleanup io d = (if io_remove io then d\<lparr>at_tmp := None\<rparr> else d)"

definition empty_file :: snap_file where
  "empty_file = \<lparr>sf_vals = [], sf_torn = False\<rparr>"

text \<open>The part of \<open>Create\<close> between \<open>PrepareSnapshot\<close> and \<open>Clear\<close>; \<open>encCallBack\<close> says whether it
  succeeded.\<close>

definition write_snapshot ::
  "snap_io \<Rightarrow> (encoder \<Rightarrow> bool \<times> encoder) \<Rightarrow> snap_disk \<Rightarrow> wal_error option \<times> snap_disk" where
  "write_snapshot io encCallBack d =
     (if \<not> io_create io then (Some ErrIO, d)
      else
        (let (ok, enc) = encCallBack \<lparr>enc_file = empty_file, enc_left = io_encode io\<rparr>;
             d1 = d\<lparr>at_tmp := Some (enc_file enc)\<rparr> in
         if \<not> ok then (Some ErrIO, cleanup io d1)
         else if \<not> io_sync io then (Some ErrIO, cleanup io d1)
         else if \<not> io_close io then (Some ErrIO, cleanup io d1)
         else if \<not> io_rename io then (Some ErrIO, cleanup io d1)
         else (None, d1\<lparr>at_path := at_tmp d1, at_tmp := None\<rparr>)))"

definition Create ::
  "snap_io \<Rightarrow> (encoder \<Rightarrow> bool \<times> encoder) \<Rightarrow> waler \<Rightarrow> snap_disk \<Rightarrow> wal_error option \<times> waler \<times> snap_disk" where
  "Create io encCallBack w d =
     (case w_PrepareSnapshot w of
        (Inl e, w1) \<Rightarrow> (Some e, w1, d)
      | (Inr offsets, w1) \<Rightarrow>
          (case write_snapshot io encCallBack d of
             (Some e, d1) \<Rightarrow> (Some e, w1, d1)
           | (None, d1) \<Rightarrow> (let (e, w2) = w_Clear (map_option (map int) offsets) w1 in (e, w2, d1))))"

section \<open>The goroutines\<close>

datatype producer_pc = PWaiting | PQueue

datatype consumer_pc = CWaiting | CTaken | CCreating

text \<open>\<open>queued\<close> is the one-place channel; \<open>ticks\<close>, \<open>sends\<close> and \<open>creates\<close> count ticks served, requests
  queued and snapshots begun.\<close>

record snapshotter =
  started :: bool
  cancelled :: bool
  queued :: bool
  inProgress :: bool
  producer :: "producer_pc option"
  consumer :: "consumer_pc option"
  ticks :: nat
  sends :: nat
  creates :: nat

definition NewSnapshotter :: snapshotter where
  "NewSnapshotter = \<lparr>started = False, cancelled = False, queued = False, inProgress = False,
     producer = None, consumer = None, ticks = 0, sends = 0, creates = 0\<rparr>"

definition Start_snp :: "snapshotter \<Rightarrow> snapshotter" where
  "Start_snp s = (if started s then s
     else s\<lparr>started := True, producer := Some PWaiting, consumer := Some CWaiting\<rparr>)"

definition Stop_snp :: "snapshotter \<Rightarrow> snapshotter" where
  "Stop_snp s = s\<lparr>cancelled := True\<rparr>"

text \<open>\<open>queueSnapShot\<close> loads the flag in the step that takes the tick and sends in the next.\<close>

inductive snap_step :: "snapshotter \<Rightarrow> snapshotter \<Rightarrow> bool" where
  snap_start: "snap_step s (Start_snp s)"
| snap_stop: "snap_step s (Stop_snp s)"
| producer_tick: "producer s = Some PWaiting \<Longrightarrow> \<not> inProgress s \<Longrightarrow>
    snap_step s (s\<lparr>producer := Some PQueue, ticks := Suc (ticks s)\<rparr>)"
| producer_busy: "producer s = Some PWaiting \<Longrightarrow> inProgress s \<Longrightarrow>
    snap_step s (s\<lparr>ticks := Suc (ticks s)\<rparr>)"
| producer_send: "producer s = Some PQueue \<Longrightarrow> \<not> queued s \<Longrightarrow>
    snap_step s (s\<lparr>producer := Some PWaiting, queued := True, sends := Suc (sends s)\<rparr>)"
| producer_skip: "producer s = Some PQueue \<Longrightarrow> queued s \<Longrightarrow>
    snap_step s (s\<lparr>producer := Some PWaiting\<rparr>)"
| producer_done: "producer s = Some PWaiting \<Longrightarrow> cancelled s \<Longrightarrow> snap_step s (s\<lparr>producer := None\<rparr>)"
| consumer_take: "consumer s = Some CWaiting \<Longrightarrow> queued s \<Longrightarrow>
    snap_step s (s\<lparr>consumer := Some CTaken, queued := False\<rparr>)"
| consumer_begin: "consumer s = Some CTaken \<Longrightarrow>
    snap_step s (s\<lparr>consumer := Some CCreating, inProgress := True, creates := Suc (creates s)\<rparr>)"
| consumer_end: "consumer s = Some CCreating \<Longrightarrow>
    snap_step s (s\<lparr>consumer := Some CWaiting, inProgress := False\<rparr>)"
| consumer_done: "consumer s = Some CWaiting \<Longrightarrow> cancelled s \<Longrightarrow> snap_step s (s\<lparr>consumer := None\<rparr>)"

section \<open>Lemmas\<close>

lemma received_sent [simp]: "received zero (sent zero x) = x"
  by (simp add: received_def sent_def)

lemma gob_roundtrip:
  assumes "se_Key r = ''''" and "se_Data r = None" and "se_NodeID r = ''''"
  shows "gob_decode (gob_encode e) r =
    \<lparr>se_Key = se_Key e, se_Data = (if slice_bytes (se_Data e) = [] then None else se_Data e),
     se_Timestamp = (if se_Timestamp e = 0 then se_Timestamp r else se_Timestamp e),
     se_NodeID = se_NodeID e, se_Tombstone = (se_Tombstone e \<or> se_Tombstone r)\<rparr>"
  using assms
  by (cases "se_Data e") (auto simp: gob_decode_def gob_encode_def sent_def received_def)

inductive snap_reach :: "snapshotter \<Rightarrow> bool" where
  snap_new: "snap_reach NewSnapshotter"
| snap_next: "snap_reach s \<Longrightarrow> snap_step s s' \<Longrightarrow> snap_reach s'"

definition snap_inv :: "snapshotter \<Rightarrow> bool" where
  "snap_inv s \<longleftrightarrow> (inProgress s \<longleftrightarrow> consumer s = Some CCreating) \<and>
     sends s = creates s + of_bool (queued s) + of_bool (consumer s = Some CTaken) \<and>
     sends s + of_bool (producer s = Some PQueue) \<le> ticks s \<and>
     (\<not> started s \<longrightarrow> producer s = None \<and> consumer s = None \<and> ticks s = 0)"

lemma snap_step_inv: "snap_step s s' \<Longrightarrow> snap_inv s \<Longrightarrow> snap_inv s'"
  by (induction rule: snap_step.induct) (auto simp: snap_inv_def Start_snp_def Stop_snp_def)

lemma snap_reach_inv: "snap_reach s \<Longrightarrow> snap_inv s"
proof (induction rule: snap_reach.induct)
  case snap_new
  show ?case by (simp add: snap_inv_def NewSnapshotter_def)
qed (rule snap_step_inv)

section \<open>Properties\<close>

text \<open>C25. A snapshot is put in place whole or not at all, and the log gives up records only for a snapshot
  that is in place. Whatever fails, either the path still names what it named, the attempt reports
  an error and the log has only been flushed; or the path names the complete file the callback
  wrote, synced and closed, and nothing is left beside it.\<close>

theorem snapshot_atomic:
  assumes "Create io encCallBack w d = (e, w', d')"
  shows "at_path d' = at_path d \<and> e \<noteq> None \<and> w' = snd (w_PrepareSnapshot w) \<or>
    (\<exists>offsets w1 enc. w_PrepareSnapshot w = (Inr offsets, w1) \<and>
      encCallBack \<lparr>enc_file = empty_file, enc_left = io_encode io\<rparr> = (True, enc) \<and> io_sync io \<and> io_close io \<and>
      d' = \<lparr>at_path = Some (enc_file enc), at_tmp = None\<rparr> \<and> w_Clear (map_option (map int) offsets) w1 = (e, w'))"
proof (cases "w_PrepareSnapshot w")
  case (Pair r w1)
  then show ?thesis
    using assms by (cases r) (auto simp: Create_def write_snapshot_def cleanup_def Let_def split: prod.splits if_splits)
qed

text \<open>An encoder callback that writes one entry.\<close>

definition demo_entry :: snapshot_entry where
  "demo_entry = \<lparr>se_Key = ''k'', se_Data = Some ''v'', se_Timestamp = 7, se_NodeID = ''a'', se_Tombstone = False\<rparr>"

definition demo_disk :: snap_disk where
  "demo_disk = \<lparr>at_path = Some empty_file, at_tmp = None\<rparr>"

definition demo_io :: snap_io where
  "demo_io = \<lparr>io_create = True, io_encode = None, io_sync = True, io_close = True, io_rename = True, io_remove = True\<rparr>"

theorem snapshot_atomic_witness:
  "at_path (snd (snd (Create (demo_io\<lparr>io_encode := Some 0\<rparr>) (Encode demo_entry) NopWal demo_disk))) = Some empty_file"
proof -
  obtain e w d where c: "Create (demo_io\<lparr>io_encode := Some 0\<rparr>) (Encode demo_entry) NopWal demo_disk = (e, w, d)"
    by (metis prod_cases3)
  from snapshot_atomic [OF c] have "at_path d = Some empty_file"
    by (auto simp: demo_io_def demo_disk_def Encode_def)
  then show ?thesis by (simp add: c)
qed

text \<open>The two goroutines of the snapshotter. The flag is up exactly while a snapshot is being written, so
  never two at once; every snapshot was requested by a tick of its own; before \<open>Start\<close> nothing is
  written.\<close>

theorem snapshots_paced:
  assumes "snap_reach s"
  shows "(inProgress s \<longleftrightarrow> consumer s = Some CCreating) \<and> creates s \<le> ticks s \<and> (\<not> started s \<longrightarrow> creates s = 0)"
  using snap_reach_inv [OF assms] by (auto simp: snap_inv_def)

definition demo_tick :: snapshotter where
  "demo_tick = (Start_snp NewSnapshotter)\<lparr>producer := Some PQueue, ticks := 1\<rparr>"

lemma demo_tick_reach: "snap_reach demo_tick"
proof -
  have s: "snap_reach (Start_snp NewSnapshotter)" by (rule snap_next [OF snap_new snap_start])
  have "snap_reach ((Start_snp NewSnapshotter)\<lparr>producer := Some PQueue, ticks := Suc (ticks (Start_snp NewSnapshotter))\<rparr>)"
    by (rule snap_next [OF s producer_tick]) (simp_all add: Start_snp_def NewSnapshotter_def)
  then show ?thesis by (simp add: demo_tick_def Start_snp_def NewSnapshotter_def)
qed

theorem snapshots_paced_witness: "snap_reach demo_tick \<and> creates demo_tick \<le> ticks demo_tick"
  using snapshots_paced [OF demo_tick_reach] demo_tick_reach by simp

text \<open>A request can be waiting while a snapshot is being written: the flag is raised only after the
  request was taken from the channel, and a tick in between is queued. A second snapshot then
  follows the first at once, which the flag was added to prevent.\<close>

theorem back_to_back_possible: "\<exists>s. snap_reach s \<and> inProgress s \<and> queued s"
proof -
  let ?s1 = "demo_tick\<lparr>producer := Some PWaiting, queued := True, sends := Suc (sends demo_tick)\<rparr>"
  let ?s2 = "?s1\<lparr>consumer := Some CTaken, queued := False\<rparr>"
  let ?s3 = "?s2\<lparr>producer := Some PQueue, ticks := Suc (ticks ?s2)\<rparr>"
  let ?s4 = "?s3\<lparr>producer := Some PWaiting, queued := True, sends := Suc (sends ?s3)\<rparr>"
  let ?s5 = "?s4\<lparr>consumer := Some CCreating, inProgress := True, creates := Suc (creates ?s4)\<rparr>"
  note d = demo_tick_def Start_snp_def NewSnapshotter_def
  have "snap_reach ?s1" by (rule snap_next [OF demo_tick_reach producer_send]) (simp_all add: d)
  then have "snap_reach ?s2" by (rule snap_next) (rule consumer_take; simp add: d)
  then have "snap_reach ?s3" by (rule snap_next) (rule producer_tick; simp add: d)
  then have "snap_reach ?s4" by (rule snap_next) (rule producer_send; simp add: d)
  then have "snap_reach ?s5" by (rule snap_next) (rule consumer_begin; simp add: d)
  then show ?thesis by (intro exI [of _ ?s5]) simp
qed

end
