(* ===== verification/Engine.thy ===== *)
theory Engine
  imports Writer Evict Snap
begin

text \<open>
  The storage engine of \<open>src/core/engine.go\<close>: the map, the log, the clock, the eviction service
  and the snapshotter put together. \<open>recover\<close> loads the snapshot and then the log, \<open>Set\<close>, \<open>Get\<close>,
  \<open>Delete\<close> and \<open>Evict\<close> serve clients, and the snapshot encoder streams the map to disk. Results are
  \<open>None\<close> while the clock is spinning on the readings given; random draws, pool choices and file
  outcomes are arguments.

  The lemmas show that a client sees a plain map of keys to values, what survives a snapshot and a
  restart, and what does not.
\<close>

section \<open>The engine\<close>

record 't engine =
  eng_sw :: "'t storage"
  eng_evt :: "lru option"
  eng_snp :: snapshotter
  eng_node :: string
  disableSnapshot :: bool
  startOnce :: bool
  stopOnce :: bool

record engine_config =
  cfg_Evt :: "lru option"
  cfg_Clock :: clock
  cfg_SnpPath :: string
  cfg_WalBufferSize :: u32
  cfg_NodeID :: string
  cfg_DisableWal :: bool
  cfg_DisableSnapshot :: bool

section \<open>Snapshots\<close>

definition snap_entry :: "string \<Rightarrow> kv_value \<Rightarrow> snapshot_entry" where
  "snap_entry k v = \<lparr>se_Key = k, se_Data = Data v, se_Timestamp = Timestamp v,
     se_NodeID = NodeID v, se_Tombstone = Tombstone v\<rparr>"

definition stateTransferEncoder :: "'t env \<Rightarrow> 't sharded_map \<Rightarrow> encoder \<Rightarrow> bool \<times> encoder" where
  "stateTransferEncoder E hm enc =
     Range_map E (\<lambda>k v (_, enc). let (ok, enc') = Encode (snap_entry k v) enc in (ok, (ok, enc'))) hm (True, enc)"

text \<open>\<open>sync.Pool.Get\<close> on the pool of snapshot entries: any pooled object, or a new one.\<close>

definition new_entry :: snapshot_entry where
  "new_entry = \<lparr>se_Key = '''', se_Data = None, se_Timestamp = 0, se_NodeID = '''', se_Tombstone = False\<rparr>"

definition entry_get :: "nat \<Rightarrow> snapshot_entry list \<Rightarrow> snapshot_entry \<times> snapshot_entry list" where
  "entry_get i free = (if i < length free then (free ! i, take i free @ drop (Suc i) free) else (new_entry, free))"

definition entry_value :: "snapshot_entry \<Rightarrow> kv_value" where
  "entry_value e = \<lparr>NodeID = se_NodeID e, Data = se_Data e, Timestamp = se_Timestamp e,
     Tombstone = se_Tombstone e, ItemHash = 0\<rparr>"

definition entry_reset :: "snapshot_entry \<Rightarrow> snapshot_entry" where
  "entry_reset e = e\<lparr>se_Key := '''', se_Data := None, se_NodeID := ''''\<rparr>"

fun load_entries ::
  "'t env \<Rightarrow> (nat \<Rightarrow> nat) \<Rightarrow> snapshot_entry list \<Rightarrow> gob_entry list \<Rightarrow> bool \<Rightarrow> 't sharded_map \<Rightarrow>
   wal_error option \<times> 't sharded_map" where
  "load_entries E draw free [] torn hm = (if torn then Some ErrUnexpectedEOF else None, hm)"
| "load_entries E draw free (g # gs) torn hm =
     (let (e, free1) = entry_get (draw 0) free;
          e1 = gob_decode g e;
          hm1 = Store E (se_Key e1) (HashFunc E (se_Key e1)) (entry_value e1) hm
      in load_entries E (\<lambda>i. draw (Suc i)) (entry_reset e1 # free1) gs torn hm1)"

text \<open>The updates of the log are visited in the order in which the Go map happens to yield its keys.\<close>

definition apply_updates :: "'t env \<Rightarrow> string list \<Rightarrow> (string \<rightharpoonup> kv_value) \<Rightarrow> 't sharded_map \<Rightarrow> 't sharded_map" where
  "apply_updates E order updates hm =
     foldl (\<lambda>hm k. case updates k of None \<Rightarrow> hm | Some v \<Rightarrow> snd (StoreLWW E k (HashFunc E k) v hm)) hm order"

record recover_io =
  io_stat :: bool
  io_open :: bool
  io_draw :: "nat \<Rightarrow> nat"
  io_order :: "string list"

definition recover_snapshot ::
  "'t env \<Rightarrow> recover_io \<Rightarrow> snap_file option \<Rightarrow> 't sharded_map \<Rightarrow> wal_error option \<times> 't sharded_map" where
  "recover_snapshot E io snpFile hm =
     (case snpFile of
        None \<Rightarrow> (None, hm)
      | Some f \<Rightarrow>
          if io_stat io \<and> snap_size_positive f then
            if \<not> io_open io then (Some ErrIO, hm)
            else load_entries E (io_draw io) [] (sf_vals f) (sf_torn f) hm
          else (None, hm))"

definition recover ::
  "'t env \<Rightarrow> codec \<Rightarrow> recover_io \<Rightarrow> snap_file option \<Rightarrow> 't sharded_map \<Rightarrow> waler \<Rightarrow>
   wal_error option \<times> 't sharded_map \<times> waler" where
  "recover E C io snpFile hm w =
     (case recover_snapshot E io snpFile hm of
        (Some e, hm1) \<Rightarrow> (Some e, hm1, w)
      | (None, hm1) \<Rightarrow>
          (case w_Replay C w of
             (Some e, _, w1) \<Rightarrow> (Some e, hm1, w1)
           | (None, updates, w1) \<Rightarrow> (None, apply_updates E (io_order io) updates hm1, w1)))"

section \<open>Starting and stopping\<close>

text \<open>\<open>mkdirOk\<close> and \<open>opened\<close> are what opening the log's files gave. An error of \<open>recover\<close> is only logged.\<close>

definition NewEngine ::
  "'t env \<Rightarrow> codec \<Rightarrow> engine_config \<Rightarrow> bool \<Rightarrow> os_file option list \<Rightarrow> recover_io \<Rightarrow> snap_file option \<Rightarrow> wal_error + 't engine" where
  "NewEngine E C cfg mkdirOk opened io snpFile =
     (case (if cfg_DisableWal cfg then Inr NopWal
            else map_sum id RealWal (NewWal mkdirOk (cfg_WalBufferSize cfg) opened)) of
        Inl e \<Rightarrow> Inl e
      | Inr w \<Rightarrow>
          (let (hm, w') = (if \<not> cfg_DisableSnapshot cfg \<and> cfg_SnpPath cfg \<noteq> ''''
                           then snd (recover E C io snpFile (NewShardedMap E) w)
                           else (NewShardedMap E, w))
           in Inr \<lparr>eng_sw = NewStorageWriter hm w' (cfg_Clock cfg), eng_evt = cfg_Evt cfg, eng_snp = NewSnapshotter,
                   eng_node = cfg_NodeID cfg, disableSnapshot = cfg_DisableSnapshot cfg,
                   startOnce = False, stopOnce = False\<rparr>))"

definition Start_engine :: "'t engine \<Rightarrow> 't engine" where
  "Start_engine eng =
     (if startOnce eng then eng
      else eng\<lparr>startOnce := True,
               eng_snp := (if disableSnapshot eng then eng_snp eng else Start_snp (eng_snp eng))\<rparr>)"

definition Stop_engine :: "'t engine \<Rightarrow> 't engine" where
  "Stop_engine eng =
     (if stopOnce eng then eng
      else eng\<lparr>stopOnce := True,
               eng_snp := (if disableSnapshot eng then eng_snp eng else Stop_snp (eng_snp eng)),
               eng_sw := (eng_sw eng)\<lparr>sw_wal := (case sw_wal (eng_sw eng) of
                            RealWal w \<Rightarrow> RealWal (Stop_wal w) | NopWal \<Rightarrow> NopWal)\<rparr>\<rparr>)"

section \<open>Serving clients\<close>

definition evt_publish :: "u32 \<times> u32 \<Rightarrow> string \<Rightarrow> u64 \<Rightarrow> lru option \<Rightarrow> lru option" where
  "evt_publish r k hash evt = map_option (Publish_lru (fst r) (snd r) k hash) evt"

definition Get :: "'t env \<Rightarrow> u32 \<times> u32 \<Rightarrow> string \<Rightarrow> 't engine \<Rightarrow> goslice option \<times> 't engine" where
  "Get E r key eng =
     (let hash = HashFunc E key in
      case Load E key hash (sw_hm (eng_sw eng)) of
        None \<Rightarrow> (None, eng)
      | Some iv \<Rightarrow>
          if \<not> Tombstone iv then (Some (Data iv), eng\<lparr>eng_evt := evt_publish r key hash (eng_evt eng)\<rparr>)
          else (None, eng))"

definition Set_key ::
  "'t env \<Rightarrow> codec \<Rightarrow> i64 list \<Rightarrow> i64 list \<Rightarrow> u32 \<times> u32 \<Rightarrow> string \<Rightarrow> goslice \<Rightarrow> 't engine \<Rightarrow>
   (wal_error option \<times> 't engine) option" where
  "Set_key E C ts1 ts2 r key val eng =
     (let hash = HashFunc E key;
          eng1 = eng\<lparr>eng_evt := evt_publish r key hash (eng_evt eng)\<rparr> in
      case Now ts1 (sw_clock (eng_sw eng1)) of
        None \<Rightarrow> None
      | Some (ts, c) \<Rightarrow>
          (let sw = (eng_sw eng1)\<lparr>sw_clock := c\<rparr>;
               req = \<lparr>set_key = key, set_value = val, set_timestamp = ts, set_node = eng_node eng1\<rparr> in
           map_option (\<lambda>(e, sw'). (e, eng1\<lparr>eng_sw := sw'\<rparr>)) (ApplySet E C ts2 req sw)))"

definition Delete ::
  "'t env \<Rightarrow> codec \<Rightarrow> i64 list \<Rightarrow> i64 list \<Rightarrow> string \<Rightarrow> 't engine \<Rightarrow>
   (bool \<times> wal_error option \<times> 't engine) option" where
  "Delete E C ts1 ts2 key eng =
     (let hash = HashFunc E key in
      if (case Load E key hash (sw_hm (eng_sw eng)) of None \<Rightarrow> True | Some iv \<Rightarrow> Tombstone iv)
      then Some (False, None, eng)
      else
        (let eng1 = eng\<lparr>eng_evt := map_option (PublishDelete hash) (eng_evt eng)\<rparr> in
         case Now ts1 (sw_clock (eng_sw eng1)) of
           None \<Rightarrow> None
         | Some (ts, c) \<Rightarrow>
             (let sw = (eng_sw eng1)\<lparr>sw_clock := c\<rparr>;
                  req = \<lparr>del_key = key, del_timestamp = ts, del_node = eng_node eng1\<rparr> in
              map_option (\<lambda>(e, sw'). (True, e, eng1\<lparr>eng_sw := sw'\<rparr>)) (ApplyDelete E C ts2 req sw))))"

definition Evict_key ::
  "'t env \<Rightarrow> codec \<Rightarrow> i64 list \<Rightarrow> string \<Rightarrow> Reason \<Rightarrow> 't engine \<Rightarrow> (wal_error option \<times> 't engine) option" where
  "Evict_key E C ts1 key reason eng =
     (let hash = HashFunc E key; sw = eng_sw eng in
      case Now ts1 (sw_clock sw) of
        None \<Rightarrow> None
      | Some (ts, c) \<Rightarrow>
          (let hm' = (if reason = ReasonCapacity then Delete_key E key hash (sw_hm sw)
                      else Store E key hash \<lparr>NodeID = eng_node eng, Data = None, Timestamp = ts,
                                             Tombstone = True, ItemHash = 0\<rparr> (sw_hm sw));
               req = \<lparr>del_key = key, del_timestamp = ts, del_node = eng_node eng\<rparr>;
               (e, w') = w_Publish C hash (MsgDelete req) (sw_wal sw)
           in Some (e, eng\<lparr>eng_sw := sw\<lparr>sw_hm := hm', sw_wal := w', sw_clock := c\<rparr>\<rparr>)))"

definition Apply_remote ::
  "'t env \<Rightarrow> codec \<Rightarrow> i64 list \<Rightarrow> wal_msg \<Rightarrow> 't engine \<Rightarrow> (wal_error option \<times> 't engine) option" where
  "Apply_remote E C ts m eng = map_option (\<lambda>(e, sw'). (e, eng\<lparr>eng_sw := sw'\<rparr>)) (Apply E C ts m (eng_sw eng))"

definition Occupancy_engine :: "'t engine \<Rightarrow> u32 \<times> u32" where
  "Occupancy_engine eng = (case eng_evt eng of Some l \<Rightarrow> Occupancy l | None \<Rightarrow> (0, 0))"

section \<open>The engine as a map\<close>

text \<open>What clients do, what they see, and what a plain map would do.\<close>

datatype kv_op = OpGet string | OpSet string goslice | OpDelete string | OpEvict string Reason

datatype kv_out = OutGet "goslice option" | OutSet | OutDelete bool | OutEvict

fun spec_out :: "kv_op \<Rightarrow> (string \<rightharpoonup> goslice) \<Rightarrow> kv_out" where
  "spec_out (OpGet k) m = OutGet (m k)"
| "spec_out (OpSet k v) m = OutSet"
| "spec_out (OpDelete k) m = OutDelete (m k \<noteq> None)"
| "spec_out (OpEvict k r) m = OutEvict"

fun spec_map :: "kv_op \<Rightarrow> (string \<rightharpoonup> goslice) \<Rightarrow> (string \<rightharpoonup> goslice)" where
  "spec_map (OpGet k) m = m"
| "spec_map (OpSet k v) m = m(k \<mapsto> v)"
| "spec_map (OpDelete k) m = m(k := None)"
| "spec_map (OpEvict k r) m = m(k := None)"

fun spec_outs :: "kv_op list \<Rightarrow> (string \<rightharpoonup> goslice) \<Rightarrow> kv_out list" where
  "spec_outs [] m = []"
| "spec_outs (op # ops) m = spec_out op m # spec_outs ops (spec_map op m)"

text \<open>The contract of the \<open>Engine\<close> interface towards its clients. Any implementation that refines the
  plain map step by step does so over whole runs.\<close>

locale kv_engine =
  fixes inv :: "'s \<Rightarrow> bool" and live :: "'s \<Rightarrow> string \<rightharpoonup> goslice"
    and ok_input :: "'i \<Rightarrow> bool" and exec :: "'i \<Rightarrow> kv_op \<Rightarrow> 's \<Rightarrow> (kv_out \<times> 's) option"
  assumes exec_inv: "inv s \<Longrightarrow> ok_input i \<Longrightarrow> exec i op s = Some (out, s') \<Longrightarrow> inv s'"
    and exec_refines: "inv s \<Longrightarrow> ok_input i \<Longrightarrow> exec i op s = Some (out, s') \<Longrightarrow>
      out = spec_out op (live s) \<and> live s' = spec_map op (live s)"
begin

primrec run :: "('i \<times> kv_op) list \<Rightarrow> 's \<Rightarrow> (kv_out list \<times> 's) option" where
  "run [] s = Some ([], s)"
| "run (x # xs) s =
     (case exec (fst x) (snd x) s of None \<Rightarrow> None
      | Some (out, s') \<Rightarrow> map_option (\<lambda>(outs, s''). (out # outs, s'')) (run xs s'))"

lemma run_refines:
  "inv s \<Longrightarrow> \<forall>x \<in> set xs. ok_input (fst x) \<Longrightarrow> run xs s = Some (outs, s') \<Longrightarrow>
     inv s' \<and> outs = spec_outs (map snd xs) (live s) \<and> live s' = fold spec_map (map snd xs) (live s)"
proof (induction xs arbitrary: s outs)
  case (Cons x xs)
  obtain out s1 outs1 where e: "exec (fst x) (snd x) s = Some (out, s1)" "run xs s1 = Some (outs1, s')" "outs = out # outs1"
    using Cons.prems(3) by (auto split: option.splits)
  have "inv s1" "out = spec_out (snd x) (live s)" "live s1 = spec_map (snd x) (live s)"
    using exec_inv [OF Cons.prems(1) _ e(1)] exec_refines [OF Cons.prems(1) _ e(1)] Cons.prems(2) by auto
  then show ?case using Cons.IH [of s1 outs1] Cons.prems(2) e(2,3) by simp
qed simp

end

text \<open>What the engine takes from outside in one operation: the readings of \<open>Now\<close> and \<open>Update\<close>, and the
  draws of the eviction sampling.\<close>

record op_input =
  in_now :: "i64 list"
  in_upd :: "i64 list"
  in_rand :: "u32 \<times> u32"

fun exec_engine :: "'t env \<Rightarrow> codec \<Rightarrow> op_input \<Rightarrow> kv_op \<Rightarrow> 't engine \<Rightarrow> (kv_out \<times> 't engine) option" where
  "exec_engine E C i (OpGet k) eng = (let (v, eng') = Get E (in_rand i) k eng in Some (OutGet v, eng'))"
| "exec_engine E C i (OpSet k v) eng =
     map_option (\<lambda>(_, eng'). (OutSet, eng')) (Set_key E C (in_now i) (in_upd i) (in_rand i) k v eng)"
| "exec_engine E C i (OpDelete k) eng =
     map_option (\<lambda>(hit, _, eng'). (OutDelete hit, eng')) (Delete E C (in_now i) (in_upd i) k eng)"
| "exec_engine E C i (OpEvict k r) eng =
     map_option (\<lambda>(_, eng'). (OutEvict, eng')) (Evict_key E C (in_now i) k r eng)"

fun run_engine :: "'t env \<Rightarrow> codec \<Rightarrow> (op_input \<times> kv_op) list \<Rightarrow> 't engine \<Rightarrow> (kv_out list \<times> 't engine) option" where
  "run_engine E C [] eng = Some ([], eng)"
| "run_engine E C (x # xs) eng =
     (case exec_engine E C (fst x) (snd x) eng of None \<Rightarrow> None
      | Some (out, eng') \<Rightarrow> map_option (\<lambda>(outs, eng''). (out # outs, eng'')) (run_engine E C xs eng'))"

definition live_of :: "'t env \<Rightarrow> 't engine \<Rightarrow> string \<rightharpoonup> goslice" where
  "live_of E eng k = (case contents E (sw_hm (eng_sw eng)) k of None \<Rightarrow> None
     | Some v \<Rightarrow> if Tombstone v then None else Some (Data v))"

text \<open>The clock is ahead of everything stored, and below its ceiling.\<close>

definition sw_inv :: "'t env \<Rightarrow> 't storage \<Rightarrow> bool" where
  "sw_inv E sw \<longleftrightarrow> replica_inv E (sw_hm sw) \<and> clock_wf (sw_clock sw) \<and> \<not> saturated (sw_clock sw) \<and>
     (\<forall>k v. contents E (sw_hm sw) k = Some v \<longrightarrow> sint (Timestamp v) \<le> int (unat (state (sw_clock sw))))"

definition eng_inv :: "'t env \<Rightarrow> 't engine \<Rightarrow> bool" where
  "eng_inv E eng \<longleftrightarrow> sw_inv E (eng_sw eng)"

definition ok_readings :: "op_input \<Rightarrow> bool" where
  "ok_readings i \<longleftrightarrow> (\<forall>t \<in> set (in_now i @ in_upd i). sample_ms t < maxPhysical)"


lemma now_attempt_phys:
  assumes "now_attempt now old = Swap r" and "unat now \<le> 140737488355327"
  shows "unat r div 65536 = max (unat old div 65536) (unat now)"
proof (cases "unat now > unat old div 65536")
  case True
  then have "unat r = unat now * 65536"
    using assms unat_pack [of now 0] by (auto simp: now_attempt_unat split: if_splits)
  then show ?thesis using True by simp
next
  case False
  then have s: "unat old div 65536 < 140737488355327" "unat old mod 65536 < 65535" and
    "r = push_bit logicalBits (drop_bit logicalBits old) OR (((old AND logicalMask) + 1) AND logicalMask)"
    using assms(1) by (auto simp: now_attempt_unat split: if_splits)
  then have "unat r = unat old div 65536 * 65536 + Suc (unat old mod 65536)"
    using unat_pack [of "drop_bit logicalBits old" "(old AND logicalMask) + 1"] by (simp add: clock_unat)
  then show ?thesis using s False by (simp add: div_Suc mod_Suc)
qed

lemma Now_below_ceiling:
  assumes "Now ts c = Some (r, c')" and "clock_wf c" and "\<not> saturated c" and "\<forall>t \<in> set ts. sample_ms t < maxPhysical"
  shows "c' = c\<lparr>state := r\<rparr> \<and> unat (state c) < unat r \<and> clock_wf c' \<and> \<not> saturated c'"
proof -
  obtain t where t: "t \<in> set ts" "now_attempt (sample_ms t) (state c) = Swap r" "c' = c\<lparr>state := r\<rparr>"
    using Now_cases [OF assms(1,3)] by blast
  have n: "unat (sample_ms t) < 140737488355327" using assms(4) t(1) by (auto simp: word_less_nat_alt)
  have "unat r div 65536 < 140737488355327"
    using now_attempt_phys [OF t(2)] n assms(3) by (simp add: saturated_unat)
  then show ?thesis
    using now_attempt_Swap [OF t(2)] t(3) by (simp add: clock_wf_def saturated_unat)
qed

lemma Update_below_ceiling:
  assumes "Update r ts c = Some c'" and "clock_wf c" and "\<not> saturated c" and "unat r \<le> unat (state c)"
    and "\<forall>t \<in> set ts. sample_ms t < maxPhysical"
  shows "unat (state c) \<le> unat (state c') \<and> clock_wf c' \<and> \<not> saturated c'"
proof (cases "\<exists>t ts'. ts = t # ts' \<and> accepted r t")
  case True
  then obtain t ts' where ts: "ts = t # ts'" "accepted r t" by blast
  obtain t' v where t': "t' \<in> set ts" "upd_attempt r (sample_ms t') (state c) = Swap v" "c' = c\<lparr>state := v\<rparr>"
    using Update_cases [of r t ts' c c'] assms(1,3) ts by auto
  have n: "unat (sample_ms t') < 140737488355327" using assms(5) t'(1) by (auto simp: word_less_nat_alt)
  have r: "unat r < 9223372036854775808" using assms(2,4) by (simp add: clock_wf_def)
  note u = upd_attempt_Swap [OF t'(2) sample_ms_bound r]
  have "unat r div 65536 \<le> unat (state c) div 65536" by (rule div_le_mono [OF assms(4)])
  then show ?thesis using u n assms(3) t'(3) by (auto simp: clock_wf_def saturated_unat)
next
  case False
  then have "c' = c" using assms(1)
    by (cases ts) (simp_all add: Update_rejected Update_def [of _ "[]"] split: if_splits)
  then show ?thesis using assms(2,3) by simp
qed

lemma sw_invD:
  assumes "sw_inv E sw"
  shows "replica_inv E (sw_hm sw)" "sm_inv E (sw_hm sw)" "clock_wf (sw_clock sw)" "\<not> saturated (sw_clock sw)"
    "contents E (sw_hm sw) k = Some v \<Longrightarrow> sint (Timestamp v) \<le> int (unat (state (sw_clock sw)))"
  using assms replicaD(1) by (auto simp: sw_inv_def)

text \<open>A request with a stamp of the engine's own clock always wins.\<close>

lemma local_write:
  assumes "sw_inv E sw" and "Now ts1 (sw_clock sw) = Some (r, c)" and "is_req m" and "msg_timestamp m = r"
    and "Apply E C ts2 m (sw\<lparr>sw_clock := c\<rparr>) = Some (e, sw')"
    and "\<forall>t \<in> set ts1 \<union> set ts2. sample_ms t < maxPhysical"
  shows "sw_inv E sw' \<and> contents E (sw_hm sw') = (contents E (sw_hm sw))(msg_key m \<mapsto> version E (msg_key m) (req_value m))"
proof -
  note inv = sw_invD [OF assms(1)]
  have n: "c = (sw_clock sw)\<lparr>state := r\<rparr>" "unat (state (sw_clock sw)) < unat r" "clock_wf c" "\<not> saturated c"
    using Now_below_ceiling [OF assms(2) inv(3,4)] assms(6) by auto
  have sr: "sint r = int (unat r)" using n(1,3) by (intro sint_eq_unat) (simp add: clock_wf_def)
  have old: "sint (Timestamp v) < sint r" if "contents E (sw_hm sw) k = Some v" for k v
    using inv(5) [OF that] n(2) sr by linarith
  have wins: "req_wins E m (sw\<lparr>sw_clock := c\<rparr>)"
    using old [of "msg_key m"] assms(4)
    by (cases "contents E (sw_hm sw) (msg_key m)") (auto simp: req_wins_def lwwWins_def)
  have "replica_inv E (sw_hm (sw\<lparr>sw_clock := c\<rparr>))" using inv(1) by simp
  from this assms(3,5) show ?thesis
  proof (cases rule: Apply_cases)
    case (won c' w')
    have u: "unat r \<le> unat (state c')" "clock_wf c'" "\<not> saturated c'"
      using Update_below_ceiling [of r ts2 c c'] won(2) n assms(4,6) by auto
    have ct: "contents E (sw_hm sw') = (contents E (sw_hm sw))(msg_key m \<mapsto> version E (msg_key m) (req_value m))"
      using won(4) contents_Store [OF inv(2)] by simp
    have "replica_inv E (sw_hm sw')" using won(4) Store_replica [OF inv(1)] by simp
    moreover have "sint (Timestamp v) \<le> int (unat (state (sw_clock sw')))" if "contents E (sw_hm sw') k = Some v" for k v
    proof -
      have "sint (Timestamp v) \<le> sint r" using that old [of k v] assms(4) by (auto simp: ct split: if_splits)
      moreover have "int (unat r) \<le> int (unat (state c'))" using u(1) by (simp only: of_nat_le_iff)
      moreover have "sw_clock sw' = c'" using won(4) by simp
      ultimately show ?thesis using sr by simp
    qed
    ultimately show ?thesis using u won(4) ct by (simp add: sw_inv_def)
  qed (use wins in simp)
qed

lemma Load_live:
  assumes "sm_inv E (sw_hm (eng_sw eng))"
  shows "live_of E eng k = (case Load E k (HashFunc E k) (sw_hm (eng_sw eng)) of None \<Rightarrow> None
     | Some v \<Rightarrow> if Tombstone v then None else Some (Data v))"
  using Load_lookup [OF assms, of k "HashFunc E k"]
  by (auto simp: live_of_def contents_def split: option.splits)

lemma live_write:
  assumes "contents E (sw_hm (eng_sw eng')) = (contents E (sw_hm (eng_sw eng)))(k \<mapsto> version E k v)"
  shows "live_of E eng' = (live_of E eng)(k := if Tombstone v then None else Some (Data v))"
  by (rule ext) (simp add: live_of_def assms version_def stamped_def)

lemma Set_effect:
  assumes "eng_inv E eng" and "Set_key E C ts1 ts2 rnd k v eng = Some (e, eng')"
    and "\<forall>t \<in> set ts1 \<union> set ts2. sample_ms t < maxPhysical"
  shows "eng_inv E eng' \<and> live_of E eng' = (live_of E eng)(k \<mapsto> v)"
proof -
  let ?eng1 = "eng\<lparr>eng_evt := evt_publish rnd k (HashFunc E k) (eng_evt eng)\<rparr>"
  obtain r c where n: "Now ts1 (sw_clock (eng_sw eng)) = Some (r, c)"
    using assms(2) by (auto simp: Set_key_def Let_def split: option.splits)
  let ?req = "\<lparr>set_key = k, set_value = v, set_timestamp = r, set_node = eng_node eng\<rparr>"
  obtain sw' where a: "Apply E C ts2 (MsgSet ?req) ((eng_sw eng)\<lparr>sw_clock := c\<rparr>) = Some (e, sw')" "eng' = ?eng1\<lparr>eng_sw := sw'\<rparr>"
    using assms(2) n by (auto simp: Set_key_def Let_def)
  from local_write [OF assms(1) [unfolded eng_inv_def] n _ _ a(1) assms(3)]
  have w: "sw_inv E sw'" "contents E (sw_hm sw') = (contents E (sw_hm (eng_sw eng)))(k \<mapsto> version E k (set_to_value ?req))"
    by simp_all
  then show ?thesis
    using live_write [of E eng' eng k "set_to_value ?req"] a(2) by (simp add: eng_inv_def set_to_value_def)
qed

lemma Delete_effect:
  assumes "eng_inv E eng" and "Delete E C ts1 ts2 k eng = Some (hit, e, eng')"
    and "\<forall>t \<in> set ts1 \<union> set ts2. sample_ms t < maxPhysical"
  shows "eng_inv E eng' \<and> hit = (live_of E eng k \<noteq> None) \<and> live_of E eng' = (live_of E eng)(k := None)"
proof -
  note inv = sw_invD [OF assms(1) [unfolded eng_inv_def]]
  note L = Load_live [OF inv(2), of k]
  let ?eng1 = "eng\<lparr>eng_evt := map_option (PublishDelete (HashFunc E k)) (eng_evt eng)\<rparr>"
  show ?thesis
  proof (cases "live_of E eng k")
    case None
    then have "(case Load E k (HashFunc E k) (sw_hm (eng_sw eng)) of None \<Rightarrow> True | Some iv \<Rightarrow> Tombstone iv)"
      using L by (auto split: option.splits if_splits)
    then have "hit = False" "eng' = eng" using assms(2) by (simp_all add: Delete_def)
    then show ?thesis using assms(1) None by (simp add: fun_upd_idem)
  next
    case (Some d)
    then have f: "\<not> (case Load E k (HashFunc E k) (sw_hm (eng_sw eng)) of None \<Rightarrow> True | Some iv \<Rightarrow> Tombstone iv)"
      using L by (auto split: option.splits if_splits)
    obtain r c where n: "Now ts1 (sw_clock (eng_sw eng)) = Some (r, c)"
      using assms(2) f by (auto simp: Delete_def Let_def split: option.splits)
    let ?req = "\<lparr>del_key = k, del_timestamp = r, del_node = eng_node eng\<rparr>"
    obtain sw' where a: "Apply E C ts2 (MsgDelete ?req) ((eng_sw eng)\<lparr>sw_clock := c\<rparr>) = Some (e, sw')"
        "eng' = ?eng1\<lparr>eng_sw := sw'\<rparr>" "hit"
      using assms(2) f n by (auto simp: Delete_def Let_def)
    from local_write [OF assms(1) [unfolded eng_inv_def] n _ _ a(1) assms(3)]
    have w: "sw_inv E sw'" "contents E (sw_hm sw') = (contents E (sw_hm (eng_sw eng)))(k \<mapsto> version E k (delete_to_value ?req))"
      by simp_all
    then show ?thesis
      using live_write [of E eng' eng k "delete_to_value ?req"] a(2,3) Some by (simp add: eng_inv_def delete_to_value_def)
  qed
qed

lemma Evict_effect:
  assumes "eng_inv E eng" and "Evict_key E C ts1 k reason eng = Some (e, eng')"
    and "\<forall>t \<in> set ts1. sample_ms t < maxPhysical"
  shows "eng_inv E eng' \<and> live_of E eng' = (live_of E eng)(k := None)"
proof -
  note inv = sw_invD [OF assms(1) [unfolded eng_inv_def]]
  obtain r c where n: "Now ts1 (sw_clock (eng_sw eng)) = Some (r, c)"
    using assms(2) by (auto simp: Evict_key_def Let_def split: option.splits)
  let ?v = "\<lparr>NodeID = eng_node eng, Data = None, Timestamp = r, Tombstone = True, ItemHash = 0\<rparr>"
  let ?hm = "if reason = ReasonCapacity then Delete_key E k (HashFunc E k) (sw_hm (eng_sw eng))
    else Store E k (HashFunc E k) ?v (sw_hm (eng_sw eng))"
  obtain w' where e: "eng' = eng\<lparr>eng_sw := (eng_sw eng)\<lparr>sw_hm := ?hm, sw_wal := w', sw_clock := c\<rparr>\<rparr>"
    using assms(2) n by (auto simp: Evict_key_def Let_def split: prod.splits)
  have cl: "c = (sw_clock (eng_sw eng))\<lparr>state := r\<rparr>" "unat (state (sw_clock (eng_sw eng))) < unat r" "clock_wf c" "\<not> saturated c"
    using Now_below_ceiling [OF n inv(3,4) assms(3)] by auto
  have sr: "sint r = int (unat r)" using cl(1,3) by (intro sint_eq_unat) (simp add: clock_wf_def)
  have old: "sint (Timestamp v) \<le> int (unat r)" if "contents E (sw_hm (eng_sw eng)) j = Some v" for j v
    using inv(5) [OF that] cl(2) by linarith
  have ct: "contents E ?hm = (if reason = ReasonCapacity then (contents E (sw_hm (eng_sw eng)))(k := None)
      else (contents E (sw_hm (eng_sw eng)))(k \<mapsto> version E k ?v))"
    by (simp add: contents_Delete [OF inv(2)] contents_Store [OF inv(2)])
  have "replica_inv E ?hm" using Delete_replica [OF inv(1)] Store_replica [OF inv(1)] by simp
  then have "eng_inv E eng'"
    using cl(1,3,4) old sr unfolding eng_inv_def sw_inv_def e by (auto simp: ct split: if_splits)
  moreover have "live_of E eng' = (live_of E eng)(k := None)"
    unfolding e by (rule ext) (simp add: live_of_def ct version_def stamped_def)
  ultimately show ?thesis by simp
qed

lemma Get_effect:
  assumes "eng_inv E eng" and "Get E rnd k eng = (v, eng')"
  shows "eng_inv E eng' \<and> v = live_of E eng k \<and> live_of E eng' = live_of E eng"
  using assms Load_live [OF sw_invD(2) [OF assms(1) [unfolded eng_inv_def]], of k]
  by (auto simp: Get_def Let_def eng_inv_def live_of_def [abs_def] split: option.splits if_splits)

interpretation oryx: kv_engine "eng_inv E" "live_of E" ok_readings "exec_engine E C" for E C
proof
  fix s op out s' and i :: op_input
  assume a: "eng_inv E s" "ok_readings i" "exec_engine E C i op s = Some (out, s')"
  have t: "\<forall>t \<in> set (in_now i) \<union> set (in_upd i). sample_ms t < maxPhysical"
    using a(2) by (auto simp: ok_readings_def)
  have "eng_inv E s' \<and> out = spec_out op (live_of E s) \<and> live_of E s' = spec_map op (live_of E s)"
  proof (cases op)
    case (OpGet k)
    then show ?thesis using a(3) Get_effect [OF a(1), of "in_rand i" k] by (auto split: prod.splits)
  next
    case (OpSet k v)
    then show ?thesis using a(3) Set_effect [OF a(1) _ t, of C "in_rand i" k v] by auto
  next
    case (OpDelete k)
    then show ?thesis using a(3) Delete_effect [OF a(1) _ t] by fastforce
  next
    case (OpEvict k r)
    then show ?thesis using a(3) Evict_effect [OF a(1)] t by auto
  qed
  then show "eng_inv E s'" "out = spec_out op (live_of E s) \<and> live_of E s' = spec_map op (live_of E s)" by simp_all
qed

lemma run_engine_oryx: "run_engine E C xs eng = oryx.run E C xs eng"
  by (induction xs arbitrary: eng) (auto split: option.split)

section \<open>Snapshots and back\<close>

definition clean_entry :: "snapshot_entry \<Rightarrow> bool" where
  "clean_entry e \<longleftrightarrow> se_Key e = '''' \<and> se_Data e = None \<and> se_NodeID e = ''''"

text \<open>Reading is faithful when every entry is decoded into a new object, or when no entry is a tombstone
  or has the timestamp zero.\<close>

definition leak_free :: "(nat \<Rightarrow> nat) \<Rightarrow> (string \<times> kv_value) list \<Rightarrow> bool" where
  "leak_free draw kvs \<longleftrightarrow> (\<forall>i. length kvs \<le> draw i) \<or>
     (\<forall>(k, v) \<in> set kvs. \<not> Tombstone v \<and> Timestamp v \<noteq> 0)"

text \<open>What a value is after a trip through a snapshot: an empty slice comes back as nil.\<close>

definition reloaded :: "kv_value \<Rightarrow> kv_value" where
  "reloaded v = v\<lparr>Data := (if slice_bytes (Data v) = [] then None else Data v), ItemHash := 0\<rparr>"

abbreviation snap_of :: "(string \<times> kv_value) list \<Rightarrow> gob_entry list" where
  "snap_of kvs \<equiv> map (\<lambda>(k, v). gob_encode (snap_entry k v)) kvs"

lemma entry_value_decode:
  assumes "clean_entry r" and "se_Tombstone r \<longrightarrow> Tombstone v" and "Timestamp v = 0 \<longrightarrow> se_Timestamp r = 0"
  shows "entry_value (gob_decode (gob_encode (snap_entry k v)) r) = reloaded v"
    and "se_Key (gob_decode (gob_encode (snap_entry k v)) r) = k"
  using assms
  by (auto simp: clean_entry_def gob_roundtrip snap_entry_def entry_value_def reloaded_def intro!: kv_value.equality)

lemma entry_get_set: "entry_get i free = (e, free') \<Longrightarrow> e \<in> insert new_entry (set free) \<and> set free' \<subseteq> set free \<and> length free' \<le> length free"
  by (auto simp: entry_get_def split: if_splits dest: in_set_takeD in_set_dropD)

lemma clean_new [simp]: "clean_entry new_entry" "clean_entry (entry_reset e)"
  by (simp_all add: clean_entry_def new_entry_def entry_reset_def)

lemma load_entries_faithful:
  assumes "replica_inv E hm" and "\<forall>e \<in> set free. clean_entry e"
    and "(\<forall>i. length free + length kvs \<le> draw i) \<or>
      (\<forall>(k, v) \<in> set kvs. \<not> Tombstone v \<and> Timestamp v \<noteq> 0) \<and> (\<forall>e \<in> set free. \<not> se_Tombstone e)"
    and "distinct (map fst kvs)"
  shows "\<exists>hm'. load_entries E draw free (snap_of kvs) False hm = (None, hm') \<and> replica_inv E hm' \<and>
    contents E hm' = contents E hm ++ (\<lambda>k. map_option (\<lambda>v. version E k (reloaded v)) (map_of kvs k))"
  using assms
proof (induction kvs arbitrary: draw free hm)
  case (Cons kv kvs)
  obtain k v where kv: "kv = (k, v)" by (cases kv)
  obtain e free1 where g: "entry_get (draw 0) free = (e, free1)" by (cases "entry_get (draw 0) free")
  note es = entry_get_set [OF g]
  have e: "clean_entry e" "se_Tombstone e \<longrightarrow> Tombstone v" "Timestamp v = 0 \<longrightarrow> se_Timestamp e = 0"
  proof -
    show "clean_entry e" using es Cons.prems(2) by auto
    have "e = new_entry \<or> (\<not> Tombstone v \<and> Timestamp v \<noteq> 0) \<and> (e = new_entry \<or> \<not> se_Tombstone e)"
      using Cons.prems(3) es g by (auto simp: kv entry_get_def split: if_splits dest: spec [of _ 0])
    then show "se_Tombstone e \<longrightarrow> Tombstone v" "Timestamp v = 0 \<longrightarrow> se_Timestamp e = 0"
      by (auto simp: new_entry_def)
  qed
  define e1 where "e1 = gob_decode (gob_encode (snap_entry k v)) e"
  have d: "entry_value e1 = reloaded v" "se_Key e1 = k"
    using entry_value_decode [OF e] by (simp_all add: e1_def)
  let ?hm = "Store E k (HashFunc E k) (reloaded v) hm"
  have t: "se_Tombstone e1 = Tombstone v" using arg_cong [OF d(1), of Tombstone] by (simp add: entry_value_def reloaded_def)
  have l: "length free1 \<le> length free" "set free1 \<subseteq> set free" using es by auto
  have side: "(\<forall>i. length (entry_reset e1 # free1) + length kvs \<le> draw (Suc i)) \<or>
      (\<forall>(k, v) \<in> set kvs. \<not> Tombstone v \<and> Timestamp v \<noteq> 0) \<and> (\<forall>e \<in> set (entry_reset e1 # free1). \<not> se_Tombstone e)"
    using Cons.prems(3)
  proof (elim disjE)
    assume a: "\<forall>i. length free + length (kv # kvs) \<le> draw i"
    have "length (entry_reset e1 # free1) + length kvs \<le> draw (Suc i)" for i
      using a [rule_format, of "Suc i"] l(1) by simp
    then show ?thesis by blast
  qed (use l(2) t in \<open>auto simp: kv entry_reset_def\<close>)
  obtain hm' where hm': "load_entries E (\<lambda>i. draw (Suc i)) (entry_reset e1 # free1) (snap_of kvs) False ?hm = (None, hm')"
      "replica_inv E hm'" "contents E hm' = contents E ?hm ++ (\<lambda>k. map_option (\<lambda>v. version E k (reloaded v)) (map_of kvs k))"
    using Cons.IH [OF Store_replica [OF Cons.prems(1), of k "reloaded v"] _ side] Cons.prems(2,4) l(2) by auto
  have "contents E ?hm = (contents E hm)(k \<mapsto> version E k (reloaded v))"
    by (rule contents_Store [OF replicaD(1) [OF Cons.prems(1)]])
  moreover have "map_of kvs k = None" using Cons.prems(4) by (simp add: kv map_of_eq_None_iff)
  ultimately have "contents E hm' = contents E hm ++ (\<lambda>k. map_option (\<lambda>v. version E k (reloaded v)) (map_of (kv # kvs) k))"
    using hm'(3) by (auto simp: fun_eq_iff map_add_def kv split: option.splits)
  moreover have "load_entries E draw free (snap_of (kv # kvs)) False hm = (None, hm')"
    using hm'(1) by (simp add: kv g d e1_def [symmetric])
  ultimately show ?case using hm'(2) by blast
qed (auto simp: map_add_def fun_eq_iff)

lemma apply_updates_contents:
  assumes "replica_inv E hm" and "distinct order"
  shows "replica_inv E (apply_updates E order u hm) \<and> contents E (apply_updates E order u hm) k =
    (case u k of None \<Rightarrow> contents E hm k
     | Some v \<Rightarrow> if k \<in> set order then lww.merge (contents E hm k) (version E k v) else contents E hm k)"
  using assms
proof (induction order arbitrary: hm)
  case (Cons j order)
  let ?hm = "case u j of None \<Rightarrow> hm | Some v \<Rightarrow> lww_write E hm j v"
  have s: "apply_updates E (j # order) u hm = apply_updates E order u ?hm"
    by (cases "u j") (simp_all add: apply_updates_def lww_write_def)
  have "replica_inv E ?hm" using replica.write_inv [OF Cons.prems(1)] Cons.prems(1) by (simp split: option.split)
  then show ?case
    using Cons.IH [of ?hm] Cons.prems(2) replica.get_write [OF Cons.prems(1), of j]
    by (auto simp: s split: option.splits)
qed (auto simp: apply_updates_def split: option.split)

lemma same_visible_simps [simp]:
  "same_visible (Some (version E k v)) y = same_visible (Some v) y"
  "same_visible x (Some (version E k v)) = same_visible x (Some v)"
  "same_visible (Some (reloaded v)) y = same_visible (Some v) y"
  "same_visible x x"
  "is_req m \<Longrightarrow> same_visible (Some (msg_value m)) (Some (req_value m))"
  by (auto simp: same_visible_def version_def stamped_def reloaded_def split: option.splits)

lemma lwwWins_newer: "sint (Timestamp a) < sint (Timestamp b) \<Longrightarrow> lwwWins a b"
  by (auto simp: lwwWins_def)

lemma sorted_last_max:
  "sorted_wrt (\<lambda>a b. f a \<le> (f b :: int)) xs \<Longrightarrow> x \<in> set xs \<Longrightarrow> f x \<le> f (last xs)"
  by (cases xs rule: rev_cases) (auto simp: sorted_wrt_append)

lemma key_log_append [simp]: "key_log (xs @ ys) k = key_log xs k @ key_log ys k"
  by (simp add: key_log_def)

text \<open>One key after a restart: the snapshot read it at some moment since the log was marked (the accepted
  requests were then \<open>old @ a\<close>), the log holds everything accepted since the mark.\<close>

lemma key_recovered:
  assumes "log_since E C sw old (a @ b)" and "stamps_unique (old @ a @ b)"
    and s: "s = (if key_log (old @ a) k = [] then None else Some (version E k (req_value (last (key_log (old @ a) k)))))"
  shows "same_visible (case replayed Map.empty (a @ b) k of
        None \<Rightarrow> map_option (\<lambda>v. version E k (reloaded v)) s
      | Some r \<Rightarrow> lww.merge (map_option (\<lambda>v. version E k (reloaded v)) s) (version E k r)) (contents E (sw_hm sw) k)"
proof -
  let ?L = "key_log (a @ b) k" and ?F = "key_log (old @ a @ b) k"
  have c: "contents E (sw_hm sw) k = (if ?F = [] then None else Some (version E k (req_value (last ?F))))"
    and req: "list_all is_req ?F" and st: "sorted_wrt (\<lambda>a b. sint (msg_timestamp a) \<le> sint (msg_timestamp b)) ?F"
    using assms(1) by (auto simp: log_since_def key_log_def list_all_iff)
  define rp where "rp = replayed Map.empty (a @ b) k"
  have rep: "rp = foldl newest None ?L" by (simp add: rp_def replayed_def key_log_def)
  have "same_visible (case rp of None \<Rightarrow> map_option (\<lambda>v. version E k (reloaded v)) s
      | Some r \<Rightarrow> lww.merge (map_option (\<lambda>v. version E k (reloaded v)) s) (version E k r)) (contents E (sw_hm sw) k)"
  proof (cases "?L = []")
    case True
    then show ?thesis by (simp add: rep c s)
  next
    case False
    then have FL: "?F \<noteq> []" "last ?F = last ?L" by auto
    obtain m where m: "m \<in> set ?L" "msg_timestamp m = msg_timestamp (last ?L)" "foldl newest None ?L = Some (msg_value m)"
      using newest_fold [OF False] st req by (auto simp: sorted_wrt_append)
    have rm: "rp = Some (msg_value m)" by (simp only: rep m(3))
    have mem: "x \<in> set (old @ a @ b)" "msg_key x = k" "is_req x" if "x \<in> set ?F" for x
      using that req by (auto simp: key_log_def list_all_iff)
    have lF: "last ?F \<in> set ?F" "m \<in> set ?F" using FL(1) m(1) by (simp_all del: key_log_append, simp)
    have mF: "m = last ?F" using assms(2) mem [OF lF(1)] mem [OF lF(2)] m(2) FL(2) unfolding stamps_unique_def by metis
    have ct: "contents E (sw_hm sw) k = Some (version E k (req_value m))" using c FL mF by simp
    show ?thesis
    proof (cases s)
      case None
      then show ?thesis using mem(3) [OF lF(2)] by (simp add: rm ct lww.merge_def)
    next
      case (Some v)
      define m' where "m' = last (key_log (old @ a) k)"
      have v: "v = version E k (req_value m')" and m'F: "m' \<in> set ?F"
        using s Some last_in_set [of "key_log (old @ a) k"] by (auto simp: m'_def split: if_splits simp del: last_append)
      have le: "sint (msg_timestamp m') \<le> sint (msg_timestamp m)"
        using sorted_last_max [OF st m'F] mF by simp
      have "m' = m" if "\<not> lwwWins (version E k (reloaded v)) (version E k (msg_value m))"
      proof -
        have "\<not> sint (msg_timestamp m') < sint (msg_timestamp m)"
          using that v lwwWins_newer [of "version E k (reloaded v)" "version E k (msg_value m)"] by (auto simp: reloaded_def)
        then have "msg_timestamp m' = msg_timestamp m" using le by (simp flip: sint_inj)
        then show ?thesis using assms(2) mem [OF m'F] mem [OF lF(2)] unfolding stamps_unique_def by metis
      qed
      then show ?thesis
        using mem(3) [OF lF(2)] by (auto simp: rm ct Some lww.merge_def v)
    qed
  qed
  then show ?thesis unfolding rp_def .
qed

lemma w_Publish_segments:
  assumes "w_Publish C h m (RealWal w) = (e, x)"
  shows "\<exists>w'. x = RealWal w' \<and> length (segments w') = length (segments w)"
proof -
  obtain a b w' where p: "Publish C h m w = (a, b, w')" by (metis prod_cases3)
  then have "length (segments w') = length (segments w)"
    by (auto simp: Publish_def Let_def split: option.splits prod.splits if_splits)
  then show ?thesis using assms p by auto
qed

lemma Apply_segments:
  assumes "Apply E C ts m sw = Some (e, sw')" and "sw_wal sw = RealWal w"
  shows "\<exists>w'. sw_wal sw' = RealWal w' \<and> length (segments w') = length (segments w)"
  using assms
  by (cases m) (auto simp: ApplySet_def ApplyDelete_def Let_def simp del: w_Publish.simps
      split: option.splits prod.splits if_splits dest!: w_Publish_segments)

lemma apply_all_segments:
  "apply_all E C rs sw = Some (es, sw') \<Longrightarrow> sw_wal sw = RealWal w \<Longrightarrow>
     \<exists>w'. sw_wal sw' = RealWal w' \<and> length (segments w') = length (segments w)"
proof (induction rs arbitrary: sw es w)
  case (Cons r rs)
  obtain ts m where r: "r = (ts, m)" by (cases r)
  obtain e sw1 es' where a: "Apply E C ts m sw = Some (e, sw1)" "apply_all E C rs sw1 = Some (es', sw')"
    using Cons.prems(1) by (auto simp: r split: option.splits)
  obtain w1 where "sw_wal sw1 = RealWal w1" "length (segments w1) = length (segments w)"
    using Apply_segments [OF a(1) Cons.prems(2)] by blast
  then show ?case using Cons.IH [OF a(2)] by metis
qed simp

lemma log_since_wal:
  "log_since E C sw old ms \<Longrightarrow> wal_holds C E w ms' \<Longrightarrow> old @ ms = old' @ ms' \<Longrightarrow>
     log_since E C (sw\<lparr>sw_wal := RealWal w\<rparr>) old' ms'"
  by (simp add: log_since_def)

text \<open>A snapshot cycle: the log is marked, requests arrive while the snapshot is written, the log is cut
  at the mark, more requests arrive. The log then holds what was accepted since the mark.\<close>

lemma snapshot_cycle:
  assumes "logged E C sw0 ms" and "sw_wal sw0 = RealWal w0"
    and "w_PrepareSnapshot (sw_wal sw0) = (Inr offsets, w1)"
    and "apply_all E C rs (sw0\<lparr>sw_wal := w1\<rparr>) = Some (es, sw2)"
    and "w_Clear (map_option (map int) offsets) (sw_wal sw2) = (e, w3)"
    and "recordable C rs"
    and "\<forall>m \<in> snd ` set rs. \<exists>m0 \<in> set ms. seg_of E (length (segments w0)) m0 = seg_of E (length (segments w0)) m"
  shows "e = None \<and> logged E C (sw0\<lparr>sw_wal := w1\<rparr>) ms \<and>
    log_since E C (sw2\<lparr>sw_wal := w3\<rparr>) ms (won_all E C rs (sw0\<lparr>sw_wal := w1\<rparr>))"
proof -
  let ?n = "length (segments w0)" and ?A = "won_all E C rs (sw0\<lparr>sw_wal := w1\<rparr>)"
  have "wal_holds C E w0 ms" using assms(1,2) by (auto simp: log_since_def)
  then obtain os w1' where p: "PrepareSnapshot w0 = (Inr os, w1')" "wal_holds C E w1' ms"
      "length (segments w1') = ?n" "marks C E ?n ms os"
    using PrepareSnapshot_holds by blast
  have w1: "w1 = RealWal w1'" "offsets = Some os" using assms(2,3) p(1) by auto
  have l0: "logged E C (sw0\<lparr>sw_wal := w1\<rparr>) ms" unfolding w1 by (rule log_since_wal [OF assms(1) p(2)]) simp
  have l2: "logged E C sw2 (ms @ ?A)" using apply_all_log_since [OF l0 assms(6,4)] by simp
  have "sw_wal (sw0\<lparr>sw_wal := w1\<rparr>) = RealWal w1'" by (simp add: w1)
  then obtain w2 where w2: "sw_wal sw2 = RealWal w2" "length (segments w2) = ?n"
    using apply_all_segments [OF assms(4)] p(3) by metis
  have h2: "wal_holds C E w2 (ms @ ?A)" using l2 w2(1) by (auto simp: log_since_def)
  have "filter (\<lambda>m. seg_part E ?n (seg_of E ?n m) ms \<noteq> []) ?A = ?A"
    using assms(7) won_all_set [of E C rs "sw0\<lparr>sw_wal := w1\<rparr>"]
    by (fastforce simp: filter_id_conv seg_part_def filter_empty_conv)
  then obtain w3' where c: "Clear (Some (map int os)) w2 = (None, w3')" "wal_holds C E w3' ?A"
    using Clear_holds [OF h2] p(4) w2(2) by auto
  have "e = None" "w3 = RealWal w3'" using assms(5) w2(1) w1(2) c(1) by auto
  then show ?thesis using l0 log_since_wal [OF l2 c(2)] by simp
qed

lemma recover_snapshot_and_log:
  assumes "radix_laws E" and "codec_laws C" and "log_since E C sw old ms"
    and "distinct (map fst kvs)" and "leak_free (io_draw io) kvs" and "io_stat io" and "io_open io"
    and "distinct (io_order io)" and "msg_key ` set ms \<subseteq> set (io_order io)"
  shows "\<exists>hm w. recover E C io (Some \<lparr>sf_vals = snap_of kvs, sf_torn = False\<rparr>) (NewShardedMap E) (sw_wal sw) = (None, hm, w) \<and>
    (\<forall>k. contents E hm k = (case replayed Map.empty ms k of
        None \<Rightarrow> map_option (\<lambda>v. version E k (reloaded v)) (map_of kvs k)
      | Some r \<Rightarrow> lww.merge (map_option (\<lambda>v. version E k (reloaded v)) (map_of kvs k)) (version E k r)))"
proof -
  have "\<exists>hm1. recover_snapshot E io (Some \<lparr>sf_vals = snap_of kvs, sf_torn = False\<rparr>) (NewShardedMap E) = (None, hm1) \<and>
      replica_inv E hm1 \<and> contents E hm1 = (\<lambda>k. map_option (\<lambda>v. version E k (reloaded v)) (map_of kvs k))"
  proof (cases "kvs = []")
    case True
    then show ?thesis using new_replica [OF assms(1)] assms(1)
      by (auto simp: recover_snapshot_def snap_size_positive_def)
  next
    case False
    have e: "contents E (NewShardedMap E) = Map.empty" using assms(1) by (simp add: fun_eq_iff)
    from False show ?thesis
      using load_entries_faithful [OF new_replica [OF assms(1)], of "[]" kvs "io_draw io"] assms(4-7)
      by (simp add: recover_snapshot_def snap_size_positive_def leak_free_def e)
  qed
  then obtain hm1 where hm1: "recover_snapshot E io (Some \<lparr>sf_vals = snap_of kvs, sf_torn = False\<rparr>) (NewShardedMap E) = (None, hm1)"
    "replica_inv E hm1" "contents E hm1 = (\<lambda>k. map_option (\<lambda>v. version E k (reloaded v)) (map_of kvs k))" by blast
  obtain w where w: "sw_wal sw = RealWal w" "wal_holds C E w ms" and req: "list_all is_req ms" using assms(3) by (auto simp: log_since_def)
  obtain w' where r: "Replay C w = (None, replayed Map.empty ms, w')" using Replay_holds [OF assms(2) w(2)] by blast
  let ?hm = "apply_updates E (io_order io) (replayed Map.empty ms) hm1"
  have dom: "k \<in> set (io_order io)" if "replayed Map.empty ms k = Some v" for k v
    using that replayed_newest [OF req, of k] assms(9) by (auto simp: image_subset_iff)
  have "contents E ?hm k = (case replayed Map.empty ms k of
        None \<Rightarrow> map_option (\<lambda>v. version E k (reloaded v)) (map_of kvs k)
      | Some r \<Rightarrow> lww.merge (map_option (\<lambda>v. version E k (reloaded v)) (map_of kvs k)) (version E k r))" for k
    using apply_updates_contents [OF hm1(2) assms(8), of "replayed Map.empty ms" k] dom [of k]
    by (auto simp: hm1(3) split: option.splits)
  moreover have "recover E C io (Some \<lparr>sf_vals = snap_of kvs, sf_torn = False\<rparr>) (NewShardedMap E) (sw_wal sw) = (None, ?hm, RealWal w')"
    by (simp add: recover_def hm1(1) w(1) r)
  ultimately show ?thesis by blast
qed

section \<open>What a restart loses\<close>

lemma tombstone_sticks:
  assumes "clean_entry r" and "se_Tombstone r \<or> Tombstone v"
  shows "Tombstone (entry_value (gob_decode (gob_encode (snap_entry k v)) r))"
    and "se_Key (gob_decode (gob_encode (snap_entry k v)) r) = k"
    and "se_Tombstone (entry_reset (gob_decode (gob_encode (snap_entry k v)) r))"
  using assms by (auto simp: clean_entry_def gob_roundtrip snap_entry_def entry_value_def entry_reset_def)

lemma load_one:
  "load_entries E (\<lambda>_. 0) [r] (snap_of ((k, v) # kvs)) torn hm =
     (let e1 = gob_decode (gob_encode (snap_entry k v)) r
      in load_entries E (\<lambda>_. 0) [entry_reset e1] (snap_of kvs) torn (Store E (se_Key e1) (HashFunc E (se_Key e1)) (entry_value e1) hm))"
  by (simp add: entry_get_def Let_def)

lemma load_after_tombstone:
  assumes "replica_inv E hm" and "clean_entry r" and "se_Tombstone r"
  shows "\<exists>hm'. load_entries E (\<lambda>_. 0) [r] (snap_of kvs) False hm = (None, hm') \<and>
    (\<forall>k. if k \<in> fst ` set kvs then \<exists>v. contents E hm' k = Some v \<and> Tombstone v else contents E hm' k = contents E hm k)"
  using assms
proof (induction kvs arbitrary: hm r)
  case (Cons kv kvs)
  obtain k v where kv: "kv = (k, v)" by (cases kv)
  let ?e1 = "gob_decode (gob_encode (snap_entry k v)) r"
  let ?hm = "Store E k (HashFunc E k) (entry_value ?e1) hm"
  have t: "Tombstone (entry_value ?e1)" "se_Key ?e1 = k" "se_Tombstone (entry_reset ?e1)"
    using tombstone_sticks [of r v k] Cons.prems(2,3) by simp_all
  obtain hm' where hm': "load_entries E (\<lambda>_. 0) [entry_reset ?e1] (snap_of kvs) False ?hm = (None, hm')"
    "\<forall>k. if k \<in> fst ` set kvs then \<exists>v. contents E hm' k = Some v \<and> Tombstone v else contents E hm' k = contents E ?hm k"
    using Cons.IH [OF Store_replica [OF Cons.prems(1), of k "entry_value ?e1"] clean_new(2) t(3)] by blast
  have "contents E ?hm = (contents E hm)(k \<mapsto> version E k (entry_value ?e1))"
    by (rule contents_Store [OF replicaD(1) [OF Cons.prems(1)]])
  then have "if j \<in> fst ` set (kv # kvs) then \<exists>v. contents E hm' j = Some v \<and> Tombstone v else contents E hm' j = contents E hm j" for j
    using hm'(2) [rule_format, of j] t(1)
    by (cases "j \<in> fst ` set kvs"; cases "j = k") (auto simp: kv version_def stamped_def)
  moreover have "load_entries E (\<lambda>_. 0) [r] (snap_of (kv # kvs)) False hm = (None, hm')"
    unfolding kv load_one Let_def t(2) by (rule hm'(1))
  ultimately show ?case by blast
qed simp

lemma load_tombstone_leaks:
  assumes "replica_inv E hm" and "clean_entry r" and "Tombstone v0"
  shows "\<exists>hm'. load_entries E (\<lambda>_. 0) [r] (snap_of (xs @ (k0, v0) # ys)) False hm = (None, hm') \<and>
    (\<forall>k \<in> fst ` set ys. \<exists>v. contents E hm' k = Some v \<and> Tombstone v)"
  using assms
proof (induction xs arbitrary: hm r)
  case Nil
  let ?e1 = "gob_decode (gob_encode (snap_entry k0 v0)) r"
  have "se_Tombstone (entry_reset ?e1)" using tombstone_sticks(3) Nil by blast
  then show ?case
    using load_after_tombstone [OF Store_replica [OF Nil.prems(1), of "se_Key ?e1" "entry_value ?e1"] clean_new(2), of ?e1 ys]
    unfolding append_Nil load_one Let_def by metis
next
  case (Cons kv xs)
  then show ?case using Store_replica [OF Cons.prems(1)] by (cases kv) (simp only: append_Cons load_one Let_def clean_new)
qed

lemma replay_loop_torn:
  assumes "list_all small ps" and "small q" and "strict_prefix part (frame q)" and "part \<noteq> []"
  shows "fst (replay_loop C False (frames.stream_of ps @ part) r) \<noteq> None"
proof -
  have n: "next_frame part = None" using frames.dec_short [OF assms(2), of part] assms(3) by simp
  have "fst (replay_loop C False part r') \<noteq> None" for r'
    using n assms(4) by (subst replay_loop.simps)
      (auto simp: next_frame_def read_frame_def Let_def split: frame_read.splits if_splits)
  then show ?thesis using replay_loop_frames [OF assms(1), of C False part r] by (auto split: prod.splits option.splits)
qed

lemma replay_segs_keeps_error: "fst (replay_segs C segs (Some e) r) = Some e"
  by (induction segs arbitrary: r) (auto simp: Let_def split: prod.splits, metis fst_conv)

lemma replay_segs_error:
  "i < length segs \<Longrightarrow> (\<And>r. fst (replaySegment C (segs ! i) r) \<noteq> None) \<Longrightarrow> fst (replay_segs C segs e r) \<noteq> None"
proof (induction segs arbitrary: i e r)
  case (Cons seg segs)
  obtain e1 seg' r' where s: "replaySegment C seg r = (e1, seg', r')" by (metis prod_cases3)
  let ?e = "if e = None then e1 else e"
  have st: "fst (replay_segs C (seg # segs) e r) = fst (replay_segs C segs ?e r')"
    by (simp add: s split: prod.split)
  show ?case
  proof (cases i)
    case 0
    then have "e1 \<noteq> None" using Cons.prems(2) [of r] s by simp
    then obtain x where "?e = Some x" by (cases e) auto
    then show ?thesis using st replay_segs_keeps_error [of C segs x r'] by simp
  next
    case (Suc j)
    then show ?thesis using Cons.IH [of j ?e r'] Cons.prems st by simp
  qed
qed simp

lemma open_segments_all:
  "open_segments b (map Some fs) = Some (map (\<lambda>f. \<lparr>wrt = NewWriterSize (unat b), fd = f, disk = None\<rparr>) fs)"
  by (induction fs) simp_all

lemma load_entries_inv: "replica_inv E hm \<Longrightarrow> replica_inv E (snd (load_entries E draw free gs torn hm))"
  by (induction E draw free gs torn hm rule: load_entries.induct) (auto simp: Store_replica Let_def split: prod.split)

lemma encoder_visit:
  "visit (\<lambda>k v (_, enc). let (ok, enc') = Encode (snap_entry k v) enc in (ok, (ok, enc'))) kvs (True, \<lparr>enc_file = f, enc_left = None\<rparr>) =
     (True, \<lparr>enc_file = f\<lparr>sf_vals := sf_vals f @ snap_of kvs\<rparr>, enc_left = None\<rparr>)"
  by (induction kvs arbitrary: f) (auto simp: Encode_def)

lemma encoder_file:
  "stateTransferEncoder E hm \<lparr>enc_file = empty_file, enc_left = None\<rparr> =
     (True, \<lparr>enc_file = \<lparr>sf_vals = snap_of (map_entries E hm), sf_torn = False\<rparr>, enc_left = None\<rparr>)"
  unfolding stateTransferEncoder_def Range_map_def encoder_visit by (simp add: empty_file_def)

section \<open>Properties\<close>


definition demo_engine :: "(string \<times> nat) list engine" where
  "demo_engine = \<lparr>eng_sw = demo_storage, eng_evt = None, eng_snp = NewSnapshotter, eng_node = ''a'',
     disableSnapshot = False, startOnce = False, stopOnce = False\<rparr>"

lemma demo_engine_inv: "eng_inv demo_env demo_engine"
  using new_replica [OF radix_laws_demo] radix_laws_demo
  by (simp add: eng_inv_def sw_inv_def demo_engine_def demo_storage_def NewStorageWriter_def NewClock_def clock_wf_def
      saturated_unat)

lemma demo_now: "Now [1] NewClock = Some (65536, NewClock\<lparr>state := 65536\<rparr>)"
  by code_simp

lemma demo_set_runs:
  assumes "sw_clock (eng_sw eng) = NewClock"
  shows "\<exists>e eng'. Set_key E C [1] [1] (0, 0) k v eng = Some (e, eng')"
proof -
  have "Update 65536 [1] (NewClock\<lparr>state := 65536\<rparr>) \<noteq> None" by code_simp
  then obtain c where c: "Update 65536 [1] (NewClock\<lparr>state := 65536\<rparr>) = Some c" by blast
  let ?r = "\<lparr>set_key = k, set_value = v, set_timestamp = 65536, set_node = eng_node eng\<rparr>"
  obtain e sw' where "Apply E C [1] (MsgSet ?r) ((eng_sw eng)\<lparr>sw_clock := NewClock\<lparr>state := 65536\<rparr>\<rparr>) = Some (e, sw')"
    using Apply_total [of "MsgSet ?r" "[1]" "(eng_sw eng)\<lparr>sw_clock := NewClock\<lparr>state := 65536\<rparr>\<rparr>" c E C] c by auto
  then show ?thesis by (simp add: Set_key_def Let_def assms demo_now)
qed



lemma demo_update_later: "Update 5 [1] NewClock = Some c \<Longrightarrow> \<exists>c'. Update 7 [1] c = Some c'"
proof -
  assume "Update 5 [1] NewClock = Some c"
  moreover have "(case Update 5 [1] NewClock of None \<Rightarrow> True | Some c \<Rightarrow> Update 7 [1] c \<noteq> None)" by code_simp
  ultimately show ?thesis by auto
qed

text \<open>One request accepted before the mark and one after it.\<close>

lemma demo_cycle:
  "\<exists>sw0 w0 os w1 e sw2 e3 w3. logged demo_env demo_codec sw0 [demo_set ''k'' ''x'' 5] \<and> sw_wal sw0 = RealWal w0 \<and>
     w_PrepareSnapshot (sw_wal sw0) = (Inr os, w1) \<and>
     apply_all demo_env demo_codec [([1], demo_set ''k'' ''y'' 7)] (sw0\<lparr>sw_wal := w1\<rparr>) = Some ([e], sw2) \<and>
     w_Clear (map_option (map int) os) (sw_wal sw2) = (e3, w3)"
proof -
  let ?m1 = "demo_set ''k'' ''x'' 5" and ?m2 = "demo_set ''k'' ''y'' 7"
  have m: "is_req ?m1" "is_req ?m2" "msg_timestamp ?m1 = 5" "msg_timestamp ?m2 = 7" by (simp_all add: demo_set_def)
  obtain p where p: "record_of demo_codec ?m1 p" using demo_record [of "''k''" "''x''" 5] by auto
  obtain c where c: "Update 5 [1] NewClock = Some c" using demo_update by blast
  obtain e sw0 where a: "Apply demo_env demo_codec [1] ?m1 demo_storage = Some (e, sw0)" using demo_apply [OF m(1,3)] by blast
  have i: "replica_inv demo_env (sw_hm demo_storage)" using demo_logged by (simp add: log_since_def)
  have "req_wins demo_env ?m1 demo_storage" using demo_logged by (simp add: req_wins_def log_since_def key_log_def)
  then have l: "logged demo_env demo_codec sw0 [?m1]" using Apply_log_since [OF demo_logged m(1) p a] by simp
  obtain w0 where w0: "sw_wal sw0 = RealWal w0" using l by (auto simp: log_since_def)
  obtain os w1 where pr: "w_PrepareSnapshot (sw_wal sw0) = (Inr os, w1)"
    using l PrepareSnapshot_holds [of demo_codec demo_env w0 "[?m1]"] w0 by (auto simp: log_since_def)
  have "sw_clock demo_storage = NewClock" by (simp add: demo_storage_def NewStorageWriter_def)
  then have c0: "Update (msg_timestamp ?m1) [1] (sw_clock demo_storage) = Some c" using c m(3) by simp
  have "sw_clock sw0 = c" using i m(1) a by (cases rule: Apply_cases) (use c0 in simp_all)
  then obtain c' where "Update (msg_timestamp ?m2) [1] (sw_clock (sw0\<lparr>sw_wal := w1\<rparr>)) = Some c'"
    using demo_update_later [OF c] m(4) by auto
  then obtain e' sw2 where b: "Apply demo_env demo_codec [1] ?m2 (sw0\<lparr>sw_wal := w1\<rparr>) = Some (e', sw2)"
    using Apply_total [OF m(2)] by blast
  obtain e3 w3 where cl: "w_Clear (map_option (map int) os) (sw_wal sw2) = (e3, w3)"
    by (cases "w_Clear (map_option (map int) os) (sw_wal sw2)")
  from b have "apply_all demo_env demo_codec [([1], ?m2)] (sw0\<lparr>sw_wal := w1\<rparr>) = Some ([e'], sw2)" by simp
  then show ?thesis using l w0 pr cl by blast
qed


text \<open>C35. Deleted keys infect live ones at restart. If the pool hands back the entry put last, then every
  entry that follows a tombstone in the snapshot file comes back as a tombstone, although its key
  was live: gob does not transmit \<open>false\<close>, and \<open>recover\<close> does not clear the field of a pooled entry.\<close>

theorem tombstone_leaks:
  assumes "radix_laws E" and "Tombstone v0" and "w_Replay C w = (None, Map.empty, w')"
    and "io_stat io" and "io_open io" and "io_draw io = (\<lambda>_. 0)"
  shows "\<exists>hm. recover E C io (Some \<lparr>sf_vals = snap_of (xs @ (k0, v0) # ys), sf_torn = False\<rparr>) (NewShardedMap E) w = (None, hm, w') \<and>
    (\<forall>k \<in> fst ` set ys. LoadData E k (HashFunc E k) hm = None \<and> contents E hm k \<noteq> None)"
proof -
  let ?kvs = "xs @ (k0, v0) # ys"
  obtain hm where hm: "load_entries E (\<lambda>_. 0) [new_entry] (snap_of ?kvs) False (NewShardedMap E) = (None, hm)"
    "\<forall>k \<in> fst ` set ys. \<exists>v. contents E hm k = Some v \<and> Tombstone v"
    using load_tombstone_leaks [OF new_replica [OF assms(1)] clean_new(1) assms(2)] by blast
  have "load_entries E (\<lambda>_. 0) [] (snap_of ?kvs) False (NewShardedMap E) = (None, hm)"
    using hm(1) by (cases xs) (auto simp: entry_get_def split: prod.splits)
  then have r: "recover_snapshot E io (Some \<lparr>sf_vals = snap_of ?kvs, sf_torn = False\<rparr>) (NewShardedMap E) = (None, hm)"
    using assms(4-6) by (simp add: recover_snapshot_def snap_size_positive_def)
  have inv: "sm_inv E hm"
    using load_entries_inv [OF new_replica [OF assms(1)], of "\<lambda>_. 0" "[new_entry]" "snap_of ?kvs" False] hm(1) replicaD(1) by simp
  have "apply_updates E order Map.empty hm = hm" for order by (induction order) (simp_all add: apply_updates_def)
  then have rec: "recover E C io (Some \<lparr>sf_vals = snap_of ?kvs, sf_torn = False\<rparr>) (NewShardedMap E) w = (None, hm, w')"
    unfolding recover_def r by (simp add: assms(3))
  have gone: "LoadData E k (HashFunc E k) hm = None \<and> contents E hm k \<noteq> None" if "k \<in> fst ` set ys" for k
    using hm(2) that Load_lookup [OF inv, of k "HashFunc E k"] by (fastforce simp: LoadData_Load contents_def)
  show ?thesis by (intro exI [of _ hm] conjI ballI rec gone)
qed

theorem tombstone_leaks_witness:
  "\<exists>hm. recover demo_env demo_codec \<lparr>io_stat = True, io_open = True, io_draw = (\<lambda>_. 0), io_order = []\<rparr>
      (Some \<lparr>sf_vals = snap_of ([] @ (''a'', demo_value ''x'' 3 ''a''\<lparr>Tombstone := True\<rparr>) # [(''b'', demo_value ''y'' 4 ''a'')]), sf_torn = False\<rparr>)
      (NewShardedMap demo_env) NopWal = (None, hm, NopWal) \<and>
    LoadData demo_env ''b'' (HashFunc demo_env ''b'') hm = None"
  using tombstone_leaks [OF radix_laws_demo, of "demo_value ''x'' 3 ''a''\<lparr>Tombstone := True\<rparr>" demo_codec NopWal NopWal
      "\<lparr>io_stat = True, io_open = True, io_draw = (\<lambda>_. 0), io_order = []\<rparr>" "[]" "''a''" "[(''b'', demo_value ''y'' 4 ''a'')]"]
  by auto

text \<open>C36. One torn record costs the whole log. If the file of any log segment ends in a part of a record, as
  after a crash during a write, the engine starts without an error, with the contents of the snapshot
  alone: no record of any segment is applied, also not those before the torn one.\<close>

theorem torn_log_discarded:
  assumes "\<not> cfg_DisableWal cfg" and "\<not> cfg_DisableSnapshot cfg" and "cfg_SnpPath cfg \<noteq> ''''"
    and "recover_snapshot E io snpFile (NewShardedMap E) = (None, hm)"
    and "i < length fs" and "content (fs ! i) = frames.stream_of ps @ part" and "list_all small ps"
    and "small q" and "strict_prefix part (frame q)" and "part \<noteq> []" and "\<not> closed (fs ! i)" and "faults (fs ! i) = []"
  shows "\<exists>eng. NewEngine E C cfg True (map Some fs) io snpFile = Inr eng \<and> sw_hm (eng_sw eng) = hm"
proof -
  let ?seg = "\<lambda>f. \<lparr>wrt = NewWriterSize (unat (cfg_WalBufferSize cfg)), fd = f, disk = None\<rparr>"
  let ?w = "\<lparr>segments = map ?seg fs\<rparr>"
  have n: "NewWal True (cfg_WalBufferSize cfg) (map Some fs) = Inr ?w" by (simp add: NewWal_def open_segments_all)
  have e: "fst (replaySegment C (segments ?w ! i) r) \<noteq> None" for r
    using assms(5,6,11,12) replay_loop_torn [OF assms(7-10), of C r]
    by (auto simp: replaySegment_def Flush_def NewWriterSize_def file_seek_def os_call_def next_fault_def Let_def split: prod.splits)
  have "fst (replay_segs C (segments ?w) None Map.empty) \<noteq> None"
    using replay_segs_error [of i "segments ?w" C None Map.empty] e assms(5) by simp
  then obtain x segs r where "replay_segs C (segments ?w) None Map.empty = (Some x, segs, r)"
    by (cases "replay_segs C (segments ?w) None Map.empty" rule: prod_cases3) auto
  then obtain w' where "w_Replay C (RealWal ?w) = (Some x, r, w')" by (simp add: Replay_def)
  then have "recover E C io snpFile (NewShardedMap E) (RealWal ?w) = (Some x, hm, w')"
    by (simp add: recover_def assms(4))
  then show ?thesis using assms(1-3) by (simp add: NewEngine_def n NewStorageWriter_def)
qed

theorem torn_log_discarded_witness:
  "\<exists>eng. NewEngine demo_env demo_codec \<lparr>cfg_Evt = None, cfg_Clock = NewClock, cfg_SnpPath = ''s'', cfg_WalBufferSize = 16,
      cfg_NodeID = ''a'', cfg_DisableWal = False, cfg_DisableSnapshot = False\<rparr> True
      (map Some [demo_file\<lparr>content := frame ''acknowledged'' @ [CHR 0x00]\<rparr>])
      \<lparr>io_stat = True, io_open = True, io_draw = (\<lambda>_. 0), io_order = []\<rparr> None = Inr eng \<and>
    sw_hm (eng_sw eng) = NewShardedMap demo_env"
proof -
  have s: "strict_prefix [CHR 0x00] (frame ''q'')" by code_simp
  show ?thesis
    by (rule torn_log_discarded [where i = 0 and ps = "[''acknowledged'']" and part = "[CHR 0x00]" and q = "''q''"])
      (simp_all add: s small_def recover_snapshot_def demo_file_def)
qed

lemma NewEngine_inv:
  assumes "radix_laws E" and "NewEngine E C cfg mkdirOk opened io snpFile = Inr eng"
  shows "replica_inv E (sw_hm (eng_sw eng))"
proof -
  have s: "replica_inv E (snd (recover_snapshot E io snpFile (NewShardedMap E)))"
    using new_replica [OF assms(1)] load_entries_inv [OF new_replica [OF assms(1)]]
    by (simp add: recover_snapshot_def split: option.split)
  have u: "replica_inv E (apply_updates E order u hm)" if "replica_inv E hm" for order u hm
    using that
  proof (induction order arbitrary: hm)
    case (Cons k order)
    have "apply_updates E (k # order) u hm = apply_updates E order u (case u k of None \<Rightarrow> hm | Some v \<Rightarrow> lww_write E hm k v)"
      by (cases "u k") (simp_all add: apply_updates_def lww_write_def)
    then show ?case using Cons replica.write_inv [OF Cons.prems] by (simp split: option.split)
  qed (simp add: apply_updates_def)
  have r: "replica_inv E (fst (snd (recover E C io snpFile (NewShardedMap E) w)))" for w
    using s u by (auto simp: recover_def split: prod.splits option.splits)
  obtain w hm w' where p: "(if \<not> cfg_DisableSnapshot cfg \<and> cfg_SnpPath cfg \<noteq> ''''
      then snd (recover E C io snpFile (NewShardedMap E) w) else (NewShardedMap E, w)) = (hm, w')" "sw_hm (eng_sw eng) = hm"
    using assms(2) by (auto simp: NewEngine_def NewStorageWriter_def Let_def split: sum.splits prod.splits)
  have "replica_inv E hm"
    using arg_cong [OF p(1), of fst] r [of w] new_replica [OF assms(1)] by (simp split: if_splits)
  then show ?thesis by (simp add: p(2))
qed

text \<open>C37. A restart can leave the clock behind the data. Recovery does not show the recovered timestamps to
  the clock; if the clock then issues a stamp below that of a recovered value, \<open>Set\<close> on its key
  returns without an error, and the old value stays in map and log alike.\<close>

theorem restart_ignores_write:
  assumes "radix_laws E" and "NewEngine E C cfg mkdirOk opened io snpFile = Inr eng"
    and "contents E (sw_hm (eng_sw eng)) k = Some v" and "Now ts1 (cfg_Clock cfg) = Some (r, c)"
    and "sint r < sint (Timestamp v)" and "Set_key E C ts1 ts2 rnd k d eng = Some (e, eng')"
  shows "e = None \<and> sw_hm (eng_sw eng') = sw_hm (eng_sw eng) \<and> sw_wal (eng_sw eng') = sw_wal (eng_sw eng) \<and>
    live_of E eng' = live_of E eng"
proof -
  have cl: "sw_clock (eng_sw eng) = cfg_Clock cfg"
    using assms(2) by (auto simp: NewEngine_def NewStorageWriter_def Let_def split: sum.splits prod.splits)
  have inv: "replica_inv E (sw_hm (eng_sw eng))" by (rule NewEngine_inv [OF assms(1,2)])
  let ?req = "\<lparr>set_key = k, set_value = d, set_timestamp = r, set_node = eng_node eng\<rparr>"
  obtain sw' where a: "Apply E C ts2 (MsgSet ?req) ((eng_sw eng)\<lparr>sw_clock := c\<rparr>) = Some (e, sw')" "eng_sw eng' = sw'"
    using assms(4,6) cl by (auto simp: Set_key_def Let_def)
  have "\<not> req_wins E (MsgSet ?req) ((eng_sw eng)\<lparr>sw_clock := c\<rparr>)"
    using assms(3,5) lwwWins_timestamp [of v] by (fastforce simp: req_wins_def set_to_value_def)
  moreover have "replica_inv E (sw_hm ((eng_sw eng)\<lparr>sw_clock := c\<rparr>))" using inv by simp
  ultimately have "e = None" "sw_hm sw' = sw_hm (eng_sw eng)" "sw_wal sw' = sw_wal (eng_sw eng)"
    using Apply_cases [OF _ _ a(1)] by fastforce+
  then show ?thesis using a(2) by (simp add: live_of_def [abs_def])
qed


lemma demo_recovered:
  "\<exists>hm. recover demo_env demo_codec \<lparr>io_stat = True, io_open = True, io_draw = (\<lambda>_. 0), io_order = []\<rparr>
      (Some \<lparr>sf_vals = snap_of [(''k'', demo_value ''b'' 1000000 ''old'')], sf_torn = False\<rparr>) (NewShardedMap demo_env) NopWal = (None, hm, NopWal) \<and>
    contents demo_env hm ''k'' = Some (version demo_env ''k'' (reloaded (demo_value ''b'' 1000000 ''old'')))"
  using load_entries_faithful [OF new_replica [OF radix_laws_demo], of "[]" "[(''k'', demo_value ''b'' 1000000 ''old'')]" "\<lambda>_. 0"]
  by (auto simp: recover_def recover_snapshot_def snap_size_positive_def apply_updates_def demo_value_def map_add_def)

theorem restart_ignores_write_witness:
  "\<exists>eng eng'. NewEngine demo_env demo_codec \<lparr>cfg_Evt = None, cfg_Clock = NewClock, cfg_SnpPath = ''s'', cfg_WalBufferSize = 16,
      cfg_NodeID = ''a'', cfg_DisableWal = True, cfg_DisableSnapshot = False\<rparr> True []
      \<lparr>io_stat = True, io_open = True, io_draw = (\<lambda>_. 0), io_order = []\<rparr>
      (Some \<lparr>sf_vals = snap_of [(''k'', demo_value ''b'' 1000000 ''old'')], sf_torn = False\<rparr>) = Inr eng \<and>
    Set_key demo_env demo_codec [1] [1] (0, 0) ''k'' (Some ''new'') eng = Some (None, eng') \<and>
    sw_hm (eng_sw eng') = sw_hm (eng_sw eng)"
proof -
  let ?cfg = "\<lparr>cfg_Evt = None, cfg_Clock = NewClock, cfg_SnpPath = ''s'', cfg_WalBufferSize = 16,
      cfg_NodeID = ''a'', cfg_DisableWal = True, cfg_DisableSnapshot = False\<rparr>"
  let ?io = "\<lparr>io_stat = True, io_open = True, io_draw = (\<lambda>_. 0), io_order = []\<rparr>"
  let ?f = "Some \<lparr>sf_vals = snap_of [(''k'', demo_value ''b'' 1000000 ''old'')], sf_torn = False\<rparr>"
  obtain hm where hm: "recover demo_env demo_codec ?io ?f (NewShardedMap demo_env) NopWal = (None, hm, NopWal)"
    "contents demo_env hm ''k'' = Some (version demo_env ''k'' (reloaded (demo_value ''b'' 1000000 ''old'')))"
    using demo_recovered by blast
  obtain eng where eng: "NewEngine demo_env demo_codec ?cfg True [] ?io ?f = Inr eng"
    "eng_sw eng = NewStorageWriter hm NopWal NewClock"
    unfolding NewEngine_def using hm(1) by simp
  obtain e eng' where s: "Set_key demo_env demo_codec [1] [1] (0, 0) ''k'' (Some ''new'') eng = Some (e, eng')"
    using demo_set_runs [of eng demo_env demo_codec "''k''" "Some ''new''"] by (auto simp: eng(2) NewStorageWriter_def)
  have n: "Now [1] (cfg_Clock ?cfg) = Some (65536, NewClock\<lparr>state := 65536\<rparr>)" by (simp add: demo_now)
  have c: "contents demo_env (sw_hm (eng_sw eng)) ''k'' = Some (version demo_env ''k'' (reloaded (demo_value ''b'' 1000000 ''old'')))"
    using hm(2) by (simp add: eng(2) NewStorageWriter_def)
  from restart_ignores_write [OF radix_laws_demo eng(1) c n _ s] eng(1) s show ?thesis
    by (auto simp: reloaded_def demo_value_def)
qed

end
