(* ===== verification/Secure_Hash.thy ===== *)
theory Secure_Hash
  imports Prelude
begin

text \<open>
  The cryptographic hash that places nodes and keys on the ring: \<open>HashFuncSecure\<close> of
  \<open>src/security/utils.go\<close>, the first eight bytes of SHA-256 read as a big-endian number. SHA-256
  is the standard library's \<open>crypto/sha256\<close>, written out here after FIPS 180-4.
\<close>

text \<open>The constants are the first 32 bits of the fractional parts of roots of the first primes: cube roots for the
  rounds, square roots for the initial state. \<open>root_floor k n\<close> is the integral part of the \<open>k\<close>-th root
  of \<open>n\<close>, found bit by bit from bit 35 down.\<close>

definition root_floor :: "nat \<Rightarrow> int \<Rightarrow> int" where
  "root_floor k n = foldl (\<lambda>r i. if (r + 2 ^ i) ^ k \<le> n then r + 2 ^ i else r) 0 (rev [0..<36])"

definition first_primes :: "int list" where
  "first_primes = filter (\<lambda>n. list_all (\<lambda>d. n mod d \<noteq> 0) [2..n - 1]) [2..311]"

definition sha_K :: "u32 list" where
  "sha_K = map (\<lambda>p. of_int (root_floor 3 (p * 2 ^ 96))) first_primes"

definition sha_init :: "u32 list" where
  "sha_init = map (\<lambda>p. of_int (root_floor 2 (p * 2 ^ 64))) (take 8 first_primes)"

text \<open>A one bit, zeros up to eight bytes short of a block, and the length in bits.\<close>

definition sha_pad :: "bytes \<Rightarrow> bytes" where
  "sha_pad m =
     (let bits = (of_nat (8 * length m) :: u64) in
      m @ [CHR 0x80] @ replicate ((119 - length m mod 64) mod 64) (CHR 0x00) @
      PutUint32 (ucast (drop_bit 32 bits)) @ PutUint32 (ucast bits))"

fun chunks :: "nat \<Rightarrow> 'a list \<Rightarrow> 'a list list" where
  "chunks n xs = (if xs = [] \<or> n = 0 then [] else take n xs # chunks n (drop n xs))"

declare chunks.simps [simp del]

definition sha_schedule :: "u32 list \<Rightarrow> u32 list" where
  "sha_schedule block =
     foldl (\<lambda>w t.
       let a = w ! (t - 15); b = w ! (t - 2);
           s0 = word_rotr 7 a XOR (word_rotr 18 a XOR drop_bit 3 a);
           s1 = word_rotr 17 b XOR (word_rotr 19 b XOR drop_bit 10 b)
       in w @ [w ! (t - 16) + s0 + w ! (t - 7) + s1]) block [16..<64]"

definition sha_round :: "u32 list \<Rightarrow> u32 \<times> u32 \<Rightarrow> u32 list" where
  "sha_round st kw =
     (case st of
        [a, b, c, d, e, f, g, h] \<Rightarrow>
          (let s1 = word_rotr 6 e XOR (word_rotr 11 e XOR word_rotr 25 e);
               ch = (e AND f) XOR (NOT e AND g);
               t1 = h + s1 + ch + fst kw + snd kw;
               s0 = word_rotr 2 a XOR (word_rotr 13 a XOR word_rotr 22 a);
               maj = (a AND b) XOR ((a AND c) XOR (b AND c));
               t2 = s0 + maj
           in [t1 + t2, a, b, c, d + t1, e, f, g])
      | _ \<Rightarrow> st)"

definition sha_block :: "u32 list \<Rightarrow> bytes \<Rightarrow> u32 list" where
  "sha_block st bs =
     map2 (+) st (foldl sha_round st (zip sha_K (sha_schedule (map Uint32 (chunks 4 bs)))))"

definition sha256_words :: "bytes \<Rightarrow> u32 list" where
  "sha256_words m = foldl sha_block sha_init (chunks 64 (sha_pad m))"

definition Sum256 :: "bytes \<Rightarrow> bytes" where
  "Sum256 m = concat (map PutUint32 (sha256_words m))"

definition Uint64 :: "bytes \<Rightarrow> u64" where
  "Uint64 b = push_bit 32 (ucast (Uint32 (take 4 b))) OR ucast (Uint32 (drop 4 b))"

definition HashFuncSecure :: "string \<Rightarrow> u64" where
  "HashFuncSecure key = Uint64 (take 8 (Sum256 key))"

end
