(* ===== verification/Hash_Ring.thy ===== *)
theory Hash_Ring
  imports Secure_Hash "HOL-Library.Sublist"
begin

text \<open>
  The consistent hash ring of \<open>src/cluster/mesh/hashring.go\<close>. Every node puts a number of virtual
  nodes on the circle of 64-bit hashes; a key belongs to the node whose virtual node comes first
  clockwise. The ring keeps the virtual nodes sorted and finds the first one with the standard
  library's binary search. The scratch slices that \<open>rebuildVnodes\<close> takes from a pool are overwritten
  in full and are left out. Virtual nodes with equal hashes are sorted in the order they were made;
  Go leaves that order open, and nothing below depends on it.

  The lemmas show that every operation keeps the tables in step, that the search is the linear
  search, which node owns a key in terms of clockwise distance, that a change of membership moves no
  key but those of the nodes that change, and what \<open>GetOwners\<close> returns.
\<close>

section \<open>The ring\<close>

definition defaultVnodes :: int where
  "defaultVnodes = 128"

record vnode =
  vn_hash :: u64
  nodeIdx :: u32

record hash_ring =
  ring_nodes :: "string \<rightharpoonup> u32"
  ring_weights :: "string \<rightharpoonup> int"
  nodeList :: "string list"
  vnodes :: "vnode list"

definition NewHashRing :: hash_ring where
  "NewHashRing = \<lparr>ring_nodes = Map.empty, ring_weights = Map.empty, nodeList = [], vnodes = []\<rparr>"

definition effective_weight :: "hash_ring \<Rightarrow> string \<Rightarrow> nat" where
  "effective_weight r nid =
     nat (case ring_weights r nid of None \<Rightarrow> defaultVnodes | Some w \<Rightarrow> if w < 0 then defaultVnodes else w)"

definition vnode_name :: "string \<Rightarrow> nat \<Rightarrow> string" where
  "vnode_name nid j = nid @ ''-'' @ itoa j"

text \<open>A lookup of a missing key in a Go map gives the zero value.\<close>

definition ring_idx :: "hash_ring \<Rightarrow> string \<Rightarrow> u32" where
  "ring_idx r nid = (case ring_nodes r nid of None \<Rightarrow> 0 | Some i \<Rightarrow> i)"

definition rebuildVnodes :: "hash_ring \<Rightarrow> hash_ring" where
  "rebuildVnodes r =
     r\<lparr>vnodes := sort_key vn_hash
         (concat (map (\<lambda>nid. map (\<lambda>j. \<lparr>vn_hash = HashFuncSecure (vnode_name nid j), nodeIdx = ring_idx r nid\<rparr>)
            [0..<effective_weight r nid]) (nodeList r)))\<rparr>"

definition AddNodeWithWeight :: "string \<Rightarrow> int \<Rightarrow> hash_ring \<Rightarrow> hash_ring" where
  "AddNodeWithWeight nid weight r =
     (if ring_nodes r nid \<noteq> None
      then rebuildVnodes (r\<lparr>ring_weights := (ring_weights r)(nid \<mapsto> weight)\<rparr>)
      else rebuildVnodes (r\<lparr>ring_nodes := (ring_nodes r)(nid \<mapsto> of_nat (length (nodeList r))),
                            nodeList := nodeList r @ [nid],
                            ring_weights := (ring_weights r)(nid \<mapsto> weight)\<rparr>))"

definition AddNode :: "string \<Rightarrow> hash_ring \<Rightarrow> hash_ring" where
  "AddNode nid r = AddNodeWithWeight nid defaultVnodes r"

definition UpdateNodeWeight :: "string \<Rightarrow> int \<Rightarrow> hash_ring \<Rightarrow> hash_ring" where
  "UpdateNodeWeight nid weight r =
     (if ring_nodes r nid = None then r
      else rebuildVnodes (r\<lparr>ring_weights := (ring_weights r)(nid \<mapsto> weight)\<rparr>))"

definition add_one :: "string \<Rightarrow> hash_ring \<Rightarrow> hash_ring" where
  "add_one nid r =
     r\<lparr>ring_nodes := (ring_nodes r)(nid \<mapsto> of_nat (length (nodeList r))),
       nodeList := nodeList r @ [nid],
       ring_weights := (ring_weights r)(nid \<mapsto> defaultVnodes)\<rparr>"

definition AddNodes :: "string list \<Rightarrow> hash_ring \<Rightarrow> hash_ring" where
  "AddNodes nids r =
     (let newNodes = filter (\<lambda>nid. ring_nodes r nid = None) nids in
      if newNodes = [] then r else rebuildVnodes (fold add_one newNodes r))"

definition RemoveNode :: "string \<Rightarrow> hash_ring \<Rightarrow> hash_ring" where
  "RemoveNode nid r =
     (if ring_nodes r nid = None then r
      else
        (let newNodeList = filter (\<lambda>x. x \<noteq> nid) (nodeList r) in
         rebuildVnodes (r\<lparr>nodeList := newNodeList,
           ring_nodes := map_of (rev (zip newNodeList (map of_nat [0..<length newNodeList]))),
           ring_weights := (ring_weights r)(nid := None)\<rparr>)))"

text \<open>\<open>sort.Search\<close>.\<close>

function search_from :: "nat \<Rightarrow> nat \<Rightarrow> (nat \<Rightarrow> bool) \<Rightarrow> nat" where
  "search_from i j f =
     (if i < j then
        (let h = (i + j) div 2 in
         if \<not> f h then search_from (h + 1) j f else search_from i h f)
      else i)"
  by pat_completeness auto
termination
  by (relation "measure (\<lambda>(i, j, f). j - i)") auto

declare search_from.simps [simp del]

definition Search :: "nat \<Rightarrow> (nat \<Rightarrow> bool) \<Rightarrow> nat" where
  "Search n f = search_from 0 n f"

definition GetNode :: "string \<Rightarrow> hash_ring \<Rightarrow> string" where
  "GetNode key r =
     (if length (vnodes r) = 0 then ''''
      else
        (let hash = HashFuncSecure key;
             idx = Search (length (vnodes r)) (\<lambda>i. vn_hash (vnodes r ! i) \<ge> hash);
             idx = (if idx = length (vnodes r) then 0 else idx)
         in nodeList r ! unat (nodeIdx (vnodes r ! idx))))"

text \<open>The loop of \<open>GetOwners\<close>, with \<open>left\<close> turns to go.\<close>

fun owners_loop :: "hash_ring \<Rightarrow> nat \<Rightarrow> nat \<Rightarrow> nat \<Rightarrow> nat \<Rightarrow> string list \<Rightarrow> string list" where
  "owners_loop r idx target i 0 owners = owners"
| "owners_loop r idx target i (Suc left) owners =
     (if length owners < target then
        (let node = nodeList r ! unat (nodeIdx (vnodes r ! ((idx + i) mod length (vnodes r))))
         in owners_loop r idx target (Suc i) left (if node \<in> set owners then owners else owners @ [node]))
      else owners)"

definition GetOwners :: "string \<Rightarrow> int \<Rightarrow> hash_ring \<Rightarrow> string list" where
  "GetOwners key replicationFactor r =
     (if length (vnodes r) = 0 then []
      else
        (let target = (if replicationFactor > int (length (nodeList r)) then int (length (nodeList r)) else replicationFactor) in
         if target \<le> 0 then []
         else
           (let hash = HashFuncSecure key;
                idx = Search (length (vnodes r)) (\<lambda>i. vn_hash (vnodes r ! i) \<ge> hash)
            in owners_loop r idx (nat target) 0 (length (vnodes r)) [])))"

definition GetNodes :: "hash_ring \<Rightarrow> string set" where
  "GetNodes r = dom (ring_nodes r)"

section \<open>The tables\<close>

definition tables_ok :: "hash_ring \<Rightarrow> bool" where
  "tables_ok r \<longleftrightarrow> distinct (nodeList r) \<and> length (nodeList r) < 2 ^ 32 \<and>
     (\<forall>n i. ring_nodes r n = Some i \<longleftrightarrow> unat i < length (nodeList r) \<and> nodeList r ! unat i = n)"

definition ring_inv :: "hash_ring \<Rightarrow> bool" where
  "ring_inv r \<longleftrightarrow> tables_ok r \<and> rebuildVnodes r = r"

lemma rebuild_fields [simp]:
  "ring_nodes (rebuildVnodes r) = ring_nodes r" "ring_weights (rebuildVnodes r) = ring_weights r"
  "nodeList (rebuildVnodes r) = nodeList r" "tables_ok (rebuildVnodes r) = tables_ok r"
  "rebuildVnodes (rebuildVnodes r) = rebuildVnodes r"
  by (simp_all add: rebuildVnodes_def tables_ok_def ring_idx_def effective_weight_def)

lemma rebuild_inv: "tables_ok r \<Longrightarrow> ring_inv (rebuildVnodes r)"
  by (simp add: ring_inv_def)

lemma tables_weights [simp]: "tables_ok (r\<lparr>ring_weights := w\<rparr>) = tables_ok r"
  by (simp add: tables_ok_def)

lemma tables_node:
  assumes "tables_ok r"
  shows "ring_nodes r n = None \<longleftrightarrow> n \<notin> set (nodeList r)"
    and "n \<in> set (nodeList r) \<Longrightarrow> nodeList r ! unat (ring_idx r n) = n"
    and "n \<in> set (nodeList r) \<Longrightarrow> unat (ring_idx r n) < length (nodeList r)"
proof -
  have t: "\<And>n i. ring_nodes r n = Some i \<longleftrightarrow> unat i < length (nodeList r) \<and> nodeList r ! unat i = n"
    and len: "length (nodeList r) < 2 ^ 32" using assms by (auto simp: tables_ok_def)
  have s: "\<exists>i. ring_nodes r n = Some i" if n: "n \<in> set (nodeList r)"
  proof -
    obtain j where j: "j < length (nodeList r)" "nodeList r ! j = n" using n by (auto simp: in_set_conv_nth)
    then have "unat (of_nat j :: u32) = j" using len by (simp add: unat_of_nat)
    then have "ring_nodes r n = Some (of_nat j)" using t [of n "of_nat j"] j by simp
    then show ?thesis by blast
  qed
  have "n \<in> set (nodeList r)" if "ring_nodes r n = Some i" for i
    using that t [of n i] nth_mem by blast
  then show "ring_nodes r n = None \<longleftrightarrow> n \<notin> set (nodeList r)" using s by (cases "ring_nodes r n") auto
  have "nodeList r ! unat (ring_idx r n) = n \<and> unat (ring_idx r n) < length (nodeList r)" if n: "n \<in> set (nodeList r)"
  proof -
    obtain i where i: "ring_nodes r n = Some i" using s [OF n] by blast
    then show ?thesis using t [of n i] by (simp add: ring_idx_def)
  qed
  then show "n \<in> set (nodeList r) \<Longrightarrow> nodeList r ! unat (ring_idx r n) = n"
    "n \<in> set (nodeList r) \<Longrightarrow> unat (ring_idx r n) < length (nodeList r)" by blast+
qed

lemma tables_append:
  assumes "tables_ok r" and "ring_nodes r n = None" and "Suc (length (nodeList r)) < 2 ^ 32"
  shows "tables_ok (r\<lparr>ring_nodes := (ring_nodes r)(n \<mapsto> of_nat (length (nodeList r))), nodeList := nodeList r @ [n], ring_weights := w\<rparr>)"
proof -
  have t: "\<And>m i. ring_nodes r m = Some i \<longleftrightarrow> unat i < length (nodeList r) \<and> nodeList r ! unat i = m"
    and d: "distinct (nodeList r)" using assms(1) by (auto simp: tables_ok_def)
  have new: "n \<notin> set (nodeList r)" using tables_node(1) assms(1,2) by blast
  have len: "unat (of_nat (length (nodeList r)) :: u32) = length (nodeList r)" using assms(3) by (simp add: unat_of_nat)
  have "((ring_nodes r)(n \<mapsto> of_nat (length (nodeList r)))) m = Some i \<longleftrightarrow>
      unat i < length (nodeList r @ [n]) \<and> (nodeList r @ [n]) ! unat i = m" for m i
  proof (cases "unat i = length (nodeList r)")
    case True
    then have "i = of_nat (length (nodeList r))" using len by (simp add: word_unat_eq_iff)
    then show ?thesis using True t [of m i] by auto
  next
    case False
    then have "i \<noteq> of_nat (length (nodeList r))" using len by metis
    then show ?thesis using False t [of m i] new by (auto simp: nth_append less_Suc_eq)
  qed
  then show ?thesis using d new assms(3) by (simp add: tables_ok_def)
qed

lemma tables_renumber:
  assumes "distinct xs" and "length xs < 2 ^ 32"
  shows "tables_ok (r\<lparr>nodeList := xs, ring_nodes := map_of (rev (zip xs (map of_nat [0..<length xs]))), ring_weights := w\<rparr>)"
proof -
  have d: "distinct (map fst (rev (zip xs (map (of_nat :: nat \<Rightarrow> u32) [0..<length xs]))))"
    using assms(1) by (simp add: rev_map [symmetric])
  have u: "unat (of_nat j :: u32) = j" if "j < length xs" for j using that assms(2) by (simp add: unat_of_nat)
  have "map_of (rev (zip xs (map of_nat [0..<length xs]))) n = Some i \<longleftrightarrow> (\<exists>j < length xs. xs ! j = n \<and> i = (of_nat j :: u32))" for n i
    using map_of_eq_Some_iff [OF d] by (auto simp: in_set_zip)
  also have "(\<exists>j < length xs. xs ! j = n \<and> i = (of_nat j :: u32)) \<longleftrightarrow> unat i < length xs \<and> xs ! unat i = n" for n i
    using u by (auto intro: exI [of _ "unat i"])
  finally show ?thesis using assms by (simp add: tables_ok_def)
qed

lemma NewHashRing_inv: "ring_inv NewHashRing"
  by (simp add: ring_inv_def tables_ok_def NewHashRing_def rebuildVnodes_def)

lemma AddNodeWithWeight_inv:
  "ring_inv r \<Longrightarrow> Suc (length (nodeList r)) < 2 ^ 32 \<Longrightarrow> ring_inv (AddNodeWithWeight n w r)"
  unfolding AddNodeWithWeight_def using tables_append [of r n] by (auto simp: ring_inv_def)

lemma UpdateNodeWeight_inv: "ring_inv r \<Longrightarrow> ring_inv (UpdateNodeWeight n w r)"
  by (auto simp: UpdateNodeWeight_def ring_inv_def)

lemma RemoveNode_inv: "ring_inv r \<Longrightarrow> ring_inv (RemoveNode n r)"
proof -
  assume r: "ring_inv r"
  then have "distinct (filter (\<lambda>x. x \<noteq> n) (nodeList r))" "length (filter (\<lambda>x. x \<noteq> n) (nodeList r)) < 2 ^ 32"
    using le_less_trans [OF length_filter_le] by (auto simp: ring_inv_def tables_ok_def)
  then show ?thesis
    unfolding RemoveNode_def Let_def using tables_renumber r by (auto intro!: rebuild_inv simp del: One_nat_def)
qed

lemma fold_add_one:
  "tables_ok r \<Longrightarrow> distinct ns \<Longrightarrow> (\<forall>n \<in> set ns. ring_nodes r n = None) \<Longrightarrow> length (nodeList r) + length ns < 2 ^ 32 \<Longrightarrow>
     tables_ok (fold add_one ns r)"
proof (induction ns arbitrary: r)
  case (Cons n ns)
  have "tables_ok (add_one n r)" using tables_append [of r n] Cons.prems by (simp add: add_one_def)
  moreover have "\<forall>m \<in> set ns. ring_nodes (add_one n r) m = None" using Cons.prems by (auto simp: add_one_def)
  moreover have "length (nodeList (add_one n r)) = Suc (length (nodeList r))" by (simp add: add_one_def)
  ultimately show ?case using Cons by simp
qed simp

lemma AddNodes_inv:
  assumes "ring_inv r" and "distinct ns" and "length (nodeList r) + length ns < 2 ^ 32"
  shows "ring_inv (AddNodes ns r)"
proof -
  let ?new = "filter (\<lambda>n. ring_nodes r n = None) ns"
  have "length (nodeList r) + length ?new < 2 ^ 32"
    using assms(3) length_filter_le [of "\<lambda>n. ring_nodes r n = None" ns] by linarith
  moreover have "tables_ok r" "distinct ?new" "\<forall>n \<in> set ?new. ring_nodes r n = None"
    using assms(1,2) by (simp_all add: ring_inv_def)
  ultimately have "tables_ok (fold add_one ?new r)" by (intro fold_add_one)
  then show ?thesis using assms(1) rebuild_inv by (simp add: AddNodes_def Let_def)
qed

section \<open>Search\<close>

lemma search_from_spec:
  assumes mono: "\<And>x y. x \<le> y \<Longrightarrow> y < n \<Longrightarrow> f x \<Longrightarrow> f y" and "i \<le> j" and "j \<le> n"
  shows "i \<le> search_from i j f \<and> search_from i j f \<le> j \<and> (\<forall>x. i \<le> x \<and> x < search_from i j f \<longrightarrow> \<not> f x) \<and>
    (search_from i j f < j \<longrightarrow> f (search_from i j f))"
  using assms
proof (induction i j f rule: search_from.induct)
  case (1 i j f)
  show ?case
  proof (cases "i < j")
    case True
    let ?h = "(i + j) div 2"
    show ?thesis
    proof (cases "f ?h")
      case False
      then have e: "search_from i j f = search_from (?h + 1) j f"
        using True by (subst search_from.simps) (simp add: Let_def)
      have low: "\<not> f x" if "x \<le> ?h" for x
        using 1(3) [OF that] False True 1(5) by fastforce
      have "?h + 1 \<le> j" using True by simp
      then have "?h + 1 \<le> search_from (?h + 1) j f \<and> search_from (?h + 1) j f \<le> j \<and>
          (\<forall>x. ?h + 1 \<le> x \<and> x < search_from (?h + 1) j f \<longrightarrow> \<not> f x) \<and>
          (search_from (?h + 1) j f < j \<longrightarrow> f (search_from (?h + 1) j f))"
        using 1(1) [OF True refl False 1(3) _ 1(5)] by simp
      moreover have "i \<le> ?h + 1" using True by simp
      ultimately show ?thesis unfolding e using low by (metis Suc_eq_plus1 le_trans not_less_eq_eq)
    next
      case hit: True
      then have e: "search_from i j f = search_from i ?h f" using True by (subst search_from.simps) (simp add: Let_def)
      have "i \<le> ?h" "?h \<le> j" "?h \<le> n" using True 1(5) by simp_all
      then have "i \<le> search_from i ?h f \<and> search_from i ?h f \<le> ?h \<and>
          (\<forall>x. i \<le> x \<and> x < search_from i ?h f \<longrightarrow> \<not> f x) \<and> (search_from i ?h f < ?h \<longrightarrow> f (search_from i ?h f))"
        using 1(2) [OF True refl _ 1(3)] hit by simp
      then show ?thesis unfolding e using hit \<open>?h \<le> j\<close> by (cases "search_from i ?h f = ?h") auto
    qed
  next
    case False
    then have "search_from i j f = i" by (subst search_from.simps) simp
    then show ?thesis using 1(4) False by auto
  qed
qed

lemma search_from_cong: "(\<And>x. x < j \<Longrightarrow> f x = g x) \<Longrightarrow> search_from i j f = search_from i j g"
proof (induction i j f rule: search_from.induct)
  case (1 i j f)
  show ?case using 1 by (subst (1 2) search_from.simps) (auto simp: Let_def)
qed

text \<open>On a sorted list the search is the linear search.\<close>

lemma Search_sorted:
  fixes xs :: "u64 list" and h :: u64
  assumes "sorted xs"
  defines "k \<equiv> Search (length xs) (\<lambda>i. h \<le> xs ! i)"
  shows "k \<le> length xs" "\<And>x. x < k \<Longrightarrow> xs ! x < h" "k < length xs \<Longrightarrow> h \<le> xs ! k"
proof -
  have m: "h \<le> xs ! y" if "x \<le> y" "y < length xs" "h \<le> xs ! x" for x y
    using sorted_nth_mono [OF assms(1) that(1,2)] that(3) by simp
  from search_from_spec [of "length xs" "\<lambda>i. h \<le> xs ! i" 0 "length xs", OF m]
  show "k \<le> length xs" "\<And>x. x < k \<Longrightarrow> xs ! x < h" "k < length xs \<Longrightarrow> h \<le> xs ! k"
    by (auto simp: k_def Search_def not_le)
qed

section \<open>Clockwise distance\<close>

lemma unat_cw: "unat ((x :: u64) - h) = (if h \<le> x then unat x - unat h else 2 ^ 64 + unat x - unat h)"
  by (simp add: unat_sub_if_size word_size word_le_nat_alt) arith

lemma cw_after: "h \<le> x \<Longrightarrow> x \<le> y \<Longrightarrow> (x :: u64) - h \<le> y - h"
  by (simp add: word_le_nat_alt unat_cw)

lemma cw_wrap: "h \<le> x \<Longrightarrow> y < h \<Longrightarrow> (x :: u64) - h \<le> y - h"
  using unsigned_less [of x, where ?'a = nat] unsigned_less [of h, where ?'a = nat]
  by (simp add: word_le_nat_alt word_less_nat_alt unat_cw)

lemma cw_before: "x \<le> y \<Longrightarrow> y < h \<Longrightarrow> (x :: u64) - h \<le> y - h"
  by (simp add: word_le_nat_alt word_less_nat_alt unat_cw)

definition owner_index :: "u64 list \<Rightarrow> u64 \<Rightarrow> nat" where
  "owner_index xs h = (let k = Search (length xs) (\<lambda>i. h \<le> xs ! i) in if k = length xs then 0 else k)"

lemma owner_index_closest:
  assumes "sorted xs" and "xs \<noteq> []"
  shows "owner_index xs h < length xs" and "\<And>i. i < length xs \<Longrightarrow> xs ! owner_index xs h - h \<le> xs ! i - h"
proof -
  define k where "k = Search (length xs) (\<lambda>i. h \<le> xs ! i)"
  note s = Search_sorted [OF assms(1), where h = h, folded k_def]
  show "owner_index xs h < length xs" using s(1) assms(2) by (auto simp: owner_index_def Let_def k_def [symmetric])
  fix i assume i: "i < length xs"
  show "xs ! owner_index xs h - h \<le> xs ! i - h"
  proof (cases "k = length xs")
    case True
    then have "xs ! i < h" using s(2) i by simp
    then show ?thesis using True sorted_nth_mono [OF assms(1), of 0 i] i cw_before
      by (simp add: owner_index_def k_def [symmetric])
  next
    case False
    then have k: "k < length xs" "h \<le> xs ! k" "owner_index xs h = k"
      using s(1,3) by (simp_all add: owner_index_def k_def [symmetric])
    show ?thesis
    proof (cases "i < k")
      case True
      then show ?thesis using s(2) k cw_wrap by simp
    next
      case False
      then show ?thesis using sorted_nth_mono [OF assms(1), of k i] i k cw_after by simp
    qed
  qed
qed

section \<open>Who owns a key\<close>

definition positions :: "hash_ring \<Rightarrow> (u64 \<times> string) set" where
  "positions r = (\<lambda>(n, j). (HashFuncSecure (vnode_name n j), n)) ` (SIGMA n : set (nodeList r). {..<effective_weight r n})"

lemma mem_positions:
  "(h, n) \<in> positions r \<longleftrightarrow> n \<in> set (nodeList r) \<and> (\<exists>j < effective_weight r n. h = HashFuncSecure (vnode_name n j))"
  by (auto simp: positions_def)

definition vnode_owner :: "hash_ring \<Rightarrow> vnode \<Rightarrow> string" where
  "vnode_owner r v = nodeList r ! unat (nodeIdx v)"

lemma vnode_positions:
  assumes "ring_inv r"
  shows "(\<lambda>v. (vn_hash v, vnode_owner r v)) ` set (vnodes r) = positions r" and "sorted (map vn_hash (vnodes r))"
    and "v \<in> set (vnodes r) \<Longrightarrow> vnode_owner r v \<in> set (nodeList r)"
proof -
  have t: "tables_ok r" and v: "vnodes r = vnodes (rebuildVnodes r)" using assms by (simp_all add: ring_inv_def)
  note n = tables_node(2) [OF t]
  let ?S = "SIGMA n : set (nodeList r). {..<effective_weight r n}"
  have s: "set (vnodes r) = (\<lambda>(n, j). \<lparr>vn_hash = HashFuncSecure (vnode_name n j), nodeIdx = ring_idx r n\<rparr>) ` ?S"
  proof -
    have "set (vnodes r) = (\<Union>n \<in> set (nodeList r). (\<lambda>j. \<lparr>vn_hash = HashFuncSecure (vnode_name n j), nodeIdx = ring_idx r n\<rparr>) `
        {..<effective_weight r n})"
      unfolding v by (simp add: rebuildVnodes_def lessThan_atLeast0)
    then show ?thesis by force
  qed
  show "(\<lambda>v. (vn_hash v, vnode_owner r v)) ` set (vnodes r) = positions r"
    unfolding s positions_def vnode_owner_def image_image by (rule image_cong) (use n in auto)
  show "v \<in> set (vnodes r) \<Longrightarrow> vnode_owner r v \<in> set (nodeList r)"
    unfolding s vnode_owner_def using n by auto
  show "sorted (map vn_hash (vnodes r))" unfolding v by (simp add: rebuildVnodes_def)
qed

lemma GetNode_index:
  "vnodes r \<noteq> [] \<Longrightarrow>
     GetNode key r = vnode_owner r (vnodes r ! owner_index (map vn_hash (vnodes r)) (HashFuncSecure key))"
proof -
  assume "vnodes r \<noteq> []"
  have "Search (length (vnodes r)) (\<lambda>i. h \<le> vn_hash (vnodes r ! i)) =
      Search (length (vnodes r)) (\<lambda>i. h \<le> map vn_hash (vnodes r) ! i)" for h
    unfolding Search_def by (rule search_from_cong) simp
  then show ?thesis using \<open>vnodes r \<noteq> []\<close> by (simp add: GetNode_def owner_index_def vnode_owner_def Let_def)
qed

lemma GetNode_closest:
  assumes "ring_inv r" and "positions r \<noteq> {}"
  shows "\<exists>p \<in> positions r. GetNode key r = snd p \<and>
    (\<forall>q \<in> positions r. fst p - HashFuncSecure key \<le> fst q - HashFuncSecure key)"
proof -
  let ?h = "HashFuncSecure key" and ?xs = "map vn_hash (vnodes r)"
  note P = vnode_positions [OF assms(1)]
  have ne: "vnodes r \<noteq> []" using assms(2) P(1) by auto
  let ?v = "vnodes r ! owner_index ?xs ?h"
  have i: "owner_index ?xs ?h < length (vnodes r)" using owner_index_closest(1) [OF P(2)] ne by simp
  have "vn_hash ?v - ?h \<le> vn_hash u - ?h" if "u \<in> set (vnodes r)" for u
  proof -
    obtain j where "j < length (vnodes r)" "u = vnodes r ! j" using \<open>u \<in> set (vnodes r)\<close> by (auto simp: in_set_conv_nth)
    then show ?thesis using owner_index_closest(2) [OF P(2), of j ?h] ne i by simp
  qed
  moreover have "?v \<in> set (vnodes r)" using i by simp
  ultimately show ?thesis
    unfolding P(1) [symmetric] GetNode_index [OF ne]
    by (intro bexI [of _ "(vn_hash ?v, vnode_owner r ?v)"]) auto
qed

text \<open>The contract of consistent hashing: the owner of a key is a node with a position closest clockwise.
  It follows that a change of one node's positions moves keys only from or to that node.\<close>

locale consistent_hashing =
  fixes ok :: "'r \<Rightarrow> bool" and pos :: "'r \<Rightarrow> (u64 \<times> 'n) set" and own :: "'k \<Rightarrow> 'r \<Rightarrow> 'n" and hash :: "'k \<Rightarrow> u64"
  assumes closest: "ok r \<Longrightarrow> pos r \<noteq> {} \<Longrightarrow>
    \<exists>p \<in> pos r. own k r = snd p \<and> (\<forall>q \<in> pos r. fst p - hash k \<le> fst q - hash k)"
begin

lemma owner_unique:
  assumes "ok r" and "p \<in> pos r" and "\<forall>q \<in> pos r. fst p - hash k \<le> fst q - hash k"
    and "\<forall>p \<in> pos r. \<forall>q \<in> pos r. fst p = fst q \<longrightarrow> snd p = snd q"
  shows "own k r = snd p"
proof -
  obtain q where q: "q \<in> pos r" "own k r = snd q" "\<forall>p \<in> pos r. fst q - hash k \<le> fst p - hash k"
    using closest [OF assms(1), of k] assms(2) by blast
  then have "fst p - hash k = fst q - hash k" using assms(2,3) by (intro antisym) auto
  then have "fst p = fst q" by simp
  then show ?thesis using assms(4) [rule_format, OF assms(2) q(1)] q(2) by simp
qed

lemma moves_only:
  assumes "ok r" and "ok r'" and "pos r \<noteq> {}" and "pos r' \<noteq> {}"
    and "\<forall>p \<in> pos r \<union> pos r'. \<forall>q \<in> pos r \<union> pos r'. fst p = fst q \<longrightarrow> snd p = snd q"
    and "{p \<in> pos r. snd p \<noteq> n} = {p \<in> pos r'. snd p \<noteq> n}"
  shows "own k r' = own k r \<or> own k r = n \<or> own k r' = n"
proof -
  obtain p where p: "p \<in> pos r" "own k r = snd p" "\<forall>q \<in> pos r. fst p - hash k \<le> fst q - hash k"
    using closest [OF assms(1,3)] by blast
  obtain p' where p': "p' \<in> pos r'" "own k r' = snd p'" "\<forall>q \<in> pos r'. fst p' - hash k \<le> fst q - hash k"
    using closest [OF assms(2,4)] by blast
  show ?thesis
  proof (cases "snd p = n \<or> snd p' = n")
    case False
    then have "p \<in> pos r'" "p' \<in> pos r" using p(1) p'(1) assms(6) by blast+
    then have "fst p - hash k = fst p' - hash k" using p(3) p'(3) by (intro antisym) auto
    then have "fst p = fst p'" by simp
    then have "snd p = snd p'" using assms(5) [rule_format, of p p'] p(1) p'(1) by simp
    then show ?thesis using p(2) p'(2) by simp
  qed (use p(2) p'(2) in auto)
qed

end

interpretation ring: consistent_hashing ring_inv positions GetNode HashFuncSecure
  by unfold_locales (rule GetNode_closest)

text \<open>No two positions of different nodes coincide.\<close>

definition collision_free :: "(u64 \<times> string) set \<Rightarrow> bool" where
  "collision_free P \<longleftrightarrow> (\<forall>p \<in> P. \<forall>q \<in> P. fst p = fst q \<longrightarrow> snd p = snd q)"

datatype ring_op = RAdd string int | RUpdate string int | RRemove string

fun apply_ring_op :: "ring_op \<Rightarrow> hash_ring \<Rightarrow> hash_ring" where
  "apply_ring_op (RAdd n w) r = AddNodeWithWeight n w r"
| "apply_ring_op (RUpdate n w) r = UpdateNodeWeight n w r"
| "apply_ring_op (RRemove n) r = RemoveNode n r"

fun op_node :: "ring_op \<Rightarrow> string" where
  "op_node (RAdd n w) = n"
| "op_node (RUpdate n w) = n"
| "op_node (RRemove n) = n"

lemma ring_op_inv: "ring_inv r \<Longrightarrow> Suc (length (nodeList r)) < 2 ^ 32 \<Longrightarrow> ring_inv (apply_ring_op a r)"
  by (cases a) (simp_all add: AddNodeWithWeight_inv UpdateNodeWeight_inv RemoveNode_inv)

lemma ring_op_others:
  shows "{p \<in> positions r. snd p \<noteq> op_node a} = {p \<in> positions (apply_ring_op a r). snd p \<noteq> op_node a}"
proof -

  have "(h, m) \<in> positions r \<longleftrightarrow> (h, m) \<in> positions (apply_ring_op a r)" if "m \<noteq> op_node a" for h m
    using that by (cases a)
      (auto simp: mem_positions AddNodeWithWeight_def UpdateNodeWeight_def RemoveNode_def effective_weight_def Let_def)
  then show ?thesis by auto
qed

section \<open>Owners\<close>

definition firsts :: "string list \<Rightarrow> string list \<Rightarrow> string list" where
  "firsts acc xs = foldl (\<lambda>acc x. if x \<in> set acc then acc else acc @ [x]) acc xs"

lemma firsts_simps [simp]:
  "firsts acc [] = acc" "firsts acc (x # xs) = firsts (if x \<in> set acc then acc else acc @ [x]) xs"
  by (simp_all add: firsts_def)

lemma firsts_spec: "distinct acc \<Longrightarrow> distinct (firsts acc xs) \<and> set (firsts acc xs) = set acc \<union> set xs \<and> prefix acc (firsts acc xs)"
proof (induction xs arbitrary: acc)
  case (Cons x xs)
  let ?acc = "if x \<in> set acc then acc else acc @ [x]"
  have "distinct ?acc" "prefix acc ?acc" using Cons.prems by auto
  then show ?case using Cons.IH [of ?acc] by (auto intro: prefix_order.trans)
qed simp

text \<open>The nodes met on the way round the circle.\<close>

definition circle :: "hash_ring \<Rightarrow> string \<Rightarrow> string list" where
  "circle r key = map (\<lambda>i. vnode_owner r (vnodes r !
     ((Search (length (vnodes r)) (\<lambda>i. HashFuncSecure key \<le> vn_hash (vnodes r ! i)) + i) mod length (vnodes r)))) [0..<length (vnodes r)]"

lemma owners_loop_firsts:
  "length owners \<le> target \<Longrightarrow> distinct owners \<Longrightarrow> owners_loop r idx target i left owners =
     take target (firsts owners (map (\<lambda>i. vnode_owner r (vnodes r ! ((idx + i) mod length (vnodes r)))) [i..<i + left]))"
proof (induction left arbitrary: i owners)
  case (Suc left)
  let ?node = "vnode_owner r (vnodes r ! ((idx + i) mod length (vnodes r)))"
  have l: "[i..<i + Suc left] = i # [Suc i..<Suc i + left]" by (simp add: upt_conv_Cons)
  show ?case
  proof (cases "length owners < target")
    case True
    then show ?thesis using Suc unfolding l by (auto simp: vnode_owner_def Let_def)
  next
    case False
    then have "length owners = target" using Suc.prems by simp
    then show ?thesis
      using firsts_spec [OF Suc.prems(2), of "map (\<lambda>i. vnode_owner r (vnodes r ! ((idx + i) mod length (vnodes r)))) [i..<i + Suc left]"]
      by (auto simp: prefix_def)
  qed
qed simp

lemma prefix_take_take: "a \<le> b \<Longrightarrow> prefix (take a xs) (take b xs)"
  using take_is_prefix [of a "take b xs"] by (simp add: min_def)

lemma GetOwners_circle:
  assumes "0 < rf" and "vnodes r \<noteq> []" and "nodeList r \<noteq> []"
  shows "GetOwners key rf r = take (nat (min rf (int (length (nodeList r))))) (firsts [] (circle r key))"
proof -
  let ?t = "if rf > int (length (nodeList r)) then int (length (nodeList r)) else rf"
  have "?t = min rf (int (length (nodeList r)))" "0 < ?t" using assms by (auto simp: min_def)
  then show ?thesis
    using assms(2) owners_loop_firsts [of "[]" "nat ?t" r _ 0 "length (vnodes r)"]
    by (simp add: GetOwners_def Let_def circle_def)
qed

lemma round_image:
  assumes "0 < (n :: nat)"
  shows "(\<lambda>i. (k + i) mod n) ` {..<n} = {..<n}"
proof -
  have "x \<in> (\<lambda>i. (k + i) mod n) ` {..<n}" if "x < n" for x
  proof
    have "(k + (x + (n - k mod n)) mod n) mod n = (k mod n + (x + (n - k mod n))) mod n" by (simp add: mod_simps)
    also have "k mod n + (x + (n - k mod n)) = x + n" using mod_less_divisor [OF assms, of k] by linarith
    finally show "x = (k + (x + (n - k mod n)) mod n) mod n" using that by simp
    show "(x + (n - k mod n)) mod n \<in> {..<n}" using assms by simp
  qed
  then show ?thesis using assms by auto
qed

lemma set_circle: "set (circle r key) = vnode_owner r ` set (vnodes r)"
proof (cases "vnodes r = []")
  case False
  let ?n = "length (vnodes r)" and ?k = "Search (length (vnodes r)) (\<lambda>i. HashFuncSecure key \<le> vn_hash (vnodes r ! i))"
  have "set (circle r key) = (\<lambda>i. vnode_owner r (vnodes r ! i)) ` ((\<lambda>i. (?k + i) mod ?n) ` {..<?n})"
    by (simp add: circle_def image_image atLeast0LessThan)
  also have "\<dots> = (\<lambda>i. vnode_owner r (vnodes r ! i)) ` {..<?n}" using round_image [of ?n ?k] False by simp
  also have "\<dots> = vnode_owner r ` set (vnodes r)" by (auto simp: set_conv_nth)
  finally show ?thesis .
qed (simp add: circle_def)

lemma GetOwners_members:
  assumes "ring_inv r"
  shows "distinct (GetOwners key rf r)" "set (GetOwners key rf r) \<subseteq> set (nodeList r)"
proof -
  note P = vnode_positions [OF assms]
  have f: "distinct (firsts [] (circle r key))" "set (firsts [] (circle r key)) \<subseteq> set (nodeList r)"
    using firsts_spec [of "[]" "circle r key"] P(3) by (auto simp: set_circle)
  have "distinct (GetOwners key rf r) \<and> set (GetOwners key rf r) \<subseteq> set (nodeList r)"
  proof (cases "0 < rf \<and> vnodes r \<noteq> [] \<and> nodeList r \<noteq> []")
    case True
    then show ?thesis using f by (auto simp: GetOwners_circle dest: in_set_takeD)
  next
    case False
    then show ?thesis by (auto simp: GetOwners_def Let_def)
  qed
  then show "distinct (GetOwners key rf r)" "set (GetOwners key rf r) \<subseteq> set (nodeList r)" by blast+
qed

lemma circle_first:
  assumes "ring_inv r" and "vnodes r \<noteq> []"
  shows "circle r key = GetNode key r # tl (circle r key)"
proof -
  let ?n = "length (vnodes r)"
  let ?k = "Search ?n (\<lambda>i. HashFuncSecure key \<le> vn_hash (vnodes r ! i))"
  have "?k = Search ?n (\<lambda>i. HashFuncSecure key \<le> map vn_hash (vnodes r) ! i)" unfolding Search_def by (rule search_from_cong) simp
  then have "?k \<le> ?n" using Search_sorted(1) [OF vnode_positions(2) [OF assms(1)], of "HashFuncSecure key"] by simp
  then have "?k mod ?n = (if ?k = ?n then 0 else ?k)" by auto
  then have "GetNode key r = vnode_owner r (vnodes r ! ((?k + 0) mod ?n))"
    using assms(2) by (simp add: GetNode_def vnode_owner_def Let_def)
  then show ?thesis using assms(2) by (simp add: circle_def upt_conv_Cons)
qed

section \<open>Properties\<close>

text \<open>C10. Consistent hashing. Whatever is done to one node of a proper ring (added, removed, re-weighted), the
  ring stays proper, and a key whose owner changes had that node as its owner or has it now, provided
  no two nodes have a virtual node at the same hash and the ring has virtual nodes before and after.\<close>

theorem ring_moves_only:
  assumes "ring_inv r" and "Suc (length (nodeList r)) < 2 ^ 32"
    and "vnodes r \<noteq> []" and "vnodes (apply_ring_op a r) \<noteq> []"
    and "collision_free (positions r \<union> positions (apply_ring_op a r))"
  shows "ring_inv (apply_ring_op a r) \<and>
    (GetNode key (apply_ring_op a r) = GetNode key r \<or> GetNode key r = op_node a \<or> GetNode key (apply_ring_op a r) = op_node a)"
proof -
  have i: "ring_inv (apply_ring_op a r)" by (rule ring_op_inv [OF assms(1,2)])
  have ne: "positions r \<noteq> {}" "positions (apply_ring_op a r) \<noteq> {}"
    using assms(3,4) vnode_positions(1) [OF assms(1)] vnode_positions(1) [OF i] by auto
  from ring.moves_only [OF assms(1) i ne assms(5) [unfolded collision_free_def] ring_op_others] i
  show ?thesis by blast
qed


definition demo_ring :: hash_ring where
  "demo_ring = AddNodeWithWeight ''a'' 1 NewHashRing"

lemma demo_ring_eq:
  "demo_ring = \<lparr>ring_nodes = [''a'' \<mapsto> 0], ring_weights = [''a'' \<mapsto> 1], nodeList = [''a''],
     vnodes = [\<lparr>vn_hash = HashFuncSecure (vnode_name ''a'' 0), nodeIdx = 0\<rparr>]\<rparr>"
  by (simp add: demo_ring_def AddNodeWithWeight_def NewHashRing_def rebuildVnodes_def effective_weight_def ring_idx_def)

lemma demo_ring_inv: "ring_inv demo_ring"
  unfolding demo_ring_def using AddNodeWithWeight_inv [OF NewHashRing_inv] by (simp add: NewHashRing_def)

theorem ring_moves_only_witness:
  "GetNode ''key'' (UpdateNodeWeight ''a'' 2 demo_ring) = GetNode ''key'' demo_ring \<or> GetNode ''key'' demo_ring = ''a'' \<or>
    GetNode ''key'' (UpdateNodeWeight ''a'' 2 demo_ring) = ''a''"
proof -
  have v: "vnodes demo_ring \<noteq> []" by (simp add: demo_ring_eq)
  have v': "vnodes (UpdateNodeWeight ''a'' 2 demo_ring) \<noteq> []"
  proof -
    have "length (vnodes (UpdateNodeWeight ''a'' 2 demo_ring)) = 2"
      by (simp add: demo_ring_eq UpdateNodeWeight_def rebuildVnodes_def effective_weight_def)
    then show ?thesis by auto
  qed
  have "nodeList (UpdateNodeWeight ''a'' 2 demo_ring) = [''a'']" by (simp add: demo_ring_eq UpdateNodeWeight_def)
  then have "collision_free (positions demo_ring \<union> positions (UpdateNodeWeight ''a'' 2 demo_ring))"
    by (auto simp: collision_free_def mem_positions demo_ring_eq)
  then show ?thesis
    using ring_moves_only [OF demo_ring_inv _ v, of "RUpdate ''a'' 2"] v' by (simp add: demo_ring_eq)
qed

text \<open>C32. The replicas of a key. On a proper ring with virtual nodes and a positive replication factor, the
  owners are different member nodes, the first is the node \<open>GetNode\<close> names, their number is the
  replication factor or, if that is less, the number of nodes with virtual nodes, and a larger factor
  only adds nodes at the end.\<close>

theorem GetOwners_replicas:
  assumes "ring_inv r" and "0 < rf" and "vnodes r \<noteq> []"
  shows "distinct (GetOwners key rf r) \<and> set (GetOwners key rf r) \<subseteq> set (nodeList r) \<and>
    length (GetOwners key rf r) = min (nat rf) (card (snd ` positions r)) \<and>
    hd (GetOwners key rf r) = GetNode key r \<and> (\<forall>rf' \<ge> rf. prefix (GetOwners key rf r) (GetOwners key rf' r))"
proof -
  let ?n = "length (vnodes r)" and ?f = "firsts [] (circle r key)"
  note P = vnode_positions [OF assms(1)]
  have nl: "nodeList r \<noteq> []" using assms(3) P(3) by (cases "vnodes r") fastforce+
  have eq: "GetOwners key rf' r = take (nat (min rf' (int (length (nodeList r))))) ?f" if "0 < rf'" for rf'
    using GetOwners_circle [OF that assms(3) nl] .
  have f: "distinct ?f" "set ?f = vnode_owner r ` set (vnodes r)" using firsts_spec [of "[]" "circle r key"] by (simp_all add: set_circle)
  have own: "vnode_owner r ` set (vnodes r) = snd ` positions r" unfolding P(1) [symmetric] by (simp add: image_image)
  have sub: "vnode_owner r ` set (vnodes r) \<subseteq> set (nodeList r)" using P(3) by auto
  have d: "distinct (nodeList r)" using assms(1) by (simp add: ring_inv_def tables_ok_def)
  have len: "length ?f = card (snd ` positions r)" using f distinct_card [of ?f] own by simp
  have le: "length ?f \<le> length (nodeList r)" using f sub distinct_card [OF f(1)] distinct_card [OF d] card_mono [OF _ sub] by simp
  have "circle r key = GetNode key r # tl (circle r key)" by (rule circle_first [OF assms(1,3)])
  then have "prefix [GetNode key r] ?f" using firsts_spec [of "[GetNode key r]" "tl (circle r key)"] by (metis distinct_singleton firsts_simps(2) append_Nil empty_iff list.set(1))
  then have hd: "hd (take (Suc n) ?f) = GetNode key r" for n by (auto simp: prefix_def)
  have t: "nat (min rf (int (length (nodeList r)))) = Suc (nat (min rf (int (length (nodeList r)))) - 1)" using assms(2) nl by simp
  have "hd (GetOwners key rf r) = GetNode key r" unfolding eq [OF assms(2)] by (subst t) (rule hd)
  moreover have "length (GetOwners key rf r) = min (nat rf) (card (snd ` positions r))"
    using le len by (simp add: eq [OF assms(2)] min_def)
  moreover have "prefix (GetOwners key rf r) (GetOwners key rf' r)" if "rf \<le> rf'" for rf'
  proof -
    have "nat (min rf (int (length (nodeList r)))) \<le> nat (min rf' (int (length (nodeList r))))"
      using that by (intro nat_mono min.mono) simp_all
    then show ?thesis using eq [of rf] eq [of rf'] assms(2) that by (simp add: prefix_take_take)
  qed
  ultimately show ?thesis using GetOwners_members [OF assms(1)] by blast
qed


theorem GetOwners_replicas_witness: "length (GetOwners ''key'' 3 demo_ring) = 1 \<and> hd (GetOwners ''key'' 3 demo_ring) = GetNode ''key'' demo_ring"
proof -
  have "snd ` positions demo_ring = {''a''}"
    by (simp add: positions_def demo_ring_eq effective_weight_def image_image Sigma_def image_UN lessThan_Suc)
  then show ?thesis using GetOwners_replicas [OF demo_ring_inv, of 3 "''key''"] by (simp add: demo_ring_eq)
qed

end
