(* ===== verification/Progress.thy ===== *)
theory Progress
  imports Engine
begin

text \<open>
  That the engine's operations return. \<open>Now\<close> and \<open>Update\<close> retry while the logical counter of the
  clock is exhausted and the wall clock stands still, so an operation returns only if the wall clock
  moves. The condition \<open>paced\<close> on the readings the operations take says that it does: each call sees a
  reading past everything the clock has absorbed.
\<close>

section \<open>Readings\<close>

definition phys :: "clock \<Rightarrow> nat" where
  "phys c = unat (state c) div 65536"

text \<open>The first millisecond past \<open>a\<close> and all readings \<open>ts\<close>.\<close>

definition past :: "nat \<Rightarrow> i64 list \<Rightarrow> nat" where
  "past a ts = fold (\<lambda>t b. max (Suc (unat (sample_ms t))) b) ts a"

fun paced :: "nat \<Rightarrow> op_input list \<Rightarrow> bool" where
  "paced a [] \<longleftrightarrow> True"
| "paced a (i # is) \<longleftrightarrow>
     (\<exists>t \<in> set (in_now i). a \<le> unat (sample_ms t)) \<and>
     (\<exists>t \<in> set (in_upd i). past a (in_now i) \<le> unat (sample_ms t)) \<and>
     paced (past (past a (in_now i)) (in_upd i)) is"

lemma past_ge: "a \<le> past a ts"
  unfolding past_def
proof (induction ts arbitrary: a)
  case (Cons t ts)
  show ?case using order.trans [OF max.cobounded2 Cons [of "max (Suc (unat (sample_ms t))) a"]] by simp
qed simp

lemma past_reading: "t \<in> set ts \<Longrightarrow> unat (sample_ms t) < past a ts"
proof (induction ts arbitrary: a)
  case (Cons u ts)
  have "unat (sample_ms u) < past a (u # ts)"
    using past_ge [of "max (Suc (unat (sample_ms u))) a" ts] by (simp add: past_def)
  moreover have "past a (u # ts) = past (max (Suc (unat (sample_ms u))) a) ts" by (simp add: past_def)
  ultimately show ?case using Cons by auto
qed simp

lemma Now_late:
  assumes "t \<in> set ts" and "phys c < unat (sample_ms t)"
  shows "\<exists>r c'. Now ts c = Some (r, c')"
proof -
  have "now_attempt (sample_ms t) (state c) \<noteq> Sleep" using assms(2) by (simp add: now_attempt_unat phys_def)
  then have "Now ts c \<noteq> None"
    using assms(1) by (cases ts) (auto simp: Now_def Now_loop_None_iff)
  then show ?thesis by auto
qed

lemma Now_phys:
  assumes "Now ts c = Some (r, c')" and "\<not> saturated c" and "phys c < a"
  shows "phys c' < past a ts \<and> state c' = r"
proof -
  obtain t where t: "t \<in> set ts" "now_attempt (sample_ms t) (state c) = Swap r" "c' = c\<lparr>state := r\<rparr>"
    using Now_cases [OF assms(1,2)] by blast
  have "phys c' = max (phys c) (unat (sample_ms t))"
    using now_attempt_phys [OF t(2) sample_ms_bound] t(3) by (simp add: phys_def)
  then show ?thesis using past_reading [OF t(1), of a] past_ge [of a ts] assms(3) t(3) by simp
qed

lemma Update_loop_None:
  assumes "Update_loop r now ts c = None" and "n \<in> insert now (sample_ms ` set ts)"
  shows "upd_attempt r n (state c) = Sleep"
  using assms
proof (induction ts arbitrary: now)
  case Nil
  then show ?case by (auto simp: Update_loop.simps [of r now "[]"] split: cas_plan.splits)
next
  case (Cons t ts)
  then show ?case
    by (cases "upd_attempt r now (state c)") (auto simp: Update_loop.simps [of r now "t # ts"])
qed

lemma Update_late:
  assumes "t \<in> set ts" and "phys c < unat (sample_ms t)" and "unat r div 65536 < unat (sample_ms t)"
  shows "\<exists>c'. Update r ts c = Some c'"
proof (rule ccontr)
  assume "\<nexists>c'. Update r ts c = Some c'"
  then obtain t0 ts' where ts: "ts = t0 # ts'" "Update_loop r (sample_ms t0) ts' c = None"
    using assms(1) by (cases ts) (auto simp: Update_def Let_def split: if_splits)
  have "sample_ms t \<in> insert (sample_ms t0) (sample_ms ` set ts')" using assms(1) ts(1) by auto
  then have "upd_attempt r (sample_ms t) (state c) = Sleep" by (rule Update_loop_None [OF ts(2)])
  moreover have "drop_bit logicalBits r < sample_ms t" "drop_bit logicalBits (state c) < sample_ms t"
    using assms by (simp_all add: word_less_nat_alt clock_unat phys_def)
  ultimately show False by (auto simp: upd_attempt_def Let_def max_def split: if_splits)
qed

lemma Update_phys:
  assumes "Update r ts c = Some c'" and "\<not> saturated c" and "phys c < a" and "unat r div 65536 < a"
    and "unat r < 9223372036854775808"
  shows "phys c' < past a ts"
proof (cases "\<exists>t ts'. ts = t # ts' \<and> accepted r t")
  case True
  then obtain t v where t: "t \<in> set ts" "upd_attempt r (sample_ms t) (state c) = Swap v" "c' = c\<lparr>state := v\<rparr>"
    using Update_cases [of r _ _ c c'] assms(1,2) by blast
  have "phys c' = max (phys c) (max (unat r div 65536) (unat (sample_ms t)))"
    using upd_attempt_Swap(4) [OF t(2) sample_ms_bound assms(5)] t(3) by (simp add: phys_def)
  then show ?thesis using past_reading [OF t(1), of a] past_ge [of a ts] assms(3,4) by simp
next
  case False
  then have "c' = c" using assms(1)
    by (cases ts) (simp_all add: Update_rejected Update_def [of _ "[]"] split: if_splits)
  then show ?thesis using past_ge [of a ts] assms(3) by simp
qed

text \<open>A write with a stamp of the engine's own clock: what \<open>Set\<close> and \<open>Delete\<close> share.\<close>

lemma local_write_returns:
  assumes "sw_inv E sw" and "phys (sw_clock sw) < a" and "\<forall>t \<in> set ts1 \<union> set ts2. sample_ms t < maxPhysical"
    and "\<exists>t \<in> set ts1. a \<le> unat (sample_ms t)" and "\<exists>t \<in> set ts2. past a ts1 \<le> unat (sample_ms t)"
  obtains r c where "Now ts1 (sw_clock sw) = Some (r, c)"
    and "\<And>m. is_req m \<Longrightarrow> msg_timestamp m = r \<Longrightarrow> \<exists>e sw'. Apply E C ts2 m (sw\<lparr>sw_clock := c\<rparr>) = Some (e, sw') \<and>
      phys (sw_clock sw') < past (past a ts1) ts2"
proof -
  note inv = sw_invD [OF assms(1)]
  obtain r c where n: "Now ts1 (sw_clock sw) = Some (r, c)"
    using Now_late [of _ ts1 "sw_clock sw"] assms(2,4) by (metis order.strict_trans2)
  have c: "phys c < past a ts1" "state c = r" using Now_phys [OF n inv(4) assms(2)] by simp_all
  have w: "clock_wf c" "\<not> saturated c" using Now_below_ceiling [OF n inv(3,4)] assms(3) by auto
  have r: "unat r div 65536 < past a ts1" "unat r < 9223372036854775808"
    using c w(1) by (simp_all add: phys_def clock_wf_def)
  obtain c' where u: "Update r ts2 c = Some c'"
    using Update_late [of _ ts2 c r] assms(5) c(1) r(1) by (metis order.strict_trans2)
  have p: "phys c' < past (past a ts1) ts2" by (rule Update_phys [OF u w(2) c(1) r])
  show thesis
  proof (rule that [OF n])
    fix m
    assume m: "is_req m" "msg_timestamp m = r"
    obtain e sw' where a: "Apply E C ts2 m (sw\<lparr>sw_clock := c\<rparr>) = Some (e, sw')"
      using Apply_total [OF m(1), of ts2 "sw\<lparr>sw_clock := c\<rparr>" c' E C] u m(2) by auto
    have "replica_inv E (sw_hm (sw\<lparr>sw_clock := c\<rparr>))" using inv(1) by simp
    from this m(1) a have "sw_clock sw' = c'"
      by (cases rule: Apply_cases) (use u m(2) in auto)
    then show "\<exists>e sw'. Apply E C ts2 m (sw\<lparr>sw_clock := c\<rparr>) = Some (e, sw') \<and> phys (sw_clock sw') < past (past a ts1) ts2"
      using a p by blast
  qed
qed

section \<open>Operations\<close>

definition eng_phys :: "'t engine \<Rightarrow> nat" where
  "eng_phys eng = phys (sw_clock (eng_sw eng))"

lemma Set_returns:
  assumes "eng_inv E eng" and "eng_phys eng < a" and "ok_readings i" and "paced a [i]"
  shows "\<exists>e eng'. Set_key E C (in_now i) (in_upd i) rnd k v eng = Some (e, eng') \<and>
    eng_phys eng' < past (past a (in_now i)) (in_upd i)"
proof -
  have t: "\<forall>t \<in> set (in_now i) \<union> set (in_upd i). sample_ms t < maxPhysical"
    using assms(3) by (auto simp: ok_readings_def)
  obtain r c where n: "Now (in_now i) (sw_clock (eng_sw eng)) = Some (r, c)"
    and w: "\<And>m. is_req m \<Longrightarrow> msg_timestamp m = r \<Longrightarrow> \<exists>e sw'. Apply E C (in_upd i) m ((eng_sw eng)\<lparr>sw_clock := c\<rparr>) = Some (e, sw') \<and>
      phys (sw_clock sw') < past (past a (in_now i)) (in_upd i)"
    by (rule local_write_returns [OF assms(1) [unfolded eng_inv_def] assms(2) [unfolded eng_phys_def] t, of C])
      (use assms(4) in auto)
  show ?thesis
    using w [of "MsgSet \<lparr>set_key = k, set_value = v, set_timestamp = r, set_node = eng_node eng\<rparr>"] n
    by (auto simp: Set_key_def Let_def eng_phys_def)
qed

lemma Delete_returns:
  assumes "eng_inv E eng" and "eng_phys eng < a" and "ok_readings i" and "paced a [i]"
  shows "\<exists>hit e eng'. Delete E C (in_now i) (in_upd i) k eng = Some (hit, e, eng') \<and>
    eng_phys eng' < past (past a (in_now i)) (in_upd i)"
proof (cases "case Load E k (HashFunc E k) (sw_hm (eng_sw eng)) of None \<Rightarrow> True | Some iv \<Rightarrow> Tombstone iv")
  case True
  then show ?thesis
    using assms(2) past_ge [of a "in_now i"] past_ge [of "past a (in_now i)" "in_upd i"]
    by (auto simp: Delete_def)
next
  case False
  have t: "\<forall>t \<in> set (in_now i) \<union> set (in_upd i). sample_ms t < maxPhysical"
    using assms(3) by (auto simp: ok_readings_def)
  obtain r c where n: "Now (in_now i) (sw_clock (eng_sw eng)) = Some (r, c)"
    and w: "\<And>m. is_req m \<Longrightarrow> msg_timestamp m = r \<Longrightarrow> \<exists>e sw'. Apply E C (in_upd i) m ((eng_sw eng)\<lparr>sw_clock := c\<rparr>) = Some (e, sw') \<and>
      phys (sw_clock sw') < past (past a (in_now i)) (in_upd i)"
    by (rule local_write_returns [OF assms(1) [unfolded eng_inv_def] assms(2) [unfolded eng_phys_def] t, of C])
      (use assms(4) in auto)
  show ?thesis
    using w [of "MsgDelete \<lparr>del_key = k, del_timestamp = r, del_node = eng_node eng\<rparr>"] n False
    by (auto simp: Delete_def Let_def eng_phys_def)
qed

lemma Get_clock: "eng_sw (snd (Get E rnd k eng)) = eng_sw eng"
  by (auto simp: Get_def Let_def split: option.splits if_splits)

lemma Evict_returns:
  assumes "eng_inv E eng" and "eng_phys eng < a" and "\<exists>t \<in> set ts. a \<le> unat (sample_ms t)"
  shows "\<exists>e eng'. Evict_key E C ts k reason eng = Some (e, eng') \<and> eng_phys eng' < past a ts"
proof -
  note inv = sw_invD [OF assms(1) [unfolded eng_inv_def]]
  obtain r c where n: "Now ts (sw_clock (eng_sw eng)) = Some (r, c)"
    using Now_late [of _ ts "sw_clock (eng_sw eng)"] assms(2,3) by (metis eng_phys_def order.strict_trans2)
  have "phys c < past a ts" using Now_phys [OF n inv(4)] assms(2) by (simp add: eng_phys_def)
  then show ?thesis using n by (auto simp: Evict_key_def Let_def eng_phys_def split: prod.splits)
qed

lemma exec_returns:
  assumes "eng_inv E eng" and "eng_phys eng < a" and "ok_readings i" and "paced a [i]"
  shows "\<exists>out eng'. exec_engine E C i op eng = Some (out, eng') \<and> eng_phys eng' < past (past a (in_now i)) (in_upd i)"
proof (cases op)
  case (OpGet k)
  obtain v eng' where g: "Get E (in_rand i) k eng = (v, eng')" by (cases "Get E (in_rand i) k eng")
  have "eng_phys eng' < past (past a (in_now i)) (in_upd i)"
    using Get_clock [of E "in_rand i" k eng] g assms(2) past_ge [of a "in_now i"] past_ge [of "past a (in_now i)" "in_upd i"]
    by (simp add: eng_phys_def)
  then show ?thesis using g OpGet by simp
next
  case (OpSet k v)
  then show ?thesis using Set_returns [OF assms, of C "in_rand i" k v] by auto
next
  case (OpDelete k)
  then show ?thesis using Delete_returns [OF assms, of C k] by auto
next
  case (OpEvict k r)
  have "\<exists>t \<in> set (in_now i). a \<le> unat (sample_ms t)" using assms(4) by simp
  from Evict_returns [OF assms(1,2) this, of C k r]
  obtain e eng' where "Evict_key E C (in_now i) k r eng = Some (e, eng')" "eng_phys eng' < past a (in_now i)" by blast
  then show ?thesis using OpEvict past_ge [of "past a (in_now i)" "in_upd i"] by auto
qed

section \<open>Properties\<close>

text \<open>C15. Operations on the engine return when the wall clock moves. If the clock is ahead of what is stored,
  the readings stay below the ceiling of the timestamp format, and in every operation \<open>Now\<close> and
  \<open>Update\<close> each come to see a reading past everything the clock has absorbed before, then any
  sequence of operations runs to its end.\<close>

theorem engine_returns:
  assumes "eng_inv E eng" and "eng_phys eng < a" and "\<forall>x \<in> set xs. ok_readings (fst x)" and "paced a (map fst xs)"
  shows "\<exists>outs eng'. run_engine E C xs eng = Some (outs, eng')"
  using assms
proof (induction xs arbitrary: a eng)
  case (Cons x xs)
  obtain out eng1 where e: "exec_engine E C (fst x) (snd x) eng = Some (out, eng1)"
    "eng_phys eng1 < past (past a (in_now (fst x))) (in_upd (fst x))"
    using exec_returns [of E eng a "fst x" C "snd x"] Cons.prems by auto
  have "eng_inv E eng1" using oryx.exec_inv [OF Cons.prems(1) _ e(1)] Cons.prems(3) by simp
  from Cons.IH [OF this e(2)] Cons.prems(3,4) obtain outs eng' where "run_engine E C xs eng1 = Some (outs, eng')" by auto
  then show ?case using e(1) by simp
qed simp

theorem engine_returns_witness:
  "\<exists>outs eng'. run_engine demo_env demo_codec
     [(\<lparr>in_now = [1], in_upd = [2], in_rand = (0, 0)\<rparr>, OpSet ''k'' (Some ''v'')),
      (\<lparr>in_now = [2, 3], in_upd = [4], in_rand = (0, 0)\<rparr>, OpDelete ''k'')] demo_engine = Some (outs, eng')"
proof (rule engine_returns [OF demo_engine_inv, of 1])
  show "eng_phys demo_engine < 1"
    by (simp add: eng_phys_def phys_def demo_engine_def demo_storage_def NewStorageWriter_def NewClock_def)
  have s: "unat (sample_ms 1) = 1" "unat (sample_ms 2) = 2" "unat (sample_ms 3) = 3" "unat (sample_ms 4) = 4"
    by code_simp+
  then show "\<forall>x \<in> set [(\<lparr>in_now = [1], in_upd = [2], in_rand = (0, 0)\<rparr>, OpSet ''k'' (Some ''v'')),
      (\<lparr>in_now = [2, 3], in_upd = [4], in_rand = (0, 0)\<rparr>, OpDelete ''k'')]. ok_readings (fst x)"
    by (simp add: ok_readings_def word_less_nat_alt)
  show "paced 1 (map fst [(\<lparr>in_now = [1], in_upd = [2], in_rand = (0, 0)\<rparr>, OpSet ''k'' (Some ''v'')),
      (\<lparr>in_now = [2, 3], in_upd = [4], in_rand = (0, 0)\<rparr>, OpDelete ''k'')])"
    using s by (simp add: past_def)
qed

end
