(* ===== verification/Resp.thy ===== *)
theory Resp
  imports Progress
begin

text \<open>
  The Redis protocol server of \<open>src/server/resp.go\<close>: parsing request frames out of the bytes a
  connection delivers, dispatching commands to the database, and rendering replies. The network
  library is not part of the repository; what the handler gets from it is the argument \<open>data\<close>, all
  bytes received so far, which it thereby takes over. The database is a record of operations, as the
  interface \<open>oryx.Database\<close> has them; an operation that does not return has the value \<open>None\<close>.

  The lemmas show that frames round-trip and that a prefix of a frame is never taken for one, that
  replies are those of a plain map, and what happens to a frame that arrives in two pieces.
\<close>

section \<open>Replies\<close>

definition CR :: char where
  "CR = CHR 0x0D"

definition LF :: char where
  "LF = CHR 0x0A"

definition crlfBytes :: bytes where
  "crlfBytes = [CR, LF]"

definition respOK :: bytes where
  "respOK = ''+OK'' @ crlfBytes"

definition respPONG :: bytes where
  "respPONG = ''+PONG'' @ crlfBytes"

definition respNil :: bytes where
  "respNil = ''$-1'' @ crlfBytes"

definition respZeroInt :: bytes where
  "respZeroInt = '':0'' @ crlfBytes"

definition respOneInt :: bytes where
  "respOneInt = '':1'' @ crlfBytes"

definition respErrCmd :: bytes where
  "respErrCmd = ''-ERR unknown command'' @ crlfBytes"

definition respErrArgs :: bytes where
  "respErrArgs = ''-ERR wrong number of arguments'' @ crlfBytes"

definition respErrEmpty :: bytes where
  "respErrEmpty = ''-ERR empty command'' @ crlfBytes"

definition respErr :: "string \<Rightarrow> bytes" where
  "respErr err = ''-ERR '' @ err @ crlfBytes"

definition appendBulkBytes :: "bytes \<Rightarrow> goslice \<Rightarrow> bytes" where
  "appendBulkBytes out val = out @ ''$'' @ itoa (slice_len val) @ crlfBytes @ slice_bytes val @ crlfBytes"

definition appendInt :: "bytes \<Rightarrow> nat \<Rightarrow> bytes" where
  "appendInt out val = out @ '':'' @ itoa val @ crlfBytes"

section \<open>Parsing\<close>

definition maxArgs :: nat where
  "maxArgs = 1024"

definition maxInt :: nat where
  "maxInt = 2 ^ 63 - 1"

fun index_byte :: "char \<Rightarrow> bytes \<Rightarrow> nat option" where
  "index_byte c [] = None"
| "index_byte c (x # xs) = (if x = c then Some 0 else map_option Suc (index_byte c xs))"

definition subslice :: "nat \<Rightarrow> nat \<Rightarrow> 'a list \<Rightarrow> 'a list" where
  "subslice i j xs = drop i (take j xs)"

fun parse_digits :: "nat \<Rightarrow> bytes \<Rightarrow> nat option" where
  "parse_digits n [] = Some n"
| "parse_digits n (c # cs) =
     (case digit_value c of
        None \<Rightarrow> None
      | Some d \<Rightarrow> if n > (maxInt - d) div 10 then None else parse_digits (n * 10 + d) cs)"

definition parseFastInt :: "bytes \<Rightarrow> nat option" where
  "parseFastInt b = (if b = [] then None else parse_digits 0 b)"

fun parse_args :: "nat \<Rightarrow> nat \<Rightarrow> bytes list \<Rightarrow> bytes \<Rightarrow> (bytes list \<times> nat) option" where
  "parse_args 0 read argBuf data = Some (argBuf, read)"
| "parse_args (Suc n) read argBuf data =
     (if read \<ge> length data \<or> data ! read \<noteq> CHR ''$'' then None
      else case index_byte LF (drop read data) of
        None \<Rightarrow> None
      | Some crlfIdx \<Rightarrow>
          if crlfIdx < 2 \<or> data ! (read + crlfIdx - 1) \<noteq> CR then None
          else case parseFastInt (subslice (read + 1) (read + crlfIdx - 1) data) of
            None \<Rightarrow> None
          | Some bulkLen \<Rightarrow>
              (let bulkStart = read + crlfIdx + 1 in
               if length data - bulkStart < 2 \<or> bulkLen > length data - bulkStart - 2 then None
               else
                 (let bulkEnd = bulkStart + bulkLen in
                  if data ! bulkEnd \<noteq> CR \<or> data ! (bulkEnd + 1) \<noteq> LF then None
                  else parse_args n (bulkEnd + 2) (argBuf @ [subslice bulkStart bulkEnd data]) data)))"

definition parseRESPFrame :: "bytes \<Rightarrow> (bytes list \<times> nat) option" where
  "parseRESPFrame data =
     (if length data = 0 then None
      else if data ! 0 \<noteq> CHR ''*'' then None
      else case index_byte LF data of
        None \<Rightarrow> None
      | Some idx \<Rightarrow>
          if idx < 2 \<or> data ! (idx - 1) \<noteq> CR then None
          else case parseFastInt (subslice 1 (idx - 1) data) of
            None \<Rightarrow> None
          | Some numArgs \<Rightarrow>
              if numArgs > maxArgs then None else parse_args numArgs (idx + 1) [] data)"

section \<open>Dispatch\<close>

record 's database =
  db_Get :: "string \<Rightarrow> 's \<Rightarrow> (goslice option \<times> 's) option"
  db_Set :: "string \<Rightarrow> goslice \<Rightarrow> 's \<Rightarrow> (string option \<times> 's) option"
  db_Delete :: "string \<Rightarrow> 's \<Rightarrow> (bool \<times> string option \<times> 's) option"

text \<open>\<open>bytes.EqualFold\<close> against a word of ASCII letters of the same length: only ASCII case matters, since
  every other letter that folds to one of these takes more than one byte.\<close>

definition to_lower :: "char \<Rightarrow> char" where
  "to_lower c = (if 65 \<le> (of_char c :: nat) \<and> (of_char c :: nat) \<le> 90 then char_of ((of_char c :: nat) + 32) else c)"

definition EqualFold :: "bytes \<Rightarrow> bytes \<Rightarrow> bool" where
  "EqualFold a b \<longleftrightarrow> map to_lower a = map to_lower b"

fun del_keys :: "'s database \<Rightarrow> bytes list \<Rightarrow> nat \<Rightarrow> 's \<Rightarrow> ((string + nat) \<times> 's) option" where
  "del_keys db [] count s = Some (Inr count, s)"
| "del_keys db (k # ks) count s =
     (case db_Delete db k s of
        None \<Rightarrow> None
      | Some (existed, Some err, s') \<Rightarrow> Some (Inl err, s')
      | Some (existed, None, s') \<Rightarrow> del_keys db ks (if existed then count + 1 else count) s')"

definition dispatchToBuffer :: "'s database \<Rightarrow> bytes list \<Rightarrow> bytes \<Rightarrow> 's \<Rightarrow> (bytes \<times> 's) option" where
  "dispatchToBuffer db args out s =
     (if args = [] then Some (out @ respErrEmpty, s)
      else
        (let cmd = args ! 0 in
         if length cmd = 3 \<and> EqualFold cmd ''GET'' then
           if length args \<noteq> 2 then Some (out @ respErrArgs, s)
           else map_option (\<lambda>(val, s'). (case val of None \<Rightarrow> out @ respNil | Some v \<Rightarrow> appendBulkBytes out v, s'))
                  (db_Get db (args ! 1) s)
         else if length cmd = 3 \<and> EqualFold cmd ''SET'' then
           if length args \<noteq> 3 then Some (out @ respErrArgs, s)
           else map_option (\<lambda>(err, s'). (out @ (case err of Some e \<Rightarrow> respErr e | None \<Rightarrow> respOK), s'))
                  (db_Set db (args ! 1) (Some (args ! 2)) s)
         else if length cmd = 3 \<and> EqualFold cmd ''DEL'' then
           if length args < 2 then Some (out @ respErrArgs, s)
           else map_option (\<lambda>(r, s'). (case r of Inl e \<Rightarrow> out @ respErr e | Inr count \<Rightarrow> appendInt out count, s'))
                  (del_keys db (drop 1 args) 0 s)
         else if length cmd = 4 \<and> EqualFold cmd ''PING'' then
           Some (if length args > 1 then appendBulkBytes out (Some (args ! 1)) else out @ respPONG, s)
         else if length cmd = 4 \<and> EqualFold cmd ''ECHO'' then
           Some (if length args < 2 then out @ respNil else appendBulkBytes out (Some (args ! 1)), s)
         else if length cmd = 4 \<and> EqualFold cmd ''QUIT'' then Some (out @ respOK, s)
         else if length cmd = 6 \<and> EqualFold cmd ''EXISTS'' then
           if length args \<noteq> 2 then Some (out @ respErrArgs, s)
           else map_option (\<lambda>(val, s'). (out @ (case val of Some _ \<Rightarrow> respOneInt | None \<Rightarrow> respZeroInt), s'))
                  (db_Get db (args ! 1) s)
         else Some (out @ respErrCmd, s)))"

lemma parse_args_read: "parse_args n read argBuf data = Some (args, read') \<Longrightarrow> read \<le> read'"
proof (induction n arbitrary: read argBuf)
  case (Suc n)
  then show ?case by (auto simp: Let_def split: if_splits option.splits dest!: Suc.IH)
qed simp

lemma parse_frame_read: "parseRESPFrame data = Some (args, read) \<Longrightarrow> 0 < read \<and> data \<noteq> []"
  by (auto simp: parseRESPFrame_def split: if_splits option.splits dest!: parse_args_read)

text \<open>The loop of \<open>OnTraffic\<close>. All replies of one call are written in order, in one write.\<close>

function traffic_loop :: "'s database \<Rightarrow> bytes \<Rightarrow> bytes \<Rightarrow> 's \<Rightarrow> (bytes \<times> 's) option" where
  "traffic_loop db data out s =
     (case parseRESPFrame data of
        None \<Rightarrow> Some (out, s)
      | Some (args, read) \<Rightarrow>
          (case dispatchToBuffer db args out s of
             None \<Rightarrow> None
           | Some (out', s') \<Rightarrow> traffic_loop db (drop read data) out' s'))"
  by pat_completeness auto
termination
  by (relation "measure (\<lambda>(db, data, out, s). length data)") (auto dest!: parse_frame_read)

declare traffic_loop.simps [simp del]

definition OnTraffic :: "'s database \<Rightarrow> bytes \<Rightarrow> 's \<Rightarrow> (bytes \<times> 's) option" where
  "OnTraffic db data s = traffic_loop db data [] s"

section \<open>Frames\<close>

text \<open>A request as clients send it: an array of bulk strings.\<close>

definition bulk :: "bytes \<Rightarrow> bytes" where
  "bulk a = appendBulkBytes [] (Some a)"

definition bulks :: "bytes list \<Rightarrow> bytes" where
  "bulks args = concat (map bulk args)"

definition request :: "bytes list \<Rightarrow> bytes" where
  "request args = ''*'' @ itoa (length args) @ crlfBytes @ bulks args"

definition sendable :: "bytes list \<Rightarrow> bool" where
  "sendable args \<longleftrightarrow> length args \<le> maxArgs \<and> list_all (\<lambda>a. length a \<le> maxInt) args"

lemma parse_digits_append:
  "parse_digits n (xs @ ys) = (case parse_digits n xs of None \<Rightarrow> None | Some m \<Rightarrow> parse_digits m ys)"
  by (induction xs arbitrary: n) (auto split: option.splits)

lemma parse_digits_itoa: "n \<le> maxInt \<Longrightarrow> parse_digits 0 (itoa n) = Some n"
proof (induction n rule: itoa.induct)
  case (1 n)
  show ?case
  proof (cases "n < 10")
    case True
    then show ?thesis by (subst itoa.simps) simp
  next
    case False
    have "n div 10 * 10 + n mod 10 = n" by simp
    then have "n div 10 * 10 \<le> maxInt - n mod 10" using 1(2) by linarith
    then have "\<not> n div 10 > (maxInt - n mod 10) div 10" by (simp add: less_eq_div_iff_mult_less_eq not_less)
    then show ?thesis using False 1 by (subst itoa.simps) (simp add: parse_digits_append)
  qed
qed

lemma parseFastInt_itoa: "n \<le> maxInt \<Longrightarrow> parseFastInt (itoa n) = Some n"
  by (simp add: parseFastInt_def parse_digits_itoa)

lemma LF_not_digit: "LF \<notin> set (itoa n)"
proof
  assume "LF \<in> set (itoa n)"
  then obtain d where "d < 10" "LF = digit d" using itoa_digits by blast
  then have "(of_char LF :: nat) = 48 + d" by (metis of_char_digit)
  then show False by (simp add: LF_def)
qed

lemma index_byte_None: "c \<notin> set xs \<Longrightarrow> index_byte c xs = None"
  by (induction xs) auto

lemma index_byte_append: "c \<notin> set xs \<Longrightarrow> index_byte c (xs @ c # ys) = Some (length xs)"
  by (induction xs) auto

lemma CR_LF [simp]: "CR \<noteq> LF" "LF \<noteq> CR" "CHR ''$'' \<noteq> LF" "CHR ''*'' \<noteq> LF"
  by (simp_all add: CR_def LF_def)

text \<open>A header line \<open>t<n>\<close>, as both levels of the parser read it.\<close>

definition header :: "char \<Rightarrow> nat \<Rightarrow> bytes" where
  "header t n = t # itoa n @ crlfBytes"

lemma length_header: "length (header t n) = length (itoa n) + 3"
  by (simp add: header_def crlfBytes_def)

lemma index_header: "t \<noteq> LF \<Longrightarrow> index_byte LF (header t n @ rest) = Some (length (itoa n) + 2)"
  using index_byte_append [of LF "t # itoa n @ [CR]" rest] LF_not_digit [of n]
  by (simp add: header_def crlfBytes_def)

lemma short_header:
  assumes "strict_prefix p (header t n)" and "t \<noteq> LF"
  shows "index_byte LF p = None"
proof -
  have "header t n = (t # itoa n @ [CR]) @ [LF]" by (simp add: header_def crlfBytes_def)
  then have "prefix p (t # itoa n @ [CR])" using assms(1) by (metis prefix_snoc strict_prefix_def)
  then have "set p \<subseteq> set (t # itoa n @ [CR])" by (rule set_mono_prefix)
  then show ?thesis using assms(2) LF_not_digit by (intro index_byte_None) auto
qed

lemma header_nth: "header t n ! Suc (length (itoa n)) = CR" "header t n ! 0 = t"
  by (simp_all add: header_def crlfBytes_def nth_append)

lemma header_slice: "subslice (Suc i) (Suc (i + length (itoa n))) (pre @ header t n @ rest) = itoa n" if "i = length pre"
  using that by (simp add: subslice_def header_def)

lemma bulk_header: "bulk a = header (CHR ''$'') (length a) @ a @ crlfBytes"
  by (simp add: bulk_def appendBulkBytes_def header_def)

lemma request_header: "request args = header (CHR ''*'') (length args) @ bulks args"
  by (simp add: request_def header_def)

lemma bulks_simps [simp]: "bulks [] = []" "bulks (a # as) = bulk a @ bulks as"
  by (simp_all add: bulks_def)

lemma parse_args_header:
  assumes "read = length pre" and "m \<le> maxInt"
  shows "parse_args (Suc n) read argBuf (pre @ header (CHR ''$'') m @ body) =
    (if length body < m + 2 then None
     else if body ! m \<noteq> CR \<or> body ! (m + 1) \<noteq> LF then None
     else parse_args n (read + length (header (CHR ''$'') m) + m + 2) (argBuf @ [take m body])
            (pre @ header (CHR ''$'') m @ body))"
proof -
  let ?h = "header (CHR ''$'') m" and ?i = "length (itoa m) + 2"
  let ?data = "pre @ ?h @ body"
  have l: "length ?h = Suc ?i" by (simp add: length_header)
  have a: "\<not> read \<ge> length ?data" "?data ! read = CHR ''$''"
    using assms(1) by (simp_all add: nth_append l header_nth)
  have b: "index_byte LF (drop read ?data) = Some ?i" using assms(1) by (simp add: index_header)
  have c: "?data ! (read + ?i - 1) = CR" using assms(1) by (simp add: nth_append l header_nth)
  have d: "parseFastInt (subslice (read + 1) (read + ?i - 1) ?data) = Some m"
    using header_slice [OF assms(1), of m "CHR ''$''" body] assms by (simp add: parseFastInt_itoa)
  have e: "?data ! (read + ?i + 1 + j) = body ! j" for j
    using assms(1) l by (simp add: nth_append)
  have f: "subslice (read + ?i + 1) (read + ?i + 1 + m) ?data = take m body"
    using assms(1) l by (simp add: subslice_def)
  show ?thesis
    unfolding parse_args.simps Let_def
    using assms(1) a b c d e [of m] e [of "m + 1"] f l
    by (auto simp: add.assoc)
qed

declare parse_args.simps(2) [simp del]

lemma parse_args_bulk:
  assumes "length a \<le> maxInt"
  shows "parse_args (Suc n) (length pre) argBuf (pre @ bulk a @ rest) =
    parse_args n (length (pre @ bulk a)) (argBuf @ [a]) ((pre @ bulk a) @ rest)"
proof -
  let ?body = "a @ crlfBytes @ rest"
  have "?body ! length a = CR" "?body ! (length a + 1) = LF" "take (length a) ?body = a"
    by (simp_all add: crlfBytes_def nth_append)
  moreover have "length (pre @ bulk a) = length pre + length (header (CHR ''$'') (length a)) + length a + 2"
    "pre @ bulk a @ rest = pre @ header (CHR ''$'') (length a) @ ?body" "\<not> length ?body < length a + 2"
    by (simp_all add: bulk_header crlfBytes_def)
  ultimately show ?thesis using parse_args_header [OF refl assms, of n pre argBuf ?body] by (simp add: add.assoc)
qed

lemma parse_args_bulks:
  "list_all (\<lambda>a. length a \<le> maxInt) args \<Longrightarrow>
   parse_args (length args) (length pre) argBuf (pre @ bulks args @ rest) =
     Some (argBuf @ args, length pre + length (bulks args))"
proof (induction args arbitrary: pre argBuf)
  case (Cons a args)
  then show ?case
    using parse_args_bulk [of a "length args" pre argBuf "bulks args @ rest"] Cons.IH [of "pre @ bulk a" "argBuf @ [a]"]
    by simp
qed simp

lemma prefix_append_cases:
  assumes "strict_prefix p (xs @ ys)"
  obtains "strict_prefix p xs" | q where "p = xs @ q" "strict_prefix q ys"
proof (cases "strict_prefix p xs")
  case False
  then obtain q where "p = xs @ q" "prefix q ys"
    using assms by (auto simp: strict_prefix_def prefix_append)
  then show thesis using assms that(2) [of q] by (auto simp: strict_prefix_def)
qed (rule that(1))

lemma parse_args_short_head:
  assumes "strict_prefix p (header (CHR ''$'') m)"
  shows "parse_args (Suc n) (length pre) argBuf (pre @ p) = None"
  using assms short_header [OF assms] by (simp add: parse_args.simps)

lemma parse_args_short:
  "list_all (\<lambda>a. length a \<le> maxInt) args \<Longrightarrow> strict_prefix p (bulks args) \<Longrightarrow>
   parse_args (length args) (length pre) argBuf (pre @ p) = None"
proof (induction args arbitrary: pre argBuf p)
  case (Cons a args)
  have m: "length a \<le> maxInt" using Cons.prems by simp
  have "strict_prefix p (bulk a @ bulks args)" using Cons.prems(2) by simp
  then show ?case
  proof (cases rule: prefix_append_cases)
    case 1
    then have "strict_prefix p (header (CHR ''$'') (length a) @ a @ crlfBytes)" by (simp add: bulk_header)
    then show ?thesis
    proof (cases rule: prefix_append_cases)
      case 1
      then show ?thesis using parse_args_short_head by simp
    next
      case (2 q)
      then have "length q < length a + 2" using prefix_length_less [OF 2(2)] by (simp add: crlfBytes_def)
      then show ?thesis using parse_args_header [OF refl m, of "length args" pre argBuf q] 2(1) by simp
    qed
  next
    case (2 q)
    then show ?thesis
      using Cons.prems(1) parse_args_bulk [OF m, of "length args" pre argBuf q] Cons.IH [of q "pre @ bulk a" "argBuf @ [a]"]
      by simp
  qed
qed simp

lemma parse_frame_header:
  assumes "m \<le> maxInt"
  shows "parseRESPFrame (header (CHR ''*'') m @ body) =
    (if m > maxArgs then None
     else parse_args m (length (header (CHR ''*'') m)) [] (header (CHR ''*'') m @ body))"
proof -
  let ?h = "header (CHR ''*'') m" and ?i = "length (itoa m) + 2"
  have l: "length ?h = Suc ?i" by (simp add: length_header)
  have a: "length (?h @ body) \<noteq> 0" "(?h @ body) ! 0 = CHR ''*''" "(?h @ body) ! (?i - 1) = CR"
    using l by (simp_all add: nth_append header_nth)
  have d: "parseFastInt (subslice 1 (?i - 1) (?h @ body)) = Some m"
    using header_slice [of 0 "[]" m "CHR ''*''" body] assms by (simp add: parseFastInt_itoa)
  show ?thesis unfolding parseRESPFrame_def using a d l index_header [of "CHR ''*''" m body] by simp
qed

lemma parse_request:
  assumes "sendable args"
  shows "parseRESPFrame (request args @ rest) = Some (args, length (request args))"
proof -
  have "length args \<le> maxInt" using assms by (simp add: sendable_def maxArgs_def maxInt_def)
  then show ?thesis
    using assms parse_frame_header [of "length args" "bulks args @ rest"]
      parse_args_bulks [of args "header (CHR ''*'') (length args)" "[]" rest]
    by (simp add: request_header sendable_def)
qed

lemma parse_short_request:
  assumes "sendable args" and "strict_prefix p (request args)"
  shows "parseRESPFrame p = None"
proof -
  let ?h = "header (CHR ''*'') (length args)"
  have m: "length args \<le> maxInt" using assms by (simp add: sendable_def maxArgs_def maxInt_def)
  have "strict_prefix p (?h @ bulks args)" using assms(2) by (simp add: request_header)
  then show ?thesis
  proof (cases rule: prefix_append_cases)
    case 1
    then show ?thesis using short_header [OF 1] by (simp add: parseRESPFrame_def)
  next
    case (2 q)
    then show ?thesis
      using assms(1) parse_frame_header [OF m, of q] parse_args_short [of args q ?h "[]"] by (simp add: sendable_def)
  qed
qed

definition next_request :: "bytes \<Rightarrow> (bytes list \<times> bytes) option" where
  "next_request data = map_option (\<lambda>(args, read). (args, drop read data)) (parseRESPFrame data)"

interpretation reqs: frame_codec sendable request next_request
proof
  fix args rest
  assume "sendable args"
  then show "next_request (request args @ rest) = Some (args, rest)"
    by (simp add: next_request_def parse_request)
next
  fix args p
  assume "sendable args" "strict_prefix p (request args)"
  then show "next_request p = None" by (simp add: next_request_def parse_short_request)
next
  show "next_request [] = None" by (simp add: next_request_def parseRESPFrame_def)
qed

section \<open>Commands\<close>

text \<open>What a request means, and which replies and effects it may have on a plain map. A write whose log
  record failed takes effect all the same, and reports the error.\<close>

datatype command = CGet string | CSet string bytes | CDel "string list" | CEcho bytes | CExists string | CReply bytes

fun command_of :: "bytes list \<Rightarrow> command" where
  "command_of [] = CReply respErrEmpty"
| "command_of (c # as) =
     (let w = map to_lower c in
      if w = ''get'' then (case as of [k] \<Rightarrow> CGet k | _ \<Rightarrow> CReply respErrArgs)
      else if w = ''set'' then (case as of [k, v] \<Rightarrow> CSet k v | _ \<Rightarrow> CReply respErrArgs)
      else if w = ''del'' then (if as = [] then CReply respErrArgs else CDel as)
      else if w = ''ping'' then (if as = [] then CReply respPONG else CEcho (hd as))
      else if w = ''echo'' then (if as = [] then CReply respNil else CEcho (hd as))
      else if w = ''quit'' then CReply respOK
      else if w = ''exists'' then (case as of [k] \<Rightarrow> CExists k | _ \<Rightarrow> CReply respErrArgs)
      else CReply respErrCmd)"

fun del_spec :: "string list \<Rightarrow> nat \<Rightarrow> (string \<rightharpoonup> goslice) \<Rightarrow> bytes \<Rightarrow> (string \<rightharpoonup> goslice) \<Rightarrow> bool" where
  "del_spec [] n m out m' \<longleftrightarrow> out = appendInt [] n \<and> m' = m"
| "del_spec (k # ks) n m out m' \<longleftrightarrow>
     (\<exists>err. out = respErr err) \<and> m' = m(k := None) \<or>
     del_spec ks (if m k = None then n else Suc n) (m(k := None)) out m'"

fun reply_spec :: "command \<Rightarrow> (string \<rightharpoonup> goslice) \<Rightarrow> bytes \<Rightarrow> (string \<rightharpoonup> goslice) \<Rightarrow> bool" where
  "reply_spec (CGet k) m out m' \<longleftrightarrow> out = (case m k of None \<Rightarrow> respNil | Some v \<Rightarrow> appendBulkBytes [] v) \<and> m' = m"
| "reply_spec (CSet k v) m out m' \<longleftrightarrow> (out = respOK \<or> (\<exists>err. out = respErr err)) \<and> m' = m(k \<mapsto> Some v)"
| "reply_spec (CDel ks) m out m' \<longleftrightarrow> del_spec ks 0 m out m'"
| "reply_spec (CEcho v) m out m' \<longleftrightarrow> out = bulk v \<and> m' = m"
| "reply_spec (CExists k) m out m' \<longleftrightarrow> out = (if m k = None then respZeroInt else respOneInt) \<and> m' = m"
| "reply_spec (CReply r) m out m' \<longleftrightarrow> out = r \<and> m' = m"

fun session_spec :: "bytes list list \<Rightarrow> (string \<rightharpoonup> goslice) \<Rightarrow> bytes \<Rightarrow> (string \<rightharpoonup> goslice) \<Rightarrow> bool" where
  "session_spec [] m out m' \<longleftrightarrow> out = [] \<and> m' = m"
| "session_spec (r # rs) m out m' \<longleftrightarrow>
     (\<exists>o1 o2 m1. out = o1 @ o2 \<and> reply_spec (command_of r) m o1 m1 \<and> session_spec rs m1 o2 m')"

text \<open>How many operations a request may ask of the database.\<close>

fun cost :: "command \<Rightarrow> nat" where
  "cost (CGet k) = 1"
| "cost (CSet k v) = 1"
| "cost (CDel ks) = length ks"
| "cost (CExists k) = 1"
| "cost _ = 0"

definition dispatch_command :: "'s database \<Rightarrow> command \<Rightarrow> 's \<Rightarrow> (bytes \<times> 's) option" where
  "dispatch_command db cmd s =
     (case cmd of
        CGet k \<Rightarrow> map_option (\<lambda>(val, s'). (case val of None \<Rightarrow> respNil | Some v \<Rightarrow> appendBulkBytes [] v, s')) (db_Get db k s)
      | CSet k v \<Rightarrow> map_option (\<lambda>(err, s'). (case err of Some e \<Rightarrow> respErr e | None \<Rightarrow> respOK, s')) (db_Set db k (Some v) s)
      | CDel ks \<Rightarrow> map_option (\<lambda>(r, s'). (case r of Inl e \<Rightarrow> respErr e | Inr n \<Rightarrow> appendInt [] n, s')) (del_keys db ks 0 s)
      | CEcho v \<Rightarrow> Some (bulk v, s)
      | CExists k \<Rightarrow> map_option (\<lambda>(val, s'). (case val of Some _ \<Rightarrow> respOneInt | None \<Rightarrow> respZeroInt, s')) (db_Get db k s)
      | CReply r \<Rightarrow> Some (r, s))"

lemma fold_length: "map to_lower c = map to_lower w \<Longrightarrow> length c = length w"
  by (metis length_map)

lemma lower_words:
  "map to_lower ''GET'' = ''get''" "map to_lower ''SET'' = ''set''" "map to_lower ''DEL'' = ''del''"
  "map to_lower ''PING'' = ''ping''" "map to_lower ''ECHO'' = ''echo''" "map to_lower ''QUIT'' = ''quit''"
  "map to_lower ''EXISTS'' = ''exists''"
  by code_simp+

lemma EqualFold_word:
  assumes "map to_lower w = l" and "n = length w"
  shows "(length c = n \<and> EqualFold c w) \<longleftrightarrow> map to_lower c = l"
  using assms fold_length [of c w] by (auto simp: EqualFold_def)

lemma append_replies:
  "appendBulkBytes out v = out @ appendBulkBytes [] v" "appendInt out n = out @ appendInt [] n"
  by (simp_all add: appendBulkBytes_def appendInt_def)

lemmas words =
  EqualFold_word [OF lower_words(1)] EqualFold_word [OF lower_words(2)] EqualFold_word [OF lower_words(3)]
  EqualFold_word [OF lower_words(4)] EqualFold_word [OF lower_words(5)] EqualFold_word [OF lower_words(6)]
  EqualFold_word [OF lower_words(7)]

lemma reply_appends:
  "map_option (\<lambda>(val, s'). (case val of None \<Rightarrow> out @ respNil | Some v \<Rightarrow> appendBulkBytes out v, s')) g =
     map_option (\<lambda>(r, s'). (out @ r, s')) (map_option (\<lambda>(val, s'). (case val of None \<Rightarrow> respNil | Some v \<Rightarrow> appendBulkBytes [] v, s')) g)"
  "map_option (\<lambda>(r, s'). (case r of Inl e \<Rightarrow> out @ respErr e | Inr n \<Rightarrow> appendInt out n, s')) d =
     map_option (\<lambda>(r, s'). (out @ r, s')) (map_option (\<lambda>(r, s'). (case r of Inl e \<Rightarrow> respErr e | Inr n \<Rightarrow> appendInt [] n, s')) d)"
  "map_option (\<lambda>(x, s'). (out @ (case x of None \<Rightarrow> r0 | Some y \<Rightarrow> r1 y), s')) a =
     map_option (\<lambda>(r, s'). (out @ r, s')) (map_option (\<lambda>(x, s'). (case x of None \<Rightarrow> r0 | Some y \<Rightarrow> r1 y, s')) a)"
  subgoal by (cases g) (auto simp: append_replies(1) [of out] split: option.splits)
  subgoal by (cases d) (auto simp: append_replies(2) [of out] split: sum.splits)
  subgoal by (cases a) auto
  done

lemma dispatch_command:
  "dispatchToBuffer db args out s = map_option (\<lambda>(r, s'). (out @ r, s')) (dispatch_command db (command_of args) s)"
proof (cases args)
  case (Cons c as)
  have w: "length c = 3 \<and> EqualFold c ''GET'' \<longleftrightarrow> map to_lower c = ''get''"
    "length c = 3 \<and> EqualFold c ''SET'' \<longleftrightarrow> map to_lower c = ''set''"
    "length c = 3 \<and> EqualFold c ''DEL'' \<longleftrightarrow> map to_lower c = ''del''"
    "length c = 4 \<and> EqualFold c ''PING'' \<longleftrightarrow> map to_lower c = ''ping''"
    "length c = 4 \<and> EqualFold c ''ECHO'' \<longleftrightarrow> map to_lower c = ''echo''"
    "length c = 4 \<and> EqualFold c ''QUIT'' \<longleftrightarrow> map to_lower c = ''quit''"
    "length c = 6 \<and> EqualFold c ''EXISTS'' \<longleftrightarrow> map to_lower c = ''exists''"
    by (simp_all add: words)
  consider "as = []" | k where "as = [k]" | k v where "as = [k, v]" | k v x xs where "as = k # v # x # xs"
    by (cases as rule: remdups_adj.cases) (auto, metis neq_Nil_conv)
  then show ?thesis
  proof cases
    case 1
    then show ?thesis
      unfolding dispatchToBuffer_def Cons Let_def by (simp add: w dispatch_command_def Let_def)
  next
    case (2 k)
    then show ?thesis
      unfolding dispatchToBuffer_def Cons Let_def
      by (simp add: w dispatch_command_def Let_def bulk_def reply_appends append_replies(1) [of out "Some _"] del: del_keys.simps)
  next
    case (3 k v)
    then show ?thesis
      unfolding dispatchToBuffer_def Cons Let_def
      by (simp add: w dispatch_command_def Let_def bulk_def reply_appends append_replies(1) [of out "Some _"] del: del_keys.simps)
  next
    case (4 k v x xs)
    then show ?thesis
      unfolding dispatchToBuffer_def Cons Let_def
      by (simp add: w dispatch_command_def Let_def bulk_def reply_appends append_replies(1) [of out "Some _"] del: del_keys.simps)
  qed
qed (simp add: dispatchToBuffer_def dispatch_command_def)

section \<open>The database behind the server\<close>

text \<open>What the handler relies on: operations act on a map of live keys, and \<open>ready n\<close> says the next \<open>n\<close> of
  them return.\<close>

locale db_backend =
  fixes db :: "'s database" and inv :: "'s \<Rightarrow> bool" and live :: "'s \<Rightarrow> string \<rightharpoonup> goslice"
    and ready :: "nat \<Rightarrow> 's \<Rightarrow> bool"
  assumes get: "inv s \<Longrightarrow> ready (Suc n) s \<Longrightarrow>
      \<exists>s'. db_Get db k s = Some (live s k, s') \<and> inv s' \<and> ready n s' \<and> live s' = live s"
    and set: "inv s \<Longrightarrow> ready (Suc n) s \<Longrightarrow>
      \<exists>e s'. db_Set db k v s = Some (e, s') \<and> inv s' \<and> ready n s' \<and> live s' = (live s)(k \<mapsto> v)"
    and delete: "inv s \<Longrightarrow> ready (Suc n) s \<Longrightarrow>
      \<exists>e s'. db_Delete db k s = Some (live s k \<noteq> None, e, s') \<and> inv s' \<and> ready n s' \<and> live s' = (live s)(k := None)"
    and ready_less: "ready n s \<Longrightarrow> m \<le> n \<Longrightarrow> ready m s"
begin

lemma del_keys_spec:
  "inv s \<Longrightarrow> ready (length ks + n) s \<Longrightarrow>
   \<exists>r s'. del_keys db ks count s = Some (r, s') \<and> inv s' \<and> ready n s' \<and>
     del_spec ks count (live s) (case r of Inl e \<Rightarrow> respErr e | Inr c \<Rightarrow> appendInt [] c) (live s')"
proof (induction ks arbitrary: s count)
  case (Cons k ks)
  obtain e s1 where d: "db_Delete db k s = Some (live s k \<noteq> None, e, s1)" "inv s1" "ready (length ks + n) s1"
    "live s1 = (live s)(k := None)"
    using delete [OF Cons.prems(1), of "length ks + n" k] Cons.prems(2) by auto
  show ?case
  proof (cases e)
    case None
    obtain r s' where i: "del_keys db ks (if live s k \<noteq> None then count + 1 else count) s1 = Some (r, s')" "inv s'" "ready n s'"
      "del_spec ks (if live s k \<noteq> None then count + 1 else count) ((live s)(k := None))
         (case r of Inl e \<Rightarrow> respErr e | Inr c \<Rightarrow> appendInt [] c) (live s')"
      using Cons.IH [OF d(2,3)] unfolding d(4) by blast
    then show ?thesis using d(1) None by (cases "live s k") simp_all
  next
    case (Some err)
    have "ready n s1" using ready_less [OF d(3)] by simp
    then show ?thesis using d Some by auto
  qed
qed auto

lemma dispatch_spec:
  assumes "inv s" and "ready (cost cmd + n) s"
  shows "\<exists>r s'. dispatch_command db cmd s = Some (r, s') \<and> inv s' \<and> ready n s' \<and> reply_spec cmd (live s) r (live s')"
proof (cases cmd)
  case (CGet k)
  then show ?thesis using assms get [of s n k] by (auto simp: dispatch_command_def)
next
  case (CSet k v)
  then obtain e s' where "db_Set db k (Some v) s = Some (e, s')" "inv s'" "ready n s'" "live s' = (live s)(k \<mapsto> Some v)"
    using assms set [of s n k "Some v"] by auto
  then show ?thesis using CSet by (cases e) (auto simp: dispatch_command_def)
next
  case (CDel ks)
  then obtain r s' where "del_keys db ks 0 s = Some (r, s')" "inv s'" "ready n s'"
    "del_spec ks 0 (live s) (case r of Inl e \<Rightarrow> respErr e | Inr c \<Rightarrow> appendInt [] c) (live s')"
    using assms del_keys_spec [of s ks n 0] by auto
  then show ?thesis using CDel by (auto simp: dispatch_command_def)
next
  case (CExists k)
  then obtain s' where "db_Get db k s = Some (live s k, s')" "inv s'" "ready n s'" "live s' = live s"
    using assms get [of s n k] by auto
  then show ?thesis using CExists by (cases "live s k") (simp_all add: dispatch_command_def)
qed (use assms in \<open>auto simp: dispatch_command_def\<close>)

lemma traffic_spec:
  "inv s \<Longrightarrow> ready (sum_list (map (cost \<circ> command_of) rs) + n) s \<Longrightarrow> list_all sendable rs \<Longrightarrow> parseRESPFrame p = None \<Longrightarrow>
   \<exists>out' s'. traffic_loop db (concat (map request rs) @ p) out s = Some (out @ out', s') \<and> inv s' \<and> ready n s' \<and>
     session_spec rs (live s) out' (live s')"
proof (induction rs arbitrary: s out)
  case Nil
  then show ?case by (simp add: traffic_loop.simps)
next
  case (Cons r rs)
  let ?rest = "concat (map request rs) @ p"
  obtain o1 s1 where d: "dispatch_command db (command_of r) s = Some (o1, s1)" "inv s1"
    "ready (sum_list (map (cost \<circ> command_of) rs) + n) s1" "reply_spec (command_of r) (live s) o1 (live s1)"
    using dispatch_spec [OF Cons.prems(1), of "command_of r" "sum_list (map (cost \<circ> command_of) rs) + n"] Cons.prems(2)
    by (auto simp: add.assoc comp_def)
  obtain o2 s' where t: "traffic_loop db ?rest (out @ o1) s1 = Some ((out @ o1) @ o2, s')" "inv s'" "ready n s'"
    "session_spec rs (live s1) o2 (live s')"
    using Cons.IH [OF d(2,3) _ Cons.prems(4), of "out @ o1"] Cons.prems(3) by auto
  have "parseRESPFrame (request r @ ?rest) = Some (r, length (request r))" using Cons.prems(3) by (intro parse_request) simp
  then have "traffic_loop db (request r @ ?rest) out s = Some (out @ o1 @ o2, s')"
    using d(1) t(1) by (simp add: traffic_loop.simps [of db "request r @ ?rest"] dispatch_command)
  then show ?case using t d(4) by auto
qed

end

text \<open>The engine as the server's database. Its state carries what the coming operations take from outside;
  \<open>render\<close> renders an error.\<close>

definition engine_db :: "(wal_error \<Rightarrow> string) \<Rightarrow> 't env \<Rightarrow> codec \<Rightarrow> (op_input list \<times> 't engine) database" where
  "engine_db render E C =
     \<lparr>db_Get = (\<lambda>k (is, eng). case is of [] \<Rightarrow> None
        | i # is' \<Rightarrow> (let (v, eng') = Get E (in_rand i) k eng in Some (v, is', eng'))),
      db_Set = (\<lambda>k v (is, eng). case is of [] \<Rightarrow> None
        | i # is' \<Rightarrow> map_option (\<lambda>(e, eng'). (map_option render e, is', eng')) (Set_key E C (in_now i) (in_upd i) (in_rand i) k v eng)),
      db_Delete = (\<lambda>k (is, eng). case is of [] \<Rightarrow> None
        | i # is' \<Rightarrow> map_option (\<lambda>(hit, e, eng'). (hit, map_option render e, is', eng')) (Delete E C (in_now i) (in_upd i) k eng))\<rparr>"

definition engine_ready :: "nat \<Rightarrow> op_input list \<times> 't engine \<Rightarrow> bool" where
  "engine_ready n s \<longleftrightarrow> n \<le> length (fst s) \<and> list_all ok_readings (fst s) \<and> (\<exists>a. eng_phys (snd s) < a \<and> paced a (fst s))"

lemma engine_ready_Cons:
  assumes "engine_ready (Suc n) s"
  obtains i "is" eng a where "s = (i # is, eng)" "n \<le> length is" "ok_readings i" "list_all ok_readings is"
    "eng_phys eng < a" "paced a [i]" "paced (past (past a (in_now i)) (in_upd i)) is"
proof -
  obtain i "is" where "fst s = i # is" using assms by (cases "fst s") (auto simp: engine_ready_def)
  then show thesis using assms that [of i "is" "snd s"] by (cases s) (auto simp: engine_ready_def)
qed

lemma engine_readyI:
  assumes "n \<le> length is" "list_all ok_readings is" "eng_phys eng < a" "paced a is"
  shows "engine_ready n (is, eng)"
  using assms by (auto simp: engine_ready_def)

interpretation resp: db_backend "engine_db render E C" "\<lambda>s. eng_inv E (snd s)" "\<lambda>s. live_of E (snd s)" engine_ready for render E C
proof
  fix s :: "op_input list \<times> 'a engine" and n k
  assume inv: "eng_inv E (snd s)" and "engine_ready (Suc n) s"
  from this(2) obtain i "is" eng a where s: "s = (i # is, eng)" "n \<le> length is" "ok_readings i" "list_all ok_readings is"
    "eng_phys eng < a" "paced a [i]" and p: "paced (past (past a (in_now i)) (in_upd i)) is"
    by (rule engine_ready_Cons)
  let ?b = "past (past a (in_now i)) (in_upd i)"
  have t: "\<forall>t \<in> set (in_now i) \<union> set (in_upd i). sample_ms t < maxPhysical"
    using s(3) by (auto simp: ok_readings_def)
  have e: "eng_inv E eng" using inv s(1) by simp
  note r = engine_readyI [OF s(2,4) _ p]
  show "\<exists>s'. db_Get (engine_db render E C) k s = Some (live_of E (snd s) k, s') \<and> eng_inv E (snd s') \<and>
      engine_ready n s' \<and> live_of E (snd s') = live_of E (snd s)"
  proof -
    obtain v eng' where g: "Get E (in_rand i) k eng = (v, eng')" by (cases "Get E (in_rand i) k eng")
    have "eng_phys eng' < ?b"
      using Get_clock [of E "in_rand i" k eng] g s(5) past_ge [of a "in_now i"] past_ge [of "past a (in_now i)" "in_upd i"]
      by (simp add: eng_phys_def)
    then show ?thesis using g Get_effect [OF e g] r [of eng'] s(1) by (simp add: engine_db_def)
  qed
  show "\<exists>e s'. db_Set (engine_db render E C) k v s = Some (e, s') \<and> eng_inv E (snd s') \<and>
      engine_ready n s' \<and> live_of E (snd s') = (live_of E (snd s))(k \<mapsto> v)" for v
  proof -
    obtain x eng' where g: "Set_key E C (in_now i) (in_upd i) (in_rand i) k v eng = Some (x, eng')" "eng_phys eng' < ?b"
      using Set_returns [OF e s(5,3,6)] by blast
    then show ?thesis using Set_effect [OF e g(1) t] r [of eng'] s(1) by (simp add: engine_db_def)
  qed
  show "\<exists>e s'. db_Delete (engine_db render E C) k s = Some (live_of E (snd s) k \<noteq> None, e, s') \<and> eng_inv E (snd s') \<and>
      engine_ready n s' \<and> live_of E (snd s') = (live_of E (snd s))(k := None)"
  proof -
    obtain hit x eng' where g: "Delete E C (in_now i) (in_upd i) k eng = Some (hit, x, eng')" "eng_phys eng' < ?b"
      using Delete_returns [OF e s(5,3,6)] by blast
    then show ?thesis using Delete_effect [OF e g(1) t] r [of eng'] s(1) by (simp add: engine_db_def)
  qed
qed (auto simp: engine_ready_def)

section \<open>Properties\<close>

text \<open>C31. The parser inverts the request format: of any bytes that start with a request of at most 1024 arguments
  it returns the arguments and the request's length, and on a request cut short it finds no frame.\<close>

theorem request_roundtrip:
  assumes "sendable args"
  shows "parseRESPFrame (request args @ rest) = Some (args, length (request args)) \<and>
    (\<forall>p. strict_prefix p (request args) \<longrightarrow> parseRESPFrame p = None)"
  using assms by (simp add: parse_request parse_short_request)

theorem request_roundtrip_witness:
  "parseRESPFrame (''*2'' @ crlfBytes @ ''$3'' @ crlfBytes @ ''GET'' @ crlfBytes @ ''$1'' @ crlfBytes @ ''k'' @ crlfBytes @ ''*1'') =
     Some ([''GET'', ''k''], 20)"
proof -
  have i: "itoa (Suc (Suc 0)) = ''2''" "itoa (Suc (Suc (Suc 0))) = ''3''" "itoa (Suc 0) = ''1''" by code_simp+
  have "sendable [''GET'', ''k'']" by (simp add: sendable_def maxArgs_def maxInt_def)
  from request_roundtrip [OF this, of "''*1''"] show ?thesis
    using i by (simp add: request_def bulks_def bulk_def appendBulkBytes_def crlfBytes_def eval_nat_numeral)
qed



text \<open>C38. A request that arrives in two pieces is lost. The handler takes all bytes received, and drops what is
  left after the last whole frame: when a request is split between two reads, neither call answers or
  touches the database, unless the second piece happens to look like a request of its own.\<close>

theorem split_request_lost:
  assumes "sendable args" and "request args = p @ q" and "q \<noteq> []" and "hd q \<noteq> CHR ''*''"
  shows "OnTraffic db p s = Some ([], s) \<and> OnTraffic db q s = Some ([], s)"
proof -
  have "strict_prefix p (request args)" using assms(2,3) by (auto simp: strict_prefix_def)
  then have p: "parseRESPFrame p = None" by (rule parse_short_request [OF assms(1)])
  have q: "parseRESPFrame q = None" using assms(3,4) by (auto simp: parseRESPFrame_def hd_conv_nth)
  show ?thesis using p q by (simp add: OnTraffic_def traffic_loop.simps)
qed

theorem split_request_lost_witness:
  "OnTraffic (engine_db (\<lambda>_. ''log'') demo_env demo_codec) (take 9 (request [''SET'', ''k'', ''v''])) ([], demo_engine) =
     Some ([], [], demo_engine) \<and>
   OnTraffic (engine_db (\<lambda>_. ''log'') demo_env demo_codec) (drop 9 (request [''SET'', ''k'', ''v''])) ([], demo_engine) =
     Some ([], [], demo_engine)"
proof (rule split_request_lost)
  show "sendable [''SET'', ''k'', ''v'']" by (simp add: sendable_def maxArgs_def maxInt_def)
  show "request [''SET'', ''k'', ''v''] = take 9 (request [''SET'', ''k'', ''v'']) @ drop 9 (request [''SET'', ''k'', ''v''])"
    by simp
  show "drop 9 (request [''SET'', ''k'', ''v'']) \<noteq> []" "hd (drop 9 (request [''SET'', ''k'', ''v''])) \<noteq> CHR ''*''"
    by code_simp+
qed

end
