(* ===== verification/Mesh.thy ===== *)
theory Mesh
  imports Hash_Ring
begin

text \<open>
  Membership of \<open>src/cluster/mesh/mesh.go\<close>, with the configuration of \<open>meshbuilder.go\<close>. The gossip
  library \<open>memberlist\<close> is not part of the repository: its default configurations, what \<open>Create\<close>, \<open>Join\<close>,
  \<open>Leave\<close> and \<open>Shutdown\<close> return, and the events it reports are arguments, and so is the encoding of the
  node metadata. What the mesh does with them is modelled: which nodes are on the ring and with what
  weight, which address a node has, how joining is retried.

  The lemmas show that the ring and the address table follow the events, what a node announces about
  itself and what its peers make of it, and bounds on the retries.
\<close>

section \<open>Configuration\<close>

record mesh_config =
  mc_NodeID :: string
  BindAddr :: string
  AdvertiseAddr :: string
  SeedNodes :: "string list"
  ReplicationFactor :: int
  BindPort :: int
  GrpcPort :: int
  SingleNode :: bool
  FastTest :: bool
  ReplicationFailureMode :: string
  JoinRetries :: int
  JoinRetryBaseDelay :: i64

definition Strict :: string where
  "Strict = ''strict''"

definition Lenient :: string where
  "Lenient = ''lenient''"

definition NewConfigBuilder :: mesh_config where
  "NewConfigBuilder = \<lparr>mc_NodeID = '''', BindAddr = '''', AdvertiseAddr = '''', SeedNodes = [], ReplicationFactor = 3,
     BindPort = 0, GrpcPort = 0, SingleNode = False, FastTest = False, ReplicationFailureMode = Strict,
     JoinRetries = 0, JoinRetryBaseDelay = 0\<rparr>"

definition cb_SingleNode :: "mesh_config \<Rightarrow> mesh_config" where
  "cb_SingleNode mb = mb\<lparr>SingleNode := True\<rparr>"

definition cb_Distributed :: "mesh_config \<Rightarrow> mesh_config" where
  "cb_Distributed mb = mb\<lparr>SingleNode := False\<rparr>"

definition cb_SetNodeID :: "string \<Rightarrow> mesh_config \<Rightarrow> mesh_config" where
  "cb_SetNodeID nid mb = mb\<lparr>mc_NodeID := nid\<rparr>"

definition cb_SetBindAddr :: "string \<Rightarrow> mesh_config \<Rightarrow> mesh_config" where
  "cb_SetBindAddr addr mb = mb\<lparr>BindAddr := addr\<rparr>"

definition cb_SetBindPort :: "int \<Rightarrow> mesh_config \<Rightarrow> mesh_config" where
  "cb_SetBindPort port mb = mb\<lparr>BindPort := port\<rparr>"

definition cb_SetAdvertiseAddr :: "string \<Rightarrow> mesh_config \<Rightarrow> mesh_config" where
  "cb_SetAdvertiseAddr addr mb = mb\<lparr>AdvertiseAddr := addr\<rparr>"

definition cb_SetSeedNodes :: "string list \<Rightarrow> mesh_config \<Rightarrow> mesh_config" where
  "cb_SetSeedNodes seeds mb = mb\<lparr>SeedNodes := seeds\<rparr>"

definition cb_SetGrpcPort :: "int \<Rightarrow> mesh_config \<Rightarrow> mesh_config" where
  "cb_SetGrpcPort port mb = mb\<lparr>GrpcPort := port\<rparr>"

definition cb_EnableFastTest :: "mesh_config \<Rightarrow> mesh_config" where
  "cb_EnableFastTest mb = mb\<lparr>FastTest := True\<rparr>"

definition cb_SetReplicationFactor :: "int \<Rightarrow> mesh_config \<Rightarrow> mesh_config" where
  "cb_SetReplicationFactor n mb = (let n = (if n < 1 then 1 else n) in mb\<lparr>ReplicationFactor := n\<rparr>)"

definition cb_SetReplicationFailureMode :: "string \<Rightarrow> mesh_config \<Rightarrow> mesh_config" where
  "cb_SetReplicationFailureMode m mb = mb\<lparr>ReplicationFailureMode := m\<rparr>"

definition cb_Build :: "mesh_config \<Rightarrow> mesh_config" where
  "cb_Build mb = mb"

section \<open>Node metadata\<close>

record node_meta =
  meta_GrpcPort :: "32 word"
  meta_Weight :: "32 word"

record meta_codec =
  md_Marshal :: "node_meta \<Rightarrow> bytes option"
  md_Unmarshal :: "bytes \<Rightarrow> node_meta option"

text \<open>What the mesh relies on: encoding succeeds and is undone by decoding, and only the message with all
  fields zero has an empty encoding.\<close>

definition meta_laws :: "meta_codec \<Rightarrow> bool" where
  "meta_laws M \<longleftrightarrow> (\<forall>m. \<exists>b. md_Marshal M m = Some b \<and> md_Unmarshal M b = Some m \<and>
     (b = [] \<longleftrightarrow> meta_GrpcPort m = 0 \<and> meta_Weight m = 0))"

text \<open>A node as the gossip library reports it.\<close>

record ml_node =
  ml_Name :: string
  ml_Addr :: string
  ml_Meta :: bytes

section \<open>The mesh\<close>

record ml_config =
  mlc_Name :: string
  mlc_BindAddr :: string
  mlc_BindPort :: int
  mlc_AdvertiseAddr :: string
  PushPullInterval :: int
  GossipInterval :: int
  ProbeInterval :: int
  SuspicionMult :: int

record mesh =
  m_ring :: hash_ring
  nodeAddrs :: "string \<rightharpoonup> string"
  m_config :: mesh_config
  stopping :: bool
  localWeight :: "32 word"
  memberList :: bool
  broadcasts :: "bytes list"

definition ml_settings :: "ml_config \<Rightarrow> ml_config \<Rightarrow> mesh_config \<Rightarrow> ml_config" where
  "ml_settings local lan config =
     (let ml = (if FastTest config
                then lan\<lparr>PushPullInterval := 500000000, GossipInterval := 20000000, ProbeInterval := 100000000,
                         SuspicionMult := 2\<rparr>
                else local);
          ml = (if mc_NodeID config \<noteq> '''' then ml\<lparr>mlc_Name := mc_NodeID config\<rparr> else ml);
          ml = ml\<lparr>mlc_BindAddr := (if BindAddr config \<noteq> '''' then BindAddr config else ''127.0.0.1'')\<rparr>;
          ml = ml\<lparr>mlc_BindPort := BindPort config\<rparr>
      in if AdvertiseAddr config \<noteq> '''' then ml\<lparr>mlc_AdvertiseAddr := AdvertiseAddr config\<rparr> else ml)"

definition NewMesh :: "(ml_config \<Rightarrow> bool) \<Rightarrow> ml_config \<Rightarrow> ml_config \<Rightarrow> mesh_config \<Rightarrow> mesh option" where
  "NewMesh create local lan config =
     (let m = \<lparr>m_ring = NewHashRing, nodeAddrs = Map.empty, m_config = config, stopping = False,
               localWeight = word_of_int defaultVnodes, memberList = False, broadcasts = []\<rparr>
      in if \<not> create (ml_settings local lan config) then None
         else Some (m\<lparr>memberList := True\<rparr>))"

definition Broadcast :: "bytes \<Rightarrow> mesh \<Rightarrow> mesh" where
  "Broadcast msg m = m\<lparr>broadcasts := broadcasts m @ [msg]\<rparr>"

text \<open>A Go map is visited in no particular order; \<open>order\<close> is the one taken.\<close>

definition Members :: "string list \<Rightarrow> mesh \<Rightarrow> string list" where
  "Members order m = (if stopping m \<or> \<not> memberList m then [] else List.map_filter (nodeAddrs m) order)"

definition AddressForNode :: "string \<Rightarrow> mesh \<Rightarrow> string" where
  "AddressForNode nodeID m =
     (if stopping m \<or> \<not> memberList m then ''''
      else case nodeAddrs m nodeID of None \<Rightarrow> '''' | Some a \<Rightarrow> a)"

definition Owner :: "string \<Rightarrow> mesh \<Rightarrow> string" where
  "Owner key m = GetNode key (m_ring m)"

definition mesh_GetOwners :: "string \<Rightarrow> int \<Rightarrow> mesh \<Rightarrow> string list" where
  "mesh_GetOwners key n m = GetOwners key n (m_ring m)"

definition UpdateLocalWeight :: "int \<Rightarrow> mesh \<Rightarrow> mesh" where
  "UpdateLocalWeight weight m = m\<lparr>localWeight := word_of_int weight\<rparr>"

definition LocalGossipPort :: "int \<Rightarrow> mesh \<Rightarrow> int" where
  "LocalGossipPort bound m = (if \<not> memberList m then 0 else bound)"

text \<open>What \<open>NotifyJoin\<close> and \<open>NotifyUpdate\<close> read from the metadata: the weight, and the new address table.\<close>

definition read_meta :: "meta_codec \<Rightarrow> ml_node \<Rightarrow> mesh \<Rightarrow> int \<times> (string \<rightharpoonup> string)" where
  "read_meta M node m =
     (if length (ml_Meta node) > 0 then
        (case md_Unmarshal M (ml_Meta node) of
           Some meta \<Rightarrow>
             (sint (meta_Weight meta),
              if 0 < sint (meta_GrpcPort meta)
              then (nodeAddrs m)(ml_Name node \<mapsto> ml_Addr node @ '':'' @ fmt_int (sint (meta_GrpcPort meta)))
              else nodeAddrs m)
         | None \<Rightarrow> (defaultVnodes, nodeAddrs m))
      else (defaultVnodes, nodeAddrs m))"

definition NotifyJoin :: "meta_codec \<Rightarrow> ml_node option \<Rightarrow> mesh \<Rightarrow> mesh" where
  "NotifyJoin M nd m =
     (case nd of
        None \<Rightarrow> m
      | Some node \<Rightarrow>
          (let (weight, addrs) = read_meta M node m
           in m\<lparr>nodeAddrs := addrs, m_ring := AddNodeWithWeight (ml_Name node) weight (m_ring m)\<rparr>))"

definition NotifyLeave :: "ml_node option \<Rightarrow> mesh \<Rightarrow> mesh" where
  "NotifyLeave nd m =
     (case nd of
        None \<Rightarrow> m
      | Some node \<Rightarrow>
          m\<lparr>m_ring := RemoveNode (ml_Name node) (m_ring m), nodeAddrs := (nodeAddrs m)(ml_Name node := None)\<rparr>)"

definition NotifyUpdate :: "meta_codec \<Rightarrow> ml_node option \<Rightarrow> mesh \<Rightarrow> mesh" where
  "NotifyUpdate M nd m =
     (case nd of
        None \<Rightarrow> m
      | Some node \<Rightarrow>
          (let (weight, addrs) = read_meta M node m
           in m\<lparr>nodeAddrs := addrs, m_ring := UpdateNodeWeight (ml_Name node) weight (m_ring m)\<rparr>))"

definition NodeMeta :: "meta_codec \<Rightarrow> mesh \<Rightarrow> bytes" where
  "NodeMeta M m =
     (case md_Marshal M \<lparr>meta_GrpcPort = word_of_int (GrpcPort (m_config m)), meta_Weight = localWeight m\<rparr> of
        None \<Rightarrow> [] | Some b \<Rightarrow> b)"

text \<open>Starting: \<open>join a\<close> is the outcome of attempt \<open>a\<close>. The result is whether a join succeeded, and the
  pauses made.\<close>

definition defaultJoinRetries :: int where
  "defaultJoinRetries = 5"

definition defaultJoinRetryBaseDelay :: i64 where
  "defaultJoinRetryBaseDelay = 500000000"

definition maxJoinRetryDelay :: i64 where
  "maxJoinRetryDelay = 10000000000"

definition min_i64 :: "i64 \<Rightarrow> i64 \<Rightarrow> i64" where
  "min_i64 a b = (if sint b < sint a then b else a)"

fun join_loop :: "(nat \<Rightarrow> bool) \<Rightarrow> nat \<Rightarrow> nat \<Rightarrow> i64 \<Rightarrow> bool \<times> i64 list" where
  "join_loop join attempt 0 delay = (False, [])"
| "join_loop join attempt (Suc left) delay =
     (if join attempt then (True, [])
      else if 0 < left then
        (let (ok, slept) = join_loop join (Suc attempt) left (min_i64 (delay * 2) maxJoinRetryDelay)
         in (ok, delay # slept))
      else (False, []))"

definition mesh_Start :: "(nat \<Rightarrow> bool) \<Rightarrow> mesh \<Rightarrow> bool \<times> i64 list" where
  "mesh_Start join m =
     (if length (SeedNodes (m_config m)) = 0 then (True, [])
      else
        (let retries = JoinRetries (m_config m);
             retries = (if retries \<le> 0 then defaultJoinRetries else retries);
             delay = JoinRetryBaseDelay (m_config m);
             delay = (if sint delay \<le> 0 then defaultJoinRetryBaseDelay else delay)
         in join_loop join 1 (nat retries) delay))"

text \<open>An error of \<open>Leave\<close> is only logged; the result is that of \<open>Shutdown\<close>.\<close>

definition mesh_Stop :: "bool \<Rightarrow> mesh \<Rightarrow> bool \<times> mesh" where
  "mesh_Stop shutdown m =
     (let m = m\<lparr>stopping := True\<rparr> in if \<not> memberList m then (True, m) else (shutdown, m))"

section \<open>With and without a cluster\<close>

datatype mesher = NopMesh | RealMesh mesh

fun ms_Members :: "string list \<Rightarrow> mesher \<Rightarrow> string list" where
  "ms_Members order NopMesh = []"
| "ms_Members order (RealMesh m) = Members order m"

fun ms_Owner :: "string \<Rightarrow> mesher \<Rightarrow> string" where
  "ms_Owner key NopMesh = ''''"
| "ms_Owner key (RealMesh m) = Owner key m"

fun ms_GetOwners :: "string \<Rightarrow> int \<Rightarrow> mesher \<Rightarrow> string list" where
  "ms_GetOwners key n NopMesh = []"
| "ms_GetOwners key n (RealMesh m) = mesh_GetOwners key n m"

fun ms_AddressForNode :: "string \<Rightarrow> mesher \<Rightarrow> string" where
  "ms_AddressForNode nodeID NopMesh = ''''"
| "ms_AddressForNode nodeID (RealMesh m) = AddressForNode nodeID m"

fun ms_Start :: "(nat \<Rightarrow> bool) \<Rightarrow> mesher \<Rightarrow> bool \<times> i64 list" where
  "ms_Start join NopMesh = (True, [])"
| "ms_Start join (RealMesh m) = mesh_Start join m"

fun ms_Stop :: "bool \<Rightarrow> mesher \<Rightarrow> bool \<times> mesher" where
  "ms_Stop shutdown NopMesh = (True, NopMesh)"
| "ms_Stop shutdown (RealMesh m) = (let (ok, m') = mesh_Stop shutdown m in (ok, RealMesh m'))"

fun ms_UpdateLocalWeight :: "int \<Rightarrow> mesher \<Rightarrow> mesher" where
  "ms_UpdateLocalWeight weight NopMesh = NopMesh"
| "ms_UpdateLocalWeight weight (RealMesh m) = RealMesh (UpdateLocalWeight weight m)"

fun ms_LocalGossipPort :: "int \<Rightarrow> mesher \<Rightarrow> int" where
  "ms_LocalGossipPort bound NopMesh = 0"
| "ms_LocalGossipPort bound (RealMesh m) = LocalGossipPort bound m"

section \<open>Events\<close>

datatype ml_event = Joined ml_node | Left ml_node | Updated ml_node

fun on_event :: "meta_codec \<Rightarrow> ml_event \<Rightarrow> mesh \<Rightarrow> mesh" where
  "on_event M (Joined n) m = NotifyJoin M (Some n) m"
| "on_event M (Left n) m = NotifyLeave (Some n) m"
| "on_event M (Updated n) m = NotifyUpdate M (Some n) m"

text \<open>The library's own view: who is in the cluster. Updates are reported for members only.\<close>

fun alive :: "ml_event list \<Rightarrow> string set" where
  "alive [] = {}"
| "alive (Joined n # es) = insert (ml_Name n) (alive es)"
| "alive (Left n # es) = alive es - {ml_Name n}"
| "alive (Updated n # es) = alive es"

fun proper_events :: "ml_event list \<Rightarrow> bool" where
  "proper_events [] \<longleftrightarrow> True"
| "proper_events (Updated n # es) \<longleftrightarrow> ml_Name n \<in> alive es \<and> proper_events es"
| "proper_events (e # es) \<longleftrightarrow> proper_events es"

text \<open>The address a member has last announced, with a port above zero, since it joined; newest event first.\<close>

definition announce :: "meta_codec \<Rightarrow> ml_node \<Rightarrow> (string \<rightharpoonup> string) \<Rightarrow> (string \<rightharpoonup> string)" where
  "announce M n addrs =
     (case md_Unmarshal M (ml_Meta n) of
        Some meta \<Rightarrow> if ml_Meta n \<noteq> [] \<and> 0 < sint (meta_GrpcPort meta)
                    then addrs(ml_Name n \<mapsto> ml_Addr n @ '':'' @ fmt_int (sint (meta_GrpcPort meta))) else addrs
      | None \<Rightarrow> addrs)"

fun announced :: "meta_codec \<Rightarrow> ml_event list \<Rightarrow> (string \<rightharpoonup> string)" where
  "announced M [] = Map.empty"
| "announced M (Left n # es) = (announced M es)(ml_Name n := None)"
| "announced M (Joined n # es) = announce M n (announced M es)"
| "announced M (Updated n # es) = announce M n (announced M es)"

definition after_events :: "meta_codec \<Rightarrow> ml_event list \<Rightarrow> mesh \<Rightarrow> mesh" where
  "after_events M es m = foldr (on_event M) es m"

lemma after_events_simps [simp]:
  "after_events M [] m = m" "after_events M (e # es) m = on_event M e (after_events M es m)"
  by (simp_all add: after_events_def)

lemma read_meta_addrs: "snd (read_meta M n m) = announce M n (nodeAddrs m)"
  by (auto simp: read_meta_def announce_def split: option.splits)

lemma dom_announce: "dom (announce M n f) \<subseteq> insert (ml_Name n) (dom f)"
  by (auto simp: announce_def split: option.splits if_splits)

lemma RemoveNode_nodes: "ring_inv r \<Longrightarrow> set (nodeList (RemoveNode n r)) = set (nodeList r) - {n}"
  using tables_node(1) [of r n] by (auto simp: RemoveNode_def ring_inv_def Let_def)

lemma AddNode_nodes: "ring_inv r \<Longrightarrow> set (nodeList (AddNodeWithWeight n w r)) = insert n (set (nodeList r))"
  using tables_node(1) [of r n] by (auto simp: AddNodeWithWeight_def ring_inv_def)

lemma UpdateNode_nodes: "nodeList (UpdateNodeWeight n w r) = nodeList r"
  by (simp add: UpdateNodeWeight_def)

lemma card_alive: "card (alive es) \<le> length es"
proof (induction es)
  case (Cons e es)
  have "finite (alive es)" by (induction es rule: alive.induct) auto
  then show ?case using Cons by (cases e) (auto simp: card_insert_if intro: le_SucI order.trans [OF card_Diff1_le])
qed simp

lemma events_tracked:
  assumes "ring_inv (m_ring m)" and "nodeList (m_ring m) = []" and "nodeAddrs m = Map.empty"
    and "length es < 2 ^ 32 - 1" and "proper_events es"
  shows "ring_inv (m_ring (after_events M es m)) \<and> set (nodeList (m_ring (after_events M es m))) = alive es \<and>
    nodeAddrs (after_events M es m) = announced M es \<and> dom (announced M es) \<subseteq> alive es"
  using assms(4,5)
proof (induction es)
  case Nil
  then show ?case using assms(1,2,3) by auto
next
  case (Cons e es)
  let ?m = "after_events M es m"
  have p: "proper_events es" using Cons.prems(2) by (cases e) auto
  then have i: "ring_inv (m_ring ?m)" "set (nodeList (m_ring ?m)) = alive es"
    "nodeAddrs ?m = announced M es" "dom (announced M es) \<subseteq> alive es"
    using Cons.IH Cons.prems(1) by simp_all
  have "length (nodeList (m_ring ?m)) = card (alive es)"
    using i(1,2) distinct_card [of "nodeList (m_ring ?m)"] by (simp add: ring_inv_def tables_ok_def)
  then have l: "Suc (length (nodeList (m_ring ?m))) < 2 ^ 32" using card_alive [of es] Cons.prems(1) by simp
  have d: "dom (announce M n (announced M es)) \<subseteq> insert (ml_Name n) (alive es)" for n
    using dom_announce [of M n "announced M es"] i(4) by blast
  show ?case
  proof (cases e)
    case (Joined n)
    then show ?thesis
      using i AddNodeWithWeight_inv [OF i(1) l] AddNode_nodes [OF i(1)] d [of n]
      by (simp add: NotifyJoin_def case_prod_unfold read_meta_addrs)
  next
    case (Left n)
    then show ?thesis
      using i RemoveNode_inv [OF i(1)] RemoveNode_nodes [OF i(1)]
      by (auto simp: NotifyLeave_def dom_def split: if_splits)
  next
    case (Updated n)
    then show ?thesis
      using i UpdateNodeWeight_inv [OF i(1)] d [of n] Cons.prems(2)
      by (simp add: insert_absorb NotifyUpdate_def case_prod_unfold read_meta_addrs UpdateNode_nodes)
  qed
qed

lemma on_event_rest [simp]:
  "stopping (on_event M e m) = stopping m" "memberList (on_event M e m) = memberList m"
  by (cases e; simp add: NotifyJoin_def NotifyLeave_def NotifyUpdate_def split: prod.split)+

lemma after_events_rest [simp]:
  "stopping (after_events M es m) = stopping m" "memberList (after_events M es m) = memberList m"
  by (induction es) simp_all

section \<open>Joining\<close>

lemma sint_double: "0 < sint (d :: i64) \<Longrightarrow> sint d < 2 ^ 62 \<Longrightarrow> sint (d * 2) = 2 * sint d"
  by (simp add: sint_word_ariths signed_take_bit_int_eq_self)

lemma join_loop_spec:
  "0 < sint d \<Longrightarrow> sint d < 2 ^ 62 \<Longrightarrow> join_loop join a n d = (ok, slept) \<Longrightarrow>
   (ok \<longleftrightarrow> (\<exists>k < n. join (a + k))) \<and> (0 < n \<longrightarrow> length slept < n) \<and>
   (\<forall>s \<in> set slept. 0 < sint s \<and> sint s \<le> max (sint d) 10000000000)"
proof (induction n arbitrary: a d ok slept)
  case (Suc n)
  show ?case
  proof (cases "join a \<or> n = 0")
    case True
    then have "slept = [] \<and> (ok \<longleftrightarrow> join a)" using Suc.prems(3) by (auto split: if_splits)
    then show ?thesis using True by (auto simp: less_Suc_eq_0_disj)
  next
    case False
    let ?d = "min_i64 (d * 2) maxJoinRetryDelay"
    have d: "0 < sint ?d" "sint ?d < 2 ^ 62" "sint ?d \<le> 10000000000"
      using sint_double [OF Suc.prems(1,2)] Suc.prems(1) by (auto simp: min_i64_def maxJoinRetryDelay_def)
    obtain ok' slept' where r: "join_loop join (Suc a) n ?d = (ok', slept')" by (rule prod.exhaust)
    then have s: "ok = ok'" "slept = d # slept'" using Suc.prems(3) False by auto
    have "(\<exists>k < Suc n. join (a + k)) \<longleftrightarrow> (\<exists>k < n. join (Suc a + k))"
      using False by (auto simp: less_Suc_eq_0_disj)
    moreover have "0 < sint x \<and> sint x \<le> max (sint d) 10000000000" if "x \<in> set slept'" for x
      using Suc.IH [OF d(1,2) r] d(3) that by fastforce
    ultimately show ?thesis using Suc.IH [OF d(1,2) r] s False Suc.prems(1) by simp
  qed
qed simp

section \<open>Properties\<close>

text \<open>C11. The mesh follows its membership events. From a new mesh, after any sequence of events in which
  updates are reported for members only, the ring is proper and has exactly the members, a node's
  address is the last one it announced since it joined, and only members are ever owners of a key.\<close>

theorem mesh_tracks_members:
  assumes "NewMesh create local lan config = Some m" and "proper_events es" and "length es < 2 ^ 32 - 1"
  shows "ring_inv (m_ring (after_events M es m)) \<and> set (nodeList (m_ring (after_events M es m))) = alive es \<and>
    (\<forall>n. AddressForNode n (after_events M es m) = (case announced M es n of None \<Rightarrow> '''' | Some a \<Rightarrow> a)) \<and>
    dom (announced M es) \<subseteq> alive es \<and>
    (\<forall>key rf. set (mesh_GetOwners key rf (after_events M es m)) \<subseteq> alive es)"
proof -
  have m: "m_ring m = NewHashRing" "nodeAddrs m = Map.empty" "\<not> stopping m" "memberList m"
    using assms(1) by (auto simp: NewMesh_def Let_def split: if_splits)
  have e: "ring_inv (m_ring (after_events M es m))" "set (nodeList (m_ring (after_events M es m))) = alive es"
    "nodeAddrs (after_events M es m) = announced M es" "dom (announced M es) \<subseteq> alive es"
    using events_tracked [of m es M] assms(2,3) m(1,2) NewHashRing_inv by (simp_all add: NewHashRing_def)
  then show ?thesis using GetOwners_members(2) [OF e(1)] m(3,4) by (simp add: AddressForNode_def mesh_GetOwners_def)
qed

definition demo_meta :: meta_codec where
  "demo_meta = \<lparr>md_Marshal = (\<lambda>m. Some (if meta_GrpcPort m = 0 \<and> meta_Weight m = 0 then []
       else PutUint32 (meta_GrpcPort m) @ PutUint32 (meta_Weight m))),
     md_Unmarshal = (\<lambda>b. Some (if b = [] then \<lparr>meta_GrpcPort = 0, meta_Weight = 0\<rparr>
       else \<lparr>meta_GrpcPort = Uint32 (take 4 b), meta_Weight = Uint32 (drop 4 b)\<rparr>))\<rparr>"

lemma demo_meta_laws: "meta_laws demo_meta"
proof -
  have ne: "PutUint32 p \<noteq> []" for p by (metis length_PutUint32 list.size(3) zero_neq_numeral)
  have "\<exists>b. md_Marshal demo_meta m = Some b \<and> md_Unmarshal demo_meta b = Some m \<and>
      (b = [] \<longleftrightarrow> meta_GrpcPort m = 0 \<and> meta_Weight m = 0)" for m
    by (cases m) (simp add: demo_meta_def Uint32_PutUint32 length_PutUint32 ne)
  then show ?thesis by (simp add: meta_laws_def)
qed

definition demo_ml :: ml_config where
  "demo_ml = \<lparr>mlc_Name = '''', mlc_BindAddr = '''', mlc_BindPort = 0, mlc_AdvertiseAddr = '''', PushPullInterval = 0,
     GossipInterval = 0, ProbeInterval = 0, SuspicionMult = 0\<rparr>"

definition demo_mesh :: mesh where
  "demo_mesh = \<lparr>m_ring = NewHashRing, nodeAddrs = Map.empty, m_config = NewConfigBuilder, stopping = False,
     localWeight = 128, memberList = True, broadcasts = []\<rparr>"

lemma demo_mesh_new: "NewMesh (\<lambda>_. True) demo_ml demo_ml NewConfigBuilder = Some demo_mesh"
  by (simp add: NewMesh_def demo_mesh_def defaultVnodes_def)

theorem mesh_tracks_members_witness:
  "set (nodeList (m_ring (after_events demo_meta
     [Left \<lparr>ml_Name = ''a'', ml_Addr = ''10.0.0.1'', ml_Meta = []\<rparr>, Joined \<lparr>ml_Name = ''b'', ml_Addr = ''10.0.0.2'', ml_Meta = []\<rparr>,
      Joined \<lparr>ml_Name = ''a'', ml_Addr = ''10.0.0.1'', ml_Meta = []\<rparr>] demo_mesh))) = {''b''}"
proof -
  let ?es = "[Left \<lparr>ml_Name = ''a'', ml_Addr = ''10.0.0.1'', ml_Meta = []\<rparr>,
     Joined \<lparr>ml_Name = ''b'', ml_Addr = ''10.0.0.2'', ml_Meta = []\<rparr>,
     Joined \<lparr>ml_Name = ''a'', ml_Addr = ''10.0.0.1'', ml_Meta = []\<rparr>]"
  have "proper_events ?es" "length ?es < 2 ^ 32 - 1" by simp_all
  from mesh_tracks_members [OF demo_mesh_new this, of demo_meta]
  have "set (nodeList (m_ring (after_events demo_meta ?es demo_mesh))) = alive ?es" by (elim conjE)
  then show ?thesis by auto
qed

text \<open>What a node announces decides whether its peers can reach it. When a peer that does not know the node
  yet is told that it joined, the node is on the peer's ring with the weight it announced; its address is
  known exactly if its gRPC port is configured. With port 0, which the builder allows for dynamic
  allocation, the node announces port 0, and its peers have owners on the ring that they cannot reach.\<close>

theorem join_announces:
  assumes "meta_laws M" and "0 \<le> GrpcPort (m_config p)" and "GrpcPort (m_config p) < 2 ^ 31" and "localWeight p \<noteq> 0"
    and "\<not> stopping m" and "memberList m" and "ring_inv (m_ring m)" and "nodeAddrs m n = None" and "addr \<noteq> ''''"
  shows "AddressForNode n (NotifyJoin M (Some \<lparr>ml_Name = n, ml_Addr = addr, ml_Meta = NodeMeta M p\<rparr>) m) =
      (if GrpcPort (m_config p) = 0 then '''' else addr @ '':'' @ fmt_int (GrpcPort (m_config p))) \<and>
    n \<in> set (nodeList (m_ring (NotifyJoin M (Some \<lparr>ml_Name = n, ml_Addr = addr, ml_Meta = NodeMeta M p\<rparr>) m))) \<and>
    ring_weights (m_ring (NotifyJoin M (Some \<lparr>ml_Name = n, ml_Addr = addr, ml_Meta = NodeMeta M p\<rparr>) m)) n =
      Some (sint (localWeight p))"
proof -
  let ?meta = "\<lparr>meta_GrpcPort = word_of_int (GrpcPort (m_config p)), meta_Weight = localWeight p\<rparr>"
  obtain b where b: "md_Marshal M ?meta = Some b" "md_Unmarshal M b = Some ?meta" "b \<noteq> []"
    using assms(1,4) unfolding meta_laws_def by (metis node_meta.select_convs(2))
  then have nm: "NodeMeta M p = b" by (simp add: NodeMeta_def)
  have port: "sint (word_of_int (GrpcPort (m_config p)) :: 32 word) = GrpcPort (m_config p)"
    using assms(2,3) by (simp add: sint_sbintrunc' signed_take_bit_int_eq_self)
  have r: "read_meta M \<lparr>ml_Name = n, ml_Addr = addr, ml_Meta = NodeMeta M p\<rparr> m =
      (sint (localWeight p), if GrpcPort (m_config p) = 0 then nodeAddrs m
        else (nodeAddrs m)(n \<mapsto> addr @ '':'' @ fmt_int (GrpcPort (m_config p))))"
    using b assms(2) by (simp add: read_meta_def nm port)
  have "ring_weights (AddNodeWithWeight n w (m_ring m)) n = Some w" for w
    by (simp add: AddNodeWithWeight_def)
  then show ?thesis
    using assms(5-8) AddNode_nodes [OF assms(7)] by (simp add: NotifyJoin_def r AddressForNode_def)
qed

theorem join_announces_witness:
  "AddressForNode ''b'' (NotifyJoin demo_meta (Some \<lparr>ml_Name = ''b'', ml_Addr = ''10.0.0.2'',
     ml_Meta = NodeMeta demo_meta demo_mesh\<rparr>) demo_mesh) = '''' \<and>
   AddressForNode ''b'' (NotifyJoin demo_meta (Some \<lparr>ml_Name = ''b'', ml_Addr = ''10.0.0.2'',
     ml_Meta = NodeMeta demo_meta (demo_mesh\<lparr>m_config := cb_SetGrpcPort 80 NewConfigBuilder\<rparr>)\<rparr>) demo_mesh) = ''10.0.0.2:80''"
proof -
  have m: "\<not> stopping demo_mesh" "memberList demo_mesh" "ring_inv (m_ring demo_mesh)" "nodeAddrs demo_mesh ''b'' = None"
    by (simp_all add: demo_mesh_def NewHashRing_inv)
  have "fmt_int 80 = ''80''" by code_simp
  then show ?thesis
    using join_announces [OF demo_meta_laws _ _ _ m, of demo_mesh "''10.0.0.2''"]
      join_announces [OF demo_meta_laws _ _ _ m, of "demo_mesh\<lparr>m_config := cb_SetGrpcPort 80 NewConfigBuilder\<rparr>" "''10.0.0.2''"]
    by (simp add: demo_mesh_def NewConfigBuilder_def cb_SetGrpcPort_def)
qed

text \<open>Joining ends. With seeds to join and a base delay below a century, \<open>Start\<close> succeeds exactly if one of
  the configured number of attempts does, pauses at least once less than it may attempt, and no pause
  is longer than the base delay or ten seconds.\<close>

theorem Start_bounded:
  assumes "SeedNodes (m_config m) \<noteq> []" and "sint (JoinRetryBaseDelay (m_config m)) < 2 ^ 62" and "mesh_Start join m = (ok, slept)"
  shows "(ok \<longleftrightarrow> (\<exists>k < (if JoinRetries (m_config m) \<le> 0 then 5 else nat (JoinRetries (m_config m))). join (Suc k))) \<and>
    length slept < (if JoinRetries (m_config m) \<le> 0 then 5 else nat (JoinRetries (m_config m))) \<and>
    (\<forall>s \<in> set slept. 0 < sint s \<and> sint s \<le> max (sint (JoinRetryBaseDelay (m_config m))) 10000000000)"
proof -
  let ?n = "if JoinRetries (m_config m) \<le> 0 then 5 else nat (JoinRetries (m_config m))"
  let ?d = "if sint (JoinRetryBaseDelay (m_config m)) \<le> 0 then defaultJoinRetryBaseDelay else JoinRetryBaseDelay (m_config m)"
  have l: "join_loop join 1 ?n ?d = (ok, slept)"
    using assms(1,3) by (auto simp: mesh_Start_def Let_def defaultJoinRetries_def split: if_splits)
  have d: "0 < sint ?d" "sint ?d < 2 ^ 62" "max (sint ?d) 10000000000 = max (sint (JoinRetryBaseDelay (m_config m))) 10000000000"
    using assms(2) by (auto simp: defaultJoinRetryBaseDelay_def)
  show ?thesis using join_loop_spec [OF d(1,2) l] unfolding d(3) by simp
qed

theorem Start_bounded_witness:
  "mesh_Start (\<lambda>a. a = 3) (demo_mesh\<lparr>m_config := cb_SetSeedNodes [''10.0.0.1:7946''] NewConfigBuilder\<rparr>) = (True, [500000000, 1000000000]) \<and>
   (\<exists>k < (5 :: nat). Suc k = 3)"
proof -
  let ?m = "demo_mesh\<lparr>m_config := cb_SetSeedNodes [''10.0.0.1:7946''] NewConfigBuilder\<rparr>"
  have r: "mesh_Start (\<lambda>a. a = 3) ?m = (True, [500000000, 1000000000])" by code_simp
  from Start_bounded [OF _ _ r] r show ?thesis by (simp add: cb_SetSeedNodes_def NewConfigBuilder_def)
qed

end
