(* ===== verification/Entropy.thy ===== *)
theory Entropy
  imports Mesh Writer "HOL-Library.Option_ord"
begin

text \<open>
  Anti-entropy of \<open>src/cluster/entropy/sync.go\<close>: a node sends a peer the digests of its map, the peer
  answers with what it holds where the digests differ, and the node merges the answer. Objects taken
  from pools are arguments with whatever they hold; the order in which Go visits a map, random
  choices, the outcome of dialling and of the remote call are arguments too.

  The lemmas show what \<open>Pull\<close> selects: exactly the versions of the keys the requester is responsible for
  whose root, shard and sub-bucket digests all differ; and what \<open>Push\<close> does with them: it merges each
  under the conflict rule.
\<close>

section \<open>The syncer\<close>

record pull_config =
  pc_Shards :: "int \<rightharpoonup> u64"
  pc_Buckets :: "int \<rightharpoonup> u64 list"
  RequesterID :: string
  pc_Root :: u64

record pull_request =
  pr_RootDigest :: u64
  pr_ShardDigests :: "u32 \<rightharpoonup> u64"
  pr_SubDigests :: "u32 \<rightharpoonup> u64 list"
  pr_NodeId :: string

text \<open>What a syncer takes from its pools in one call.\<close>

record sync_pools =
  sp_shards :: "int \<rightharpoonup> u64"
  sp_buckets :: "int \<rightharpoonup> u64 list"

datatype syncer_panic = PanicNoMesh | PanicNoCache | PanicInterval

record syncer =
  sy_mesh :: mesher
  sy_config :: mesh_config
  sy_node :: string
  sy_interval :: i64
  sy_stopped :: bool
  sy_running :: bool

definition NewSyncer :: "mesher option \<Rightarrow> bool \<Rightarrow> mesh_config \<Rightarrow> string \<Rightarrow> i64 \<Rightarrow> syncer_panic + syncer" where
  "NewSyncer mesh cc cfg nodeID interval =
     (case mesh of
        None \<Rightarrow> Inl PanicNoMesh
      | Some m \<Rightarrow>
          if \<not> cc then Inl PanicNoCache
          else Inr \<lparr>sy_mesh = m, sy_config = cfg, sy_node = nodeID, sy_interval = interval, sy_stopped = False, sy_running = False\<rparr>)"

definition Start_syncer :: "syncer \<Rightarrow> syncer_panic + syncer" where
  "Start_syncer s = (if sint (sy_interval s) \<le> 0 then Inl PanicInterval else Inr (s\<lparr>sy_running := True\<rparr>))"

definition Stop_syncer :: "syncer \<Rightarrow> syncer" where
  "Stop_syncer s = s\<lparr>sy_stopped := True\<rparr>"

text \<open>Applying a batch stops at the first error. Each request comes with the wall clock readings its merge
  into the clock takes.\<close>

fun push_all :: "'t env \<Rightarrow> codec \<Rightarrow> i64 list list \<Rightarrow> wal_msg list \<Rightarrow> 't storage \<Rightarrow> (wal_error option \<times> 't storage) option" where
  "push_all E C tss [] sw = Some (None, sw)"
| "push_all E C [] (m # ms) sw = None"
| "push_all E C (ts # tss) (m # ms) sw =
     (case Apply E C ts m sw of
        None \<Rightarrow> None
      | Some (Some e, sw') \<Rightarrow> Some (Some e, sw')
      | Some (None, sw') \<Rightarrow> push_all E C tss ms sw')"

definition Push ::
  "'t env \<Rightarrow> codec \<Rightarrow> i64 list list \<Rightarrow> set_request list \<Rightarrow> delete_request list \<Rightarrow> 't storage \<Rightarrow>
   (wal_error option \<times> 't storage) option" where
  "Push E C tss sets deletes sw = push_all E C tss (map MsgSet sets @ map MsgDelete deletes) sw"

definition isRequesterResponsible :: "syncer \<Rightarrow> string \<Rightarrow> string \<Rightarrow> bool" where
  "isRequesterResponsible s key requesterID \<longleftrightarrow>
     (if SingleNode (sy_config s) then True
      else requesterID \<in> set (ms_GetOwners key (ReplicationFactor (sy_config s)) (sy_mesh s)))"

definition buildSetRequest :: "string \<Rightarrow> kv_value \<Rightarrow> set_request" where
  "buildSetRequest key val = \<lparr>set_key = key, set_value = Data val, set_timestamp = Timestamp val, set_node = NodeID val\<rparr>"

definition buildDeleteRequest :: "string \<Rightarrow> kv_value \<Rightarrow> delete_request" where
  "buildDeleteRequest key val = \<lparr>del_key = key, del_timestamp = Timestamp val, del_node = NodeID val\<rparr>"

text \<open>\<open>remote\<close> is \<open>None\<close> when the request has no entry for the shard.\<close>

definition calculateMismatchMask :: "u64 list option \<Rightarrow> u64 list \<Rightarrow> u64" where
  "calculateMismatchMask remote local =
     (case remote of
        None \<Rightarrow> - 1
      | Some r \<Rightarrow>
          if length r \<noteq> length local then - 1
          else foldl (\<lambda>msk i. if local ! i \<noteq> r ! i then msk OR push_bit i 1 else msk) 0 [0..<SubBucketCount])"

definition collectShardMismatches ::
  "'t env \<Rightarrow> syncer \<Rightarrow> 't sharded_map \<Rightarrow> int \<Rightarrow> u64 \<Rightarrow> string \<Rightarrow> set_request list \<times> delete_request list \<Rightarrow>
   set_request list \<times> delete_request list" where
  "collectShardMismatches E s hm shardID mismatchMask requesterID acc =
     RangeShard E shardID mismatchMask
       (\<lambda>k v (sets, deletes).
          if \<not> isRequesterResponsible s k requesterID then (sets, deletes)
          else if Tombstone v then (sets, deletes @ [buildDeleteRequest k v])
          else (sets @ [buildSetRequest k v], deletes)) hm acc"

definition Pull ::
  "'t env \<Rightarrow> syncer \<Rightarrow> sync_pools \<Rightarrow> int list \<Rightarrow> pull_config \<Rightarrow> 't sharded_map \<Rightarrow> set_request list \<times> delete_request list" where
  "Pull E s p order pc hm =
     (if pc_Root pc = RootDigest hm then ([], [])
      else
        (let localShardDigests = FillShardDigests hm (sp_shards p);
             localBuckets = (case FillDigests hm (Some (sp_buckets p)) of None \<Rightarrow> Map.empty | Some m \<Rightarrow> m)
         in foldl (\<lambda>acc shardID.
              case localShardDigests shardID of
                None \<Rightarrow> acc
              | Some localShardHash \<Rightarrow>
                  if pc_Shards pc shardID = Some localShardHash then acc
                  else
                    (let mismatchMask = calculateMismatchMask (pc_Buckets pc shardID)
                           (case localBuckets shardID of None \<Rightarrow> [] | Some l \<Rightarrow> l)
                     in if 0 < mismatchMask
                        then collectShardMismatches E s hm shardID mismatchMask (RequesterID pc) acc
                        else acc)) ([], []) order))"

definition excludeSelf :: "string list \<Rightarrow> string \<Rightarrow> string list" where
  "excludeSelf members self = filter (\<lambda>addr. addr \<noteq> self) members"

text \<open>The maps of the request are emptied before they are filled, so what the pooled request held does not
  matter.\<close>

definition preparePullRequest :: "syncer \<Rightarrow> sync_pools \<Rightarrow> 't sharded_map \<Rightarrow> pull_request" where
  "preparePullRequest s p hm =
     (let localShards = FillShardDigests hm (sp_shards p);
          localBuckets = (case FillDigests hm (Some (sp_buckets p)) of None \<Rightarrow> Map.empty | Some m \<Rightarrow> m)
      in \<lparr>pr_RootDigest = RootDigest hm,
          pr_ShardDigests = (\<lambda>u. localShards (sint u)),
          pr_SubDigests = (\<lambda>u. localBuckets (sint u)),
          pr_NodeId = sy_node s\<rparr>)"

text \<open>One round. \<open>dial\<close> says whether a client for an address is to be had, \<open>rpc\<close> what the peer's \<open>Pull\<close> returns.\<close>

definition performSync ::
  "'t env \<Rightarrow> codec \<Rightarrow> syncer \<Rightarrow> sync_pools \<Rightarrow> string list \<Rightarrow> nat \<Rightarrow> (string \<Rightarrow> bool) \<Rightarrow>
   (string \<Rightarrow> pull_request \<Rightarrow> (set_request list \<times> delete_request list) option) \<Rightarrow> i64 list list \<Rightarrow> 't storage \<Rightarrow> 't storage option" where
  "performSync E C s p order draw dial rpc tss sw =
     (let members = ms_Members order (sy_mesh s) in
      if length members = 0 then Some sw
      else
        (let peers = excludeSelf members (ms_AddressForNode (sy_node s) (sy_mesh s)) in
         if length peers = 0 then Some sw
         else
           (let target = peers ! (draw mod length peers) in
            if \<not> dial target then Some sw
            else
              (case rpc target (preparePullRequest s p (sw_hm sw)) of
                 None \<Rightarrow> Some sw
               | Some (entries, deletions) \<Rightarrow>
                   if length entries > 0 \<or> length deletions > 0
                   then map_option snd (Push E C tss entries deletions sw)
                   else Some sw))))"

text \<open>The loop of \<open>run\<close>: a round at once, unless the syncer is stopped already, then one per tick. \<open>sync i\<close> is a
  round with what it takes from outside.\<close>

datatype wake = StopSeen | TickSeen

fun run_loop :: "('i \<Rightarrow> 's \<Rightarrow> 's option) \<Rightarrow> (wake \<times> 'i) list \<Rightarrow> 's \<Rightarrow> 's option" where
  "run_loop sync [] s = Some s"
| "run_loop sync ((StopSeen, i) # ws) s = Some s"
| "run_loop sync ((TickSeen, i) # ws) s = (case sync i s of None \<Rightarrow> None | Some s' \<Rightarrow> run_loop sync ws s')"

definition run_syncer :: "('i \<Rightarrow> 's \<Rightarrow> 's option) \<Rightarrow> wake \<times> 'i \<Rightarrow> (wake \<times> 'i) list \<Rightarrow> 's \<Rightarrow> 's option" where
  "run_syncer sync first ws s =
     (case first of
        (StopSeen, i) \<Rightarrow> Some s
      | (TickSeen, i) \<Rightarrow> (case sync i s of None \<Rightarrow> None | Some s' \<Rightarrow> run_loop sync ws s'))"

section \<open>What \<open>Pull\<close> selects\<close>

lemma mask_fold:
  "bit (foldl (\<lambda>msk i. if P i then msk OR push_bit i (1 :: u64) else msk) m [0..<n]) b \<longleftrightarrow>
     bit m b \<or> b < n \<and> b < 64 \<and> P b"
  by (induction n) (auto simp: bit_simps less_Suc_eq)

lemma mismatch_bit:
  assumes "b < SubBucketCount"
  shows "bit (calculateMismatchMask remote local) b \<longleftrightarrow>
    (case remote of None \<Rightarrow> True | Some r \<Rightarrow> length r \<noteq> length local \<or> local ! b \<noteq> r ! b)"
  using assms by (auto simp: calculateMismatchMask_def mask_fold SubBucketCount_def bit_simps split: option.split)

lemma mask_positive: "bit msk b \<Longrightarrow> 0 < (msk :: u64)"
  by (metis bit_0_eq bot_apply bot_bool_def word_gt_0)

definition shard_entries :: "'t env \<Rightarrow> 't sharded_map \<Rightarrow> int \<Rightarrow> u64 \<Rightarrow> (string \<times> kv_value) list" where
  "shard_entries E hm shardID msk =
     (if shardID < 0 \<or> shardID \<ge> int ShardCount then []
      else concat (map (\<lambda>b. if bit msk b then tree_entries E hm (buckets (shards hm (nat shardID)) b) else []) [0..<SubBucketCount]))"

lemma fold_cond_concat:
  "fold (\<lambda>b s. if P b then fold f (g b) s else s) bs s = fold f (concat (map (\<lambda>b. if P b then g b else []) bs)) s"
  by (induction bs arbitrary: s) auto

lemma RangeShard_fold:
  "RangeShard E shardID msk callback hm s = fold (\<lambda>(k, v). callback k v) (shard_entries E hm shardID msk) s"
  by (simp add: RangeShard_def shard_entries_def fold_cond_concat)

text \<open>What a batch of entries contributes to an answer.\<close>

definition selected :: "syncer \<Rightarrow> string \<Rightarrow> (string \<times> kv_value) list \<Rightarrow> (string \<times> kv_value) list" where
  "selected s req es = filter (\<lambda>(k, v). isRequesterResponsible s k req) es"

definition set_part :: "(string \<times> kv_value) list \<Rightarrow> set_request list" where
  "set_part es = map (\<lambda>(k, v). buildSetRequest k v) (filter (\<lambda>(k, v). \<not> Tombstone v) es)"

definition delete_part :: "(string \<times> kv_value) list \<Rightarrow> delete_request list" where
  "delete_part es = map (\<lambda>(k, v). buildDeleteRequest k v) (filter (\<lambda>(k, v). Tombstone v) es)"

lemma parts_append [simp]:
  "selected s req (xs @ ys) = selected s req xs @ selected s req ys" "selected s req [] = []"
  "set_part (xs @ ys) = set_part xs @ set_part ys" "set_part [] = []"
  "delete_part (xs @ ys) = delete_part xs @ delete_part ys" "delete_part [] = []"
  by (simp_all add: selected_def set_part_def delete_part_def)

lemma collect_parts:
  "collectShardMismatches E s hm shardID msk req (sets, deletes) =
     (sets @ set_part (selected s req (shard_entries E hm shardID msk)),
      deletes @ delete_part (selected s req (shard_entries E hm shardID msk)))"
proof -
  have "fold (\<lambda>(k, v) (sets, deletes).
          if \<not> isRequesterResponsible s k req then (sets, deletes)
          else if Tombstone v then (sets, deletes @ [buildDeleteRequest k v])
          else (sets @ [buildSetRequest k v], deletes)) es (sets, deletes) =
        (sets @ set_part (selected s req es), deletes @ delete_part (selected s req es))" for es sets deletes
    by (induction es arbitrary: sets deletes) (auto simp: selected_def set_part_def delete_part_def)
  then show ?thesis by (simp add: collectShardMismatches_def RangeShard_fold)
qed

text \<open>The entries of a shard that \<open>Pull\<close> goes through.\<close>

definition shard_answer :: "'t env \<Rightarrow> sync_pools \<Rightarrow> pull_config \<Rightarrow> 't sharded_map \<Rightarrow> int \<Rightarrow> (string \<times> kv_value) list" where
  "shard_answer E p pc hm i =
     (case FillShardDigests hm (sp_shards p) i of
        None \<Rightarrow> []
      | Some h \<Rightarrow>
          if pc_Shards pc i = Some h then []
          else shard_entries E hm i (calculateMismatchMask (pc_Buckets pc i)
                 (case (case FillDigests hm (Some (sp_buckets p)) of None \<Rightarrow> Map.empty | Some m \<Rightarrow> m) i of None \<Rightarrow> [] | Some l \<Rightarrow> l)))"

lemma shard_entries_zero: "shard_entries E hm i 0 = []"
  by (simp add: shard_entries_def)

lemma Pull_parts:
  assumes "pc_Root pc \<noteq> RootDigest hm"
  shows "Pull E s p order pc hm =
    (set_part (selected s (RequesterID pc) (concat (map (shard_answer E p pc hm) order))),
     delete_part (selected s (RequesterID pc) (concat (map (shard_answer E p pc hm) order))))"
proof -
  let ?q = "RequesterID pc"
  let ?lb = "case FillDigests hm (Some (sp_buckets p)) of None \<Rightarrow> Map.empty | Some m \<Rightarrow> m"
  let ?step = "\<lambda>acc i. case FillShardDigests hm (sp_shards p) i of None \<Rightarrow> acc
     | Some h \<Rightarrow> if pc_Shards pc i = Some h then acc
        else (let msk = calculateMismatchMask (pc_Buckets pc i) (case ?lb i of None \<Rightarrow> [] | Some l \<Rightarrow> l)
              in if 0 < msk then collectShardMismatches E s hm i msk ?q acc else acc)"
  have step: "?step (sets, deletes) i = (sets @ set_part (selected s ?q (shard_answer E p pc hm i)),
      deletes @ delete_part (selected s ?q (shard_answer E p pc hm i)))" for sets deletes i
    by (auto simp: shard_answer_def collect_parts shard_entries_zero Let_def word_gt_0 split: option.splits)
  have "foldl ?step (sets, deletes) is =
      (sets @ set_part (selected s ?q (concat (map (shard_answer E p pc hm) is))),
       deletes @ delete_part (selected s ?q (concat (map (shard_answer E p pc hm) is))))" for sets deletes "is"
    by (induction "is" arbitrary: sets deletes) (simp_all only: foldl_Cons foldl_Nil step list.map concat.simps parts_append append_assoc append_Nil2)
  from this [of "[]" "[]" order] show ?thesis using assms by (simp add: Pull_def Let_def)
qed

text \<open>A request with the digests of the map \<open>a\<close>, and what pools hold between calls.\<close>

definition digests_of :: "'t sharded_map \<Rightarrow> pull_config \<Rightarrow> bool" where
  "digests_of a pc \<longleftrightarrow> pc_Root pc = RootDigest a \<and>
     (\<forall>i < ShardCount. pc_Shards pc (int i) = Some (shard_pub a i) \<and>
        pc_Buckets pc (int i) = Some (map (sub_pub a i) [0..<SubBucketCount]))"

definition pools_ok :: "sync_pools \<Rightarrow> bool" where
  "pools_ok p \<longleftrightarrow> (\<forall>j. j < 0 \<or> int ShardCount \<le> j \<longrightarrow> sp_shards p j = None \<and> sp_buckets p j = None) \<and>
     (\<forall>i < ShardCount. \<exists>ds. sp_buckets p (int i) = Some ds \<and> length ds = SubBucketCount)"

definition visit_order :: "int list \<Rightarrow> bool" where
  "visit_order order \<longleftrightarrow> distinct order \<and> set order = int ` {..<ShardCount}"

text \<open>The digests of the root, of the key's shard and of its sub-bucket all differ.\<close>

definition differs :: "'t env \<Rightarrow> 't sharded_map \<Rightarrow> 't sharded_map \<Rightarrow> string \<Rightarrow> bool" where
  "differs E a b k \<longleftrightarrow> RootDigest a \<noteq> RootDigest b \<and>
     shard_pub a (shardIndex (HashFunc E k)) \<noteq> shard_pub b (shardIndex (HashFunc E k)) \<and>
     sub_pub a (shardIndex (HashFunc E k)) (subIndex (HashFunc E k)) \<noteq> sub_pub b (shardIndex (HashFunc E k)) (subIndex (HashFunc E k))"

lemma local_digests:
  assumes "pools_ok p"
  shows "FillShardDigests hm (sp_shards p) j = (if 0 \<le> j \<and> j < int ShardCount then Some (shard_pub hm (nat j)) else None)"
    and "FillDigests hm (Some (sp_buckets p)) = Some m \<Longrightarrow>
      m j = (if 0 \<le> j \<and> j < int ShardCount then Some (map (sub_pub hm (nat j)) [0..<SubBucketCount]) else None)"
    and "\<exists>m. FillDigests hm (Some (sp_buckets p)) = Some m"
proof -
  show "FillShardDigests hm (sp_shards p) j = (if 0 \<le> j \<and> j < int ShardCount then Some (shard_pub hm (nat j)) else None)"
    using assms by (auto simp: FillShardDigests_at pools_ok_def not_le not_less)
  show "\<exists>m. FillDigests hm (Some (sp_buckets p)) = Some m" by (simp add: FillDigests_def)
  assume m: "FillDigests hm (Some (sp_buckets p)) = Some m"
  have b: "fill_buf hm i (Some ds) = map (sub_pub hm i) [0..<SubBucketCount]" if "length ds = SubBucketCount" for i ds
    using that by (simp add: fill_buf_def sub_pub_def Let_def)
  show "m j = (if 0 \<le> j \<and> j < int ShardCount then Some (map (sub_pub hm (nat j)) [0..<SubBucketCount]) else None)"
  proof (cases "0 \<le> j \<and> j < int ShardCount")
    case True
    then have "nat j < ShardCount" "int (nat j) = j" by auto
    then obtain ds where "sp_buckets p j = Some ds" "length ds = SubBucketCount"
      using assms unfolding pools_ok_def by metis
    then show ?thesis using b True m by (auto simp: FillDigests_def foldl_upd_dep_upt)
  next
    case False
    then show ?thesis using m assms by (auto simp: FillDigests_def foldl_upd_dep_upt pools_ok_def)
  qed
qed

lemma shard_answer_mem:
  assumes "replica_inv E b" and "pools_ok p" and "digests_of a pc" and "i < ShardCount"
  shows "(k, v) \<in> set (shard_answer E p pc b (int i)) \<longleftrightarrow> contents E b k = Some v \<and> i = shardIndex (HashFunc E k) \<and>
    shard_pub a i \<noteq> shard_pub b i \<and> sub_pub a i (subIndex (HashFunc E k)) \<noteq> sub_pub b i (subIndex (HashFunc E k))"
proof -
  obtain m where m: "FillDigests b (Some (sp_buckets p)) = Some m" using local_digests(3) [OF assms(2)] by blast
  have d: "pc_Shards pc (int i) = Some (shard_pub a i)" "pc_Buckets pc (int i) = Some (map (sub_pub a i) [0..<SubBucketCount])"
    using assms(3,4) by (simp_all add: digests_of_def)
  have "shard_answer E p pc b (int i) = (if shard_pub a i = shard_pub b i then []
      else concat (map (\<lambda>c. if sub_pub a i c \<noteq> sub_pub b i c then tree_entries E b (buckets (shards b i) c) else []) [0..<SubBucketCount]))"
  proof -
    let ?msk = "calculateMismatchMask (Some (map (sub_pub a i) [0..<SubBucketCount])) (map (sub_pub b i) [0..<SubBucketCount])"
    have "bit ?msk c \<longleftrightarrow> sub_pub a i c \<noteq> sub_pub b i c" if "c < SubBucketCount" for c
      using that by (auto simp: mismatch_bit)
    then have e: "shard_entries E b (int i) ?msk =
        concat (map (\<lambda>c. if sub_pub a i c \<noteq> sub_pub b i c then tree_entries E b (buckets (shards b i) c) else []) [0..<SubBucketCount])"
      using assms(4) by (auto simp: shard_entries_def intro!: arg_cong [of _ _ concat])
    have "m (int i) = Some (map (sub_pub b i) [0..<SubBucketCount])"
      using local_digests(2) [OF assms(2) m, of "int i"] assms(4) by simp
    moreover have "FillShardDigests b (sp_shards p) (int i) = Some (shard_pub b i)"
      using local_digests(1) [OF assms(2), of b "int i"] assms(4) by simp
    ultimately show ?thesis using e m d by (auto simp: shard_answer_def)
  qed
  then show ?thesis
    using replicaD(1) [OF assms(1)]
    by (auto simp: tree_entries_mem entry_placed [OF assms(1)] split: if_splits)
qed

lemma answer_mem:
  assumes "replica_inv E b" and "pools_ok p" and "digests_of a pc" and "visit_order order" and "RootDigest a \<noteq> RootDigest b"
  shows "(k, v) \<in> set (concat (map (shard_answer E p pc b) order)) \<longleftrightarrow> contents E b k = Some v \<and> differs E a b k"
  using assms(4,5) shard_answer_mem [OF assms(1-3)] by (auto simp: visit_order_def differs_def)

lemma answer_distinct:
  assumes "replica_inv E b" and "pools_ok p" and "digests_of a pc" and "visit_order order"
  shows "distinct (map fst (concat (map (shard_answer E p pc b) order)))"
proof -
  note I = replicaD(1) [OF assms(1)]
  have se: "distinct (map fst (shard_entries E b i msk))" for i msk
    unfolding shard_entries_def
    by (auto simp: map_concat comp_def tree_entries_mem [OF I] entry_placed [OF assms(1)] split: if_splits
        intro!: distinct_concat_map tree_entries_distinct [OF I])
  have d: "distinct (map fst (shard_answer E p pc b i))" for i
    by (auto simp: shard_answer_def se split: option.split)
  have u: "i = int (shardIndex (HashFunc E k))" if "k \<in> fst ` set (shard_answer E p pc b i)" "i \<in> set order" for i k
    using that shard_answer_mem [OF assms(1-3)] assms(4) by (auto simp: visit_order_def)
  have "set (map fst (shard_answer E p pc b i)) \<inter> set (map fst (shard_answer E p pc b j)) = {}"
    if "i \<in> set order" "j \<in> set order" "i \<noteq> j" for i j
    using u [OF _ that(1)] u [OF _ that(2)] that(3) unfolding set_map by blast
  then show ?thesis
    using assms(4) d unfolding map_concat map_map comp_def
    by (intro distinct_concat_map) (simp_all add: visit_order_def)
qed

section \<open>What \<open>Push\<close> does with an answer\<close>

text \<open>An empty byte field is not sent, and arrives as \<open>nil\<close>.\<close>

definition wire_set :: "set_request \<Rightarrow> set_request" where
  "wire_set r = r\<lparr>set_value := (if slice_len (set_value r) = 0 then None else set_value r)\<rparr>"

definition msg_for :: "string \<Rightarrow> kv_value \<Rightarrow> wal_msg" where
  "msg_for k v = (if Tombstone v then MsgDelete (buildDeleteRequest k v) else MsgSet (wire_set (buildSetRequest k v)))"

definition arrived :: "'t env \<Rightarrow> string \<Rightarrow> kv_value \<Rightarrow> kv_value" where
  "arrived E k v = version E k (req_value (msg_for k v))"

lemma built_key [simp]: "set_key (wire_set (buildSetRequest k v)) = k" "del_key (buildDeleteRequest k v) = k"
  by (simp_all add: wire_set_def buildSetRequest_def buildDeleteRequest_def)

lemma answer_messages:
  assumes "distinct (map fst es)"
  shows "filter (\<lambda>m. msg_key m = k) (map MsgSet (map wire_set (set_part es)) @ map MsgDelete (delete_part es)) =
    (case map_of es k of None \<Rightarrow> [] | Some v \<Rightarrow> [msg_for k v])"
  using assms
proof (induction es)
  case (Cons e es)
  obtain j v where e: "e = (j, v)" by (cases e)
  have "map_of es k = None" if "j = k" using Cons.prems e that by (auto simp: map_of_eq_None_iff)
  then show ?case using Cons.IH Cons.prems
    by (auto simp: e set_part_def delete_part_def msg_for_def split: option.splits)
qed (simp add: set_part_def delete_part_def)

lemma Apply_merge:
  assumes "replica_inv E (sw_hm sw)" and "is_req m" and "Apply E C ts m sw = Some (e, sw')"
  shows "replica_inv E (sw_hm sw') \<and> contents E (sw_hm sw') k =
    (if msg_key m = k then lww.merge (contents E (sw_hm sw) k) (version E k (req_value m)) else contents E (sw_hm sw) k)"
  using assms
proof (cases rule: Apply_cases)
  case (stale c)
  then show ?thesis using assms(1) by (auto simp: req_wins_def lww.merge_def split: option.splits)
next
  case (won c w')
  then show ?thesis
    using Store_replica [OF assms(1)] contents_Store [OF replicaD(1) [OF assms(1)]]
    by (auto simp: req_wins_def lww.merge_def split: option.splits)
qed

lemma push_all_merge:
  "push_all E C tss ms sw = Some (None, sw') \<Longrightarrow> replica_inv E (sw_hm sw) \<Longrightarrow> list_all is_req ms \<Longrightarrow>
   replica_inv E (sw_hm sw') \<and> contents E (sw_hm sw') k =
     foldl lww.merge (contents E (sw_hm sw) k) (map (\<lambda>m. version E k (req_value m)) (filter (\<lambda>m. msg_key m = k) ms))"
proof (induction E C tss ms sw rule: push_all.induct)
  case (3 E C ts tss m ms sw)
  then obtain sw1 where a: "Apply E C ts m sw = Some (None, sw1)" "push_all E C tss ms sw1 = Some (None, sw')"
    by (auto split: option.splits)
  have m: "is_req m" "list_all is_req ms" using "3.prems"(3) by simp_all
  note s = Apply_merge [OF "3.prems"(2) m(1) a(1)]
  have "replica_inv E (sw_hm sw1)" using s by blast
  from "3.IH" [OF a(1) refl refl a(2) this m(2)] show ?case using s [of k] by simp
qed simp_all

lemma pull_push:
  assumes "replica_inv E (sw_hm sw)" and "replica_inv E b" and "pools_ok p" and "digests_of (sw_hm sw) pc" and "visit_order order"
    and "Pull E s p order pc b = (sets, deletes)" and "Push E C tss (map wire_set sets) deletes sw = Some (None, sw')"
  shows "replica_inv E (sw_hm sw') \<and> contents E (sw_hm sw') k =
    (if differs E (sw_hm sw) b k \<and> isRequesterResponsible s k (RequesterID pc)
     then (case contents E b k of None \<Rightarrow> contents E (sw_hm sw) k | Some v \<Rightarrow> lww.merge (contents E (sw_hm sw) k) (arrived E k v))
     else contents E (sw_hm sw) k)"
proof (cases "RootDigest (sw_hm sw) = RootDigest b")
  case True
  then have "sets = [] \<and> deletes = []" using assms(4,6) by (auto simp: Pull_def digests_of_def)
  then show ?thesis using assms(1,7) True by (simp add: Push_def differs_def)
next
  case False
  let ?es = "concat (map (shard_answer E p pc b) order)" and ?q = "RequesterID pc"
  let ?ms = "map MsgSet (map wire_set sets) @ map MsgDelete deletes"
  note mem = answer_mem [OF assms(2-5) False]
  have "pc_Root pc \<noteq> RootDigest b" using False assms(4) by (simp add: digests_of_def)
  then have p: "sets = set_part (selected s ?q ?es)" "deletes = delete_part (selected s ?q ?es)"
    using assms(6) Pull_parts [of pc b E s p order] by simp_all
  have d: "distinct (map fst (selected s ?q ?es))"
    using answer_distinct [OF assms(2-5)] by (simp add: selected_def distinct_map_filter)
  have sel: "(k, v) \<in> set (selected s ?q ?es) \<longleftrightarrow> contents E b k = Some v \<and> differs E (sw_hm sw) b k \<and> isRequesterResponsible s k ?q" for v
    using mem [of k v] by (auto simp: selected_def)
  have "map_of (selected s ?q ?es) k = Some v \<longleftrightarrow>
      (if differs E (sw_hm sw) b k \<and> isRequesterResponsible s k ?q then contents E b k else None) = Some v" for v
    using sel [of v] map_of_eq_Some_iff [OF d, of k v] by simp
  then have "map_of (selected s ?q ?es) k = (if differs E (sw_hm sw) b k \<and> isRequesterResponsible s k ?q then contents E b k else None)"
    by (metis option.exhaust)
  then have f: "filter (\<lambda>m. msg_key m = k) ?ms = (if differs E (sw_hm sw) b k \<and> isRequesterResponsible s k ?q
      then (case contents E b k of None \<Rightarrow> [] | Some v \<Rightarrow> [msg_for k v]) else [])"
    unfolding p answer_messages [OF d] by simp
  have "list_all is_req ?ms" by (auto simp: list_all_iff)
  from push_all_merge [OF assms(7) [unfolded Push_def] assms(1) this, of k, unfolded f]
  show ?thesis by (auto simp: arrived_def split: option.splits)
qed

section \<open>Two replicas\<close>

definition bare_tombstones :: "'t env \<Rightarrow> 't sharded_map \<Rightarrow> bool" where
  "bare_tombstones E m \<longleftrightarrow> (\<forall>k v. contents E m k = Some v \<longrightarrow> Tombstone v \<longrightarrow> slice_len (Data v) = 0)"

lemma contents_hash:
  assumes "replica_inv E m" and "contents E m k = Some v"
  shows "ItemHash v = getItemHash E (HashFunc E k) v"
  using assms by (auto simp: replica_inv_def placed_def contents_def lookup_def)

text \<open>Nothing the conflict rule looks at changes on the way.\<close>

lemma arrived_key:
  assumes "replica_inv E m" and "bare_tombstones E m" and "contents E m k = Some v"
  shows "lww_key (arrived E k v) = lww_key v" "Tombstone (arrived E k v) = Tombstone v"
    "slice_bytes (Data (arrived E k v)) = slice_bytes (Data v)"
proof -
  have h: "ItemHash v = getItemHash E (HashFunc E k) v" by (rule contents_hash [OF assms(1,3)])
  have t: "Tombstone v \<Longrightarrow> slice_len (Data v) = 0" using assms(2,3) by (auto simp: bare_tombstones_def)
  have f: "NodeID (arrived E k v) = NodeID v" "Timestamp (arrived E k v) = Timestamp v" and tb: "Tombstone (arrived E k v) = Tombstone v"
    and d: "slice_bytes (Data (arrived E k v)) = slice_bytes (Data v)"
    using t by (auto simp: arrived_def msg_for_def version_def stamped_def set_to_value_def delete_to_value_def buildSetRequest_def
        buildDeleteRequest_def wire_set_def slice_len_def simp del: req_value_fields split: option.splits)
  have "getItemHash E (HashFunc E k) (arrived E k v) = getItemHash E (HashFunc E k) v"
    unfolding getItemHash_def slice_len_def f tb d by (rule refl)
  moreover have "ItemHash (arrived E k v) = getItemHash E (HashFunc E k) (arrived E k v)"
    by (simp add: arrived_def version_def stamped_def)
  ultimately show "lww_key (arrived E k v) = lww_key v" "Tombstone (arrived E k v) = Tombstone v"
    "slice_bytes (Data (arrived E k v)) = slice_bytes (Data v)" using h f tb d by (simp_all add: lww_key_def)
qed

text \<open>The rank of what a replica holds for a key, with nothing below everything.\<close>

definition held :: "'t env \<Rightarrow> 't sharded_map \<Rightarrow> string \<Rightarrow> (int \<times> string \<times> u64) option" where
  "held E m k = map_option lww_key (contents E m k)"

lemma merge_key: "map_option lww_key (lww.merge e v) = max (map_option lww_key e) (Some (lww_key v))"
  by (cases e) (auto simp: lww.merge_def lwwWins_key max_def)

end
