(* ===== verification/Client_Cache.thy ===== *)
theory Client_Cache
  imports Prelude
begin

text \<open>
  The cache of client connections of \<open>src/cluster/gateway/clientcache.go\<close>. Connections are opened and
  closed by racing goroutines, which a step relation interleaves at every access to the shared state:
  the closed flag, the map of clients and the lock.

  The lemmas show that every open connection has exactly one place, in the cache or with the goroutine
  that will close it or store it, so that none leaks whatever the interleaving.
\<close>

section \<open>The client cache\<close>

text \<open>Where a goroutine is. The calls of \<open>Get\<close> that share a dial through the single-flight group are one
  goroutine here or several; nothing below depends on it. A client is a number.\<close>

datatype cc_pc =
    CIdle
  | CWant string
  | CMiss string
  | CDial string
  | CDialed string nat
  | CLocked string nat
  | CChecked string nat
  | CDrop nat "nat option"
  | CDone "nat option"
  | KWant
  | KLocked

record client_cache =
  cc_clients :: "string \<rightharpoonup> nat"
  cc_mu :: "nat option"
  cc_closed :: bool

record cc_sys =
  cc_cache :: client_cache
  cc_open :: "nat set"
  cc_next :: nat
  cc_pcs :: "nat \<Rightarrow> cc_pc"

definition NewClientCache :: client_cache where
  "NewClientCache = \<lparr>cc_clients = Map.empty, cc_mu = None, cc_closed = False\<rparr>"

definition cc_init :: cc_sys where
  "cc_init = \<lparr>cc_cache = NewClientCache, cc_open = {}, cc_next = 0, cc_pcs = (\<lambda>_. CIdle)\<rparr>"

definition cc_to :: "nat \<Rightarrow> cc_pc \<Rightarrow> cc_sys \<Rightarrow> cc_sys" where
  "cc_to i pc s = s\<lparr>cc_pcs := (cc_pcs s)(i := pc)\<rparr>"

definition cc_upd :: "(client_cache \<Rightarrow> client_cache) \<Rightarrow> cc_sys \<Rightarrow> cc_sys" where
  "cc_upd f s = s\<lparr>cc_cache := f (cc_cache s)\<rparr>"

inductive cc_step :: "cc_sys \<Rightarrow> cc_sys \<Rightarrow> bool" where
  get_refused: "cc_pcs s i = CIdle \<Longrightarrow> cc_closed (cc_cache s) \<Longrightarrow> cc_step s (cc_to i (CDone None) s)"
| get_start: "cc_pcs s i = CIdle \<Longrightarrow> \<not> cc_closed (cc_cache s) \<Longrightarrow> cc_step s (cc_to i (CWant a) s)"
| get_hit: "cc_pcs s i = CWant a \<Longrightarrow> cc_clients (cc_cache s) a = Some c \<Longrightarrow> cc_step s (cc_to i (CDone (Some c)) s)"
| get_miss: "cc_pcs s i = CWant a \<Longrightarrow> cc_clients (cc_cache s) a = None \<Longrightarrow> cc_step s (cc_to i (CMiss a) s)"
| again_hit: "cc_pcs s i = CMiss a \<Longrightarrow> cc_clients (cc_cache s) a = Some c \<Longrightarrow> cc_step s (cc_to i (CDone (Some c)) s)"
| again_miss: "cc_pcs s i = CMiss a \<Longrightarrow> cc_clients (cc_cache s) a = None \<Longrightarrow> cc_step s (cc_to i (CDial a) s)"
| dial_failed: "cc_pcs s i = CDial a \<Longrightarrow> cc_step s (cc_to i (CDone None) s)"
| dialed: "cc_pcs s i = CDial a \<Longrightarrow>
     cc_step s (cc_to i (CDialed a (cc_next s)) (s\<lparr>cc_open := insert (cc_next s) (cc_open s), cc_next := Suc (cc_next s)\<rparr>))"
| lock: "cc_pcs s i = CDialed a n \<Longrightarrow> cc_mu (cc_cache s) = None \<Longrightarrow>
     cc_step s (cc_to i (CLocked a n) (cc_upd (\<lambda>c. c\<lparr>cc_mu := Some i\<rparr>) s))"
| found_closed: "cc_pcs s i = CLocked a n \<Longrightarrow> cc_closed (cc_cache s) \<Longrightarrow>
     cc_step s (cc_to i (CDrop n None) (cc_upd (\<lambda>c. c\<lparr>cc_mu := None\<rparr>) s))"
| found_open: "cc_pcs s i = CLocked a n \<Longrightarrow> \<not> cc_closed (cc_cache s) \<Longrightarrow> cc_step s (cc_to i (CChecked a n) s)"
| loaded: "cc_pcs s i = CChecked a n \<Longrightarrow> cc_clients (cc_cache s) a = Some c \<Longrightarrow>
     cc_step s (cc_to i (CDrop n (Some c)) (cc_upd (\<lambda>c. c\<lparr>cc_mu := None\<rparr>) s))"
| stored: "cc_pcs s i = CChecked a n \<Longrightarrow> cc_clients (cc_cache s) a = None \<Longrightarrow>
     cc_step s (cc_to i (CDone (Some n)) (cc_upd (\<lambda>c. c\<lparr>cc_clients := (cc_clients c)(a \<mapsto> n), cc_mu := None\<rparr>) s))"
| dropped: "cc_pcs s i = CDrop n r \<Longrightarrow> cc_step s (cc_to i (CDone r) (s\<lparr>cc_open := cc_open s - {n}\<rparr>))"
| close_again: "cc_pcs s i = CIdle \<Longrightarrow> cc_closed (cc_cache s) \<Longrightarrow> cc_step s (cc_to i (CDone None) s)"
| close_swap: "cc_pcs s i = CIdle \<Longrightarrow> \<not> cc_closed (cc_cache s) \<Longrightarrow>
     cc_step s (cc_to i KWant (cc_upd (\<lambda>c. c\<lparr>cc_closed := True\<rparr>) s))"
| close_lock: "cc_pcs s i = KWant \<Longrightarrow> cc_mu (cc_cache s) = None \<Longrightarrow>
     cc_step s (cc_to i KLocked (cc_upd (\<lambda>c. c\<lparr>cc_mu := Some i\<rparr>) s))"
| close_one: "cc_pcs s i = KLocked \<Longrightarrow> cc_clients (cc_cache s) a = Some n \<Longrightarrow>
     cc_step s (cc_upd (\<lambda>c. c\<lparr>cc_clients := (cc_clients c)(a := None)\<rparr>) (s\<lparr>cc_open := cc_open s - {n}\<rparr>))"
| close_done: "cc_pcs s i = KLocked \<Longrightarrow> cc_clients (cc_cache s) = Map.empty \<Longrightarrow>
     cc_step s (cc_to i (CDone None) (cc_upd (\<lambda>c. c\<lparr>cc_mu := None\<rparr>) s))"

inductive cc_reachable :: "cc_sys \<Rightarrow> bool" where
  cc_start: "cc_reachable cc_init"
| cc_next_step: "cc_reachable s \<Longrightarrow> cc_step s s' \<Longrightarrow> cc_reachable s'"

text \<open>Which client a goroutine is answerable for, and which goroutines hold the lock.\<close>

fun carries :: "cc_pc \<Rightarrow> nat option" where
  "carries (CDialed a n) = Some n"
| "carries (CLocked a n) = Some n"
| "carries (CChecked a n) = Some n"
| "carries (CDrop n r) = Some n"
| "carries _ = None"

fun holds_mu :: "cc_pc \<Rightarrow> bool" where
  "holds_mu (CLocked a n) = True"
| "holds_mu (CChecked a n) = True"
| "holds_mu KLocked = True"
| "holds_mu _ = False"

fun checked :: "cc_pc \<Rightarrow> bool" where
  "checked (CChecked a n) = True"
| "checked _ = False"

fun waiting :: "cc_pc \<Rightarrow> bool" where
  "waiting KWant = True"
| "waiting _ = False"

fun closing :: "cc_pc \<Rightarrow> bool" where
  "closing KWant = True"
| "closing KLocked = True"
| "closing _ = False"

definition some_pc :: "(cc_pc \<Rightarrow> bool) \<Rightarrow> (nat \<Rightarrow> cc_pc) \<Rightarrow> bool" where
  "some_pc P f \<longleftrightarrow> (\<exists>i. P (f i))"

lemma some_pc_upd [simp]:
  "P x \<Longrightarrow> some_pc P (f(i := x))"
  "\<not> P (f i) \<Longrightarrow> \<not> P x \<Longrightarrow> some_pc P (f(i := x)) = some_pc P f"
  by (auto simp: some_pc_def)

definition one_holder :: "(nat \<Rightarrow> cc_pc) \<Rightarrow> nat option \<Rightarrow> bool" where
  "one_holder f m \<longleftrightarrow> (\<forall>i. holds_mu (f i) \<longleftrightarrow> m = Some i)"

lemma one_holder_moves [simp]:
  "one_holder f m \<Longrightarrow> holds_mu x = holds_mu (f i) \<Longrightarrow> one_holder (f(i := x)) m"
  "one_holder f None \<Longrightarrow> holds_mu x \<Longrightarrow> one_holder (f(i := x)) (Some i)"
  "one_holder f m \<Longrightarrow> holds_mu (f i) \<Longrightarrow> \<not> holds_mu x \<Longrightarrow> one_holder (f(i := x)) None"
  by (auto simp: one_holder_def)

text \<open>The lock has one holder; a goroutine that saw the cache open under the lock keeps a closing goroutine
  waiting; and a closed cache with clients still has someone to close them.\<close>

definition lock_inv :: "cc_sys \<Rightarrow> bool" where
  "lock_inv s \<longleftrightarrow>
     one_holder (cc_pcs s) (cc_mu (cc_cache s)) \<and>
     (cc_closed (cc_cache s) \<longrightarrow> some_pc checked (cc_pcs s) \<longrightarrow> some_pc waiting (cc_pcs s)) \<and>
     (cc_closed (cc_cache s) \<longrightarrow> cc_clients (cc_cache s) \<noteq> Map.empty \<longrightarrow> some_pc closing (cc_pcs s))"

lemmas cc_simps = cc_to_def cc_upd_def

lemma checked_holds: "checked pc \<Longrightarrow> holds_mu pc"
  by (cases pc) auto

lemma mu_holder:
  assumes "lock_inv s"
  shows "holds_mu (cc_pcs s i) \<longleftrightarrow> cc_mu (cc_cache s) = Some i" "checked (cc_pcs s i) \<Longrightarrow> cc_mu (cc_cache s) = Some i"
    "cc_mu (cc_cache s) = None \<Longrightarrow> \<not> some_pc checked (cc_pcs s)"
proof -
  show h: "holds_mu (cc_pcs s i) \<longleftrightarrow> cc_mu (cc_cache s) = Some i" for i using assms by (simp add: lock_inv_def one_holder_def)
  show c: "cc_mu (cc_cache s) = Some i" if "checked (cc_pcs s i)" for i using h [of i] checked_holds [OF that] by simp
  show "\<not> some_pc checked (cc_pcs s)" if "cc_mu (cc_cache s) = None" using c that by (auto simp: some_pc_def)
qed

text \<open>When the holder of the lock moves on, no goroutine is between its check and its store.\<close>

lemma after_holder:
  assumes "lock_inv s" and "holds_mu (cc_pcs s i)" and "\<not> checked x"
  shows "\<not> some_pc checked ((cc_pcs s)(i := x))"
proof
  assume "some_pc checked ((cc_pcs s)(i := x))"
  then obtain j where "j \<noteq> i" "checked (cc_pcs s j)" using assms(3) by (auto simp: some_pc_def split: if_splits)
  then show False using mu_holder(1) [OF assms(1), of i] mu_holder(2) [OF assms(1), of j] assms(2) by simp
qed

lemma lock_step: "cc_step s s' \<Longrightarrow> lock_inv s \<Longrightarrow> lock_inv s'"
proof (induction rule: cc_step.induct)
  case (loaded s i a n c)
  have "\<not> some_pc checked ((cc_pcs s)(i := CDrop n (Some c)))"
    by (rule after_holder) (use loaded in simp_all)
  then show ?case using loaded by (auto simp: lock_inv_def cc_simps)
next
  case (stored s i a n)
  have "\<not> some_pc checked ((cc_pcs s)(i := CDone (Some n)))"
    by (rule after_holder) (use stored in simp_all)
  moreover have "some_pc closing (cc_pcs s)" if c: "cc_closed (cc_cache s)"
  proof -
    have "some_pc checked (cc_pcs s)" using stored.hyps(1) unfolding some_pc_def by (intro exI [of _ i]) simp
    then have "some_pc waiting (cc_pcs s)" using stored.prems c by (simp add: lock_inv_def)
    then obtain j where "waiting (cc_pcs s j)" by (auto simp: some_pc_def)
    then have "closing (cc_pcs s j)" by (cases "cc_pcs s j") auto
    then show ?thesis by (auto simp: some_pc_def)
  qed
  ultimately show ?case using stored by (auto simp: lock_inv_def cc_simps)
next
  case (close_lock s i)
  then have "\<not> some_pc checked (cc_pcs s)" using mu_holder(3) by blast
  then show ?case using close_lock by (auto simp: lock_inv_def cc_simps)
next
  case (found_closed s i a n)
  have "\<not> some_pc checked ((cc_pcs s)(i := CDrop n None))"
    by (rule after_holder) (use found_closed in simp_all)
  then show ?case using found_closed by (auto simp: lock_inv_def cc_simps)
next
  case (close_done s i)
  have "\<not> some_pc checked ((cc_pcs s)(i := CDone None))"
    by (rule after_holder) (use close_done in simp_all)
  then show ?case using close_done by (auto simp: lock_inv_def cc_simps)
qed (auto simp: lock_inv_def cc_simps)

text \<open>Who answers for a client: the cache, under an address, or a goroutine. A map is tight on a set when it
  is injective and the set is its range: every member has exactly one place.\<close>

definition tight :: "('a \<rightharpoonup> 'b) \<Rightarrow> 'b set \<Rightarrow> bool" where
  "tight h A \<longleftrightarrow> inj_on h (dom h) \<and> ran h = A"

lemma tight_add: "tight h A \<Longrightarrow> n \<notin> A \<Longrightarrow> h x = None \<Longrightarrow> tight (h(x \<mapsto> n)) (insert n A)"
  by (auto simp: tight_def inj_on_def dom_def) (auto simp: ran_def)

lemma tight_remove: "tight h A \<Longrightarrow> h x = Some n \<Longrightarrow> tight (h(x := None)) (A - {n})"
proof -
  assume h: "tight h A" "h x = Some n"
  then have inj: "inj_on h (dom h)" and A: "A = ran h" by (auto simp: tight_def)
  have only: "y = x" if "h y = Some n" for y using inj_onD [OF inj, of y x] h(2) that by auto
  have "inj_on (h(x := None)) (dom (h(x := None)))" using inj by (auto simp: inj_on_def)
  moreover have "ran (h(x := None)) = ran h - {n}"
  proof (intro set_eqI iffI)
    fix m assume "m \<in> ran (h(x := None))"
    then obtain y where "y \<noteq> x" "h y = Some m" by (auto simp: ran_def split: if_splits)
    then show "m \<in> ran h - {n}" using only by (auto intro: ranI)
  next
    fix m assume "m \<in> ran h - {n}"
    then obtain y where "h y = Some m" "m \<noteq> n" by (auto simp: ran_def)
    then have "(h(x := None)) y = Some m" using h(2) by auto
    then show "m \<in> ran (h(x := None))" by (rule ranI)
  qed
  ultimately show ?thesis by (simp add: tight_def A)
qed

lemma tight_move: "tight h A \<Longrightarrow> h x = Some n \<Longrightarrow> h y = None \<Longrightarrow> tight (h(x := None, y \<mapsto> n)) A"
proof -
  assume h: "tight h A" "h x = Some n" "h y = None"
  have "tight (h(x := None, y \<mapsto> n)) (insert n (A - {n}))"
    by (rule tight_add [OF tight_remove [OF h(1,2)]]) (use h in auto)
  moreover have "n \<in> A" using h by (auto simp: tight_def intro: ranI)
  ultimately show ?thesis by (simp add: insert_absorb)
qed

definition answers :: "cc_sys \<Rightarrow> string + nat \<rightharpoonup> nat" where
  "answers s = case_sum (cc_clients (cc_cache s)) (\<lambda>i. carries (cc_pcs s i))"

definition owned_inv :: "cc_sys \<Rightarrow> bool" where
  "owned_inv s \<longleftrightarrow> tight (answers s) (cc_open s) \<and> (\<forall>n \<in> cc_open s. n < cc_next s)"

lemma answers_to: "answers (cc_to i pc s) = (answers s)(Inr i := carries pc)"
  by (rule ext) (auto simp: answers_def cc_to_def split: sum.splits)

lemma answers_upd:
  "(\<And>c. cc_clients (f c) = cc_clients c) \<Longrightarrow> answers (cc_upd f s) = answers s"
  "answers (cc_upd (\<lambda>c. c\<lparr>cc_clients := (cc_clients c)(a := r)\<rparr>) s) = (answers s)(Inl a := r)"
  "answers (cc_upd (\<lambda>c. c\<lparr>cc_clients := (cc_clients c)(a := r), cc_mu := m\<rparr>) s) = (answers s)(Inl a := r)"
  "answers (s\<lparr>cc_open := A\<rparr>) = answers s" "answers (s\<lparr>cc_open := A, cc_next := k\<rparr>) = answers s"
  by (auto simp: answers_def cc_upd_def split: sum.splits)

lemma answers_at: "answers s (Inl a) = cc_clients (cc_cache s) a" "answers s (Inr i) = carries (cc_pcs s i)"
  by (simp_all add: answers_def)

lemma open_kept [simp]:
  "cc_open (cc_to i pc s) = cc_open s" "cc_next (cc_to i pc s) = cc_next s"
  "cc_open (cc_upd f s) = cc_open s" "cc_next (cc_upd f s) = cc_next s"
  by (simp_all add: cc_to_def cc_upd_def)

lemma fun_upd_same: "h x = r \<Longrightarrow> h(x := r) = h"
  by auto

lemma owned_step: "cc_step s s' \<Longrightarrow> owned_inv s \<Longrightarrow> owned_inv s'"
proof (induction rule: cc_step.induct)
  case (dialed s i a)
  then have "cc_next s \<notin> cc_open s" by (auto simp: owned_inv_def)
  then show ?case using dialed tight_add [of "answers s" "cc_open s" "cc_next s" "Inr i"]
    by (auto simp: owned_inv_def answers_to answers_upd answers_at)
next
  case (stored s i a n)
  then show ?case using tight_move [of "answers s" "cc_open s" "Inr i" n "Inl a"]
    by (auto simp: owned_inv_def answers_to answers_upd answers_at fun_upd_twist)
next
  case (dropped s i n r)
  then show ?case using tight_remove [of "answers s" "cc_open s" "Inr i" n]
    by (auto simp: owned_inv_def answers_to answers_upd answers_at)
next
  case (close_one s i a n)
  then show ?case using tight_remove [of "answers s" "cc_open s" "Inl a" n]
    by (auto simp: owned_inv_def answers_to answers_upd answers_at)
qed (auto simp: owned_inv_def answers_to answers_upd answers_at fun_upd_same)

lemma cc_invariant: "cc_reachable s \<Longrightarrow> lock_inv s \<and> owned_inv s"
proof (induction rule: cc_reachable.induct)
  case cc_start
  show ?case
    by (auto simp: lock_inv_def owned_inv_def one_holder_def some_pc_def cc_init_def NewClientCache_def answers_def
        tight_def inj_on_def ran_def split: sum.splits)
next
  case (cc_next_step s s')
  then show ?case using lock_step owned_step by blast
qed

lemma ran_left: "ran (case_sum f (\<lambda>_ :: nat. None)) = ran f"
proof (intro set_eqI iffI)
  fix m assume "m \<in> ran (case_sum f (\<lambda>_ :: nat. None))"
  then obtain z where "case_sum f (\<lambda>_ :: nat. None) z = Some m" by (auto simp: ran_def)
  then show "m \<in> ran f" by (cases z) (auto intro: ranI)
next
  fix m assume "m \<in> ran f"
  then obtain a where "case_sum f (\<lambda>_ :: nat. None) (Inl a) = Some m" by (auto simp: ran_def)
  then show "m \<in> ran (case_sum f (\<lambda>_ :: nat. None))" by (rule ranI)
qed

text \<open>A goroutine is at rest when it has not begun or has returned.\<close>

fun at_rest :: "cc_pc \<Rightarrow> bool" where
  "at_rest CIdle = True"
| "at_rest (CDone r) = True"
| "at_rest _ = False"

text \<open>C12. No connection leaks: whatever the interleaving of any number of \<open>Get\<close> and \<open>Close\<close> calls, once all of
  them have returned the open connections are those in the cache, each under one address, and after a
  \<open>Close\<close> there are none.\<close>

theorem clients_never_leak:
  assumes "cc_reachable s" and "\<forall>i. at_rest (cc_pcs s i)"
  shows "cc_open s = ran (cc_clients (cc_cache s)) \<and>
         inj_on (cc_clients (cc_cache s)) (dom (cc_clients (cc_cache s))) \<and>
         (cc_closed (cc_cache s) \<longrightarrow> cc_open s = {})"
proof -
  have inv: "lock_inv s" "tight (answers s) (cc_open s)" using cc_invariant [OF assms(1)] by (auto simp: owned_inv_def)
  have "carries (cc_pcs s i) = None" for i using spec [OF assms(2), of i] by (cases "cc_pcs s i") auto
  then have a: "answers s = case_sum (cc_clients (cc_cache s)) (\<lambda>_. None)" by (simp add: answers_def)
  then have o: "cc_open s = ran (cc_clients (cc_cache s))" using inv(2) by (simp add: tight_def ran_left)
  have inj: "inj_on (cc_clients (cc_cache s)) (dom (cc_clients (cc_cache s)))"
  proof (rule inj_onI)
    fix x y assume "x \<in> dom (cc_clients (cc_cache s))" "y \<in> dom (cc_clients (cc_cache s))" "cc_clients (cc_cache s) x = cc_clients (cc_cache s) y"
    then have "Inl x = (Inl y :: string + nat)" using inv(2) unfolding tight_def a by (auto dest!: inj_onD [of _ _ "Inl x" "Inl y"])
    then show "x = y" by simp
  qed
  have "\<not> closing (cc_pcs s i)" for i using spec [OF assms(2), of i] by (cases "cc_pcs s i") auto
  then have "\<not> some_pc closing (cc_pcs s)" by (simp add: some_pc_def)
  then have "cc_open s = {}" if "cc_closed (cc_cache s)" using inv(1) o that by (auto simp: lock_inv_def)
  then show ?thesis using o inj by blast
qed

text \<open>A run in which a dial is overtaken by a \<open>Close\<close>: the first client is cached and closed by it, the second
  finds the cache closed and is closed by the goroutine that dialed it.\<close>

definition demo_cc :: "(string \<rightharpoonup> nat) \<Rightarrow> nat option \<Rightarrow> bool \<Rightarrow> nat set \<Rightarrow> nat \<Rightarrow> cc_pc \<Rightarrow> cc_pc \<Rightarrow> cc_pc \<Rightarrow> cc_sys" where
  "demo_cc m mu c A k p q r =
     \<lparr>cc_cache = \<lparr>cc_clients = m, cc_mu = mu, cc_closed = c\<rparr>, cc_open = A, cc_next = k,
      cc_pcs = (\<lambda>_. CIdle)(0 := p, 1 := q, 2 := r)\<rparr>"

lemma demo_cc_upd:
  "cc_to 0 x (demo_cc m mu c A k p q r) = demo_cc m mu c A k x q r"
  "cc_to 1 x (demo_cc m mu c A k p q r) = demo_cc m mu c A k p x r"
  "cc_to 2 x (demo_cc m mu c A k p q r) = demo_cc m mu c A k p q x"
  "cc_upd f (demo_cc m mu c A k p q r) =
     demo_cc (cc_clients (f \<lparr>cc_clients = m, cc_mu = mu, cc_closed = c\<rparr>)) (cc_mu (f \<lparr>cc_clients = m, cc_mu = mu, cc_closed = c\<rparr>))
       (cc_closed (f \<lparr>cc_clients = m, cc_mu = mu, cc_closed = c\<rparr>)) A k p q r"
  "demo_cc m mu c A k p q r\<lparr>cc_open := B\<rparr> = demo_cc m mu c B k p q r"
  "demo_cc m mu c A k p q r\<lparr>cc_next := l\<rparr> = demo_cc m mu c A l p q r"
  "cc_to (Suc 0) x (demo_cc m mu c A k p q r) = demo_cc m mu c A k p x r"
  by (auto simp: demo_cc_def cc_to_def cc_upd_def fun_eq_iff)

lemma demo_cc_sel [simp]:
  "cc_cache (demo_cc m mu c A k p q r) = \<lparr>cc_clients = m, cc_mu = mu, cc_closed = c\<rparr>"
  "cc_open (demo_cc m mu c A k p q r) = A" "cc_next (demo_cc m mu c A k p q r) = k"
  "cc_pcs (demo_cc m mu c A k p q r) 0 = p" "cc_pcs (demo_cc m mu c A k p q r) 1 = q"
  "cc_pcs (demo_cc m mu c A k p q r) 2 = r" "cc_pcs (demo_cc m mu c A k p q r) (Suc 0) = q"
  by (simp_all add: demo_cc_def)

lemma demo_run:
  "cc_reachable (demo_cc Map.empty None True {} 2 (CDone (Some 0)) (CDone None) (CDone None))"
proof -
  have r0: "cc_reachable (demo_cc Map.empty None False {} 0 CIdle CIdle CIdle)"
    using cc_start by (simp add: cc_init_def NewClientCache_def demo_cc_def fun_upd_def)
  have r1: "cc_reachable (demo_cc Map.empty None False {} 0 (CWant ''a'') CIdle CIdle)"
    using cc_next_step [OF r0 get_start [of _ 0 "''a''"]] by (simp add: demo_cc_upd insert_commute)
  have r2: "cc_reachable (demo_cc Map.empty None False {} 0 (CMiss ''a'') CIdle CIdle)"
    using cc_next_step [OF r1 get_miss [of _ 0]] by (simp add: demo_cc_upd insert_commute)
  have r3: "cc_reachable (demo_cc Map.empty None False {} 0 (CDial ''a'') CIdle CIdle)"
    using cc_next_step [OF r2 again_miss [of _ 0]] by (simp add: demo_cc_upd insert_commute)
  have r4: "cc_reachable (demo_cc Map.empty None False {0} 1 (CDialed ''a'' 0) CIdle CIdle)"
    using cc_next_step [OF r3 dialed [of _ 0]] by (simp add: demo_cc_upd insert_commute)
  have r5: "cc_reachable (demo_cc Map.empty (Some 0) False {0} 1 (CLocked ''a'' 0) CIdle CIdle)"
    using cc_next_step [OF r4 lock [of _ 0]] by (simp add: demo_cc_upd insert_commute)
  have r6: "cc_reachable (demo_cc Map.empty (Some 0) False {0} 1 (CChecked ''a'' 0) CIdle CIdle)"
    using cc_next_step [OF r5 found_open [of _ 0]] by (simp add: demo_cc_upd insert_commute)
  have r7: "cc_reachable (demo_cc [''a'' \<mapsto> 0] None False {0} 1 (CDone (Some 0)) CIdle CIdle)"
    using cc_next_step [OF r6 stored [of _ 0]] by (simp add: demo_cc_upd insert_commute)
  have r8: "cc_reachable (demo_cc [''a'' \<mapsto> 0] None False {0} 1 (CDone (Some 0)) (CWant ''b'') CIdle)"
    using cc_next_step [OF r7 get_start [of _ 1 "''b''"]] by (simp add: demo_cc_upd insert_commute)
  have r9: "cc_reachable (demo_cc [''a'' \<mapsto> 0] None False {0} 1 (CDone (Some 0)) (CMiss ''b'') CIdle)"
    using cc_next_step [OF r8 get_miss [of _ 1]] by (simp add: demo_cc_upd insert_commute)
  have r10: "cc_reachable (demo_cc [''a'' \<mapsto> 0] None False {0} 1 (CDone (Some 0)) (CDial ''b'') CIdle)"
    using cc_next_step [OF r9 again_miss [of _ 1]] by (simp add: demo_cc_upd insert_commute)
  have r11: "cc_reachable (demo_cc [''a'' \<mapsto> 0] None False {0, 1} 2 (CDone (Some 0)) (CDialed ''b'' 1) CIdle)"
    using cc_next_step [OF r10 dialed [of _ 1]] by (simp add: demo_cc_upd insert_commute numeral_2_eq_2)
  have r12: "cc_reachable (demo_cc [''a'' \<mapsto> 0] None True {0, 1} 2 (CDone (Some 0)) (CDialed ''b'' 1) KWant)"
    using cc_next_step [OF r11 close_swap [of _ 2]] by (simp add: demo_cc_upd insert_commute)
  have r13: "cc_reachable (demo_cc [''a'' \<mapsto> 0] (Some 2) True {0, 1} 2 (CDone (Some 0)) (CDialed ''b'' 1) KLocked)"
    using cc_next_step [OF r12 close_lock [of _ 2]] by (simp add: demo_cc_upd insert_commute)
  have r14: "cc_reachable (demo_cc Map.empty (Some 2) True {1} 2 (CDone (Some 0)) (CDialed ''b'' 1) KLocked)"
    using cc_next_step [OF r13 close_one [of _ 2 "''a''" 0]] by (simp add: demo_cc_upd insert_commute)
  have r15: "cc_reachable (demo_cc Map.empty None True {1} 2 (CDone (Some 0)) (CDialed ''b'' 1) (CDone None))"
    using cc_next_step [OF r14 close_done [of _ 2]] by (simp add: demo_cc_upd insert_commute)
  have r16: "cc_reachable (demo_cc Map.empty (Some 1) True {1} 2 (CDone (Some 0)) (CLocked ''b'' 1) (CDone None))"
    using cc_next_step [OF r15 lock [of _ 1]] by (simp add: demo_cc_upd insert_commute)
  have r17: "cc_reachable (demo_cc Map.empty None True {1} 2 (CDone (Some 0)) (CDrop 1 None) (CDone None))"
    using cc_next_step [OF r16 found_closed [of _ 1]] by (simp add: demo_cc_upd insert_commute)
  show ?thesis
    using cc_next_step [OF r17 dropped [of _ 1]] by (simp add: demo_cc_upd insert_commute)
qed

theorem clients_never_leak_witness:
  "\<exists>s :: cc_sys. cc_reachable s \<and> (\<forall>i. at_rest (cc_pcs s i)) \<and> cc_closed (cc_cache s) \<and> cc_next s = 2 \<and> cc_open s = {}"
proof -
  let ?s = "demo_cc Map.empty None True {} 2 (CDone (Some 0)) (CDone None) (CDone None)"
  have r: "\<forall>i. at_rest (cc_pcs ?s i)" by (simp add: demo_cc_def)
  show ?thesis using clients_never_leak [OF demo_run r] demo_run r by (intro exI [of _ ?s]) simp
qed

end
