(* ===== verification/Gateway.thy ===== *)
theory Gateway
  imports Entropy Client_Cache "HOL-Library.Multiset"
begin

text \<open>
  The gateway of \<open>src/cluster/gateway/gateway.go\<close>: the routing of reads and writes to the owners of a key. The
  storages of the other nodes are a map from addresses. What the network does with each call is an
  argument: a client may not be had, and a call may be lost, be answered, or take effect with the answer
  coming too late. The goroutines of a write run in an order that is an argument as well.

  The lemmas show what a write that reports success has achieved on the replicas of the key.
\<close>

section \<open>Replicas and calls\<close>

text \<open>A node at the other end of a connection: what \<open>Push\<close> of \<open>src/server/server.go\<close> reaches through
  \<open>SyncPush\<close> of \<open>src/cluster/node.go\<close>. A node without a syncer accepts the call and discards it.\<close>

record 't peer =
  peer_sw :: "'t storage"
  peer_syncer :: bool

definition SyncPush ::
  "'t env \<Rightarrow> codec \<Rightarrow> i64 list list \<Rightarrow> set_request list \<Rightarrow> delete_request list \<Rightarrow> 't peer \<Rightarrow> (wal_error option \<times> 't peer) option" where
  "SyncPush E C tss sets deletes p =
     (if \<not> peer_syncer p then Some (None, p)
      else map_option (\<lambda>(e, sw). (e, p\<lparr>peer_sw := sw\<rparr>)) (Push E C tss sets deletes (peer_sw p)))"

definition server_Push ::
  "'t env \<Rightarrow> codec \<Rightarrow> i64 list list \<Rightarrow> set_request list \<Rightarrow> delete_request list \<Rightarrow> 't peer \<Rightarrow> (bool \<times> 't peer) option" where
  "server_Push E C tss entries deletions p =
     (case SyncPush E C tss entries deletions p of
        None \<Rightarrow> None
      | Some (Some e, p') \<Rightarrow> Some (False, p')
      | Some (None, p') \<Rightarrow> Some (True, p'))"

text \<open>What happens to a call: whether a client is to be had, whether the request arrives, whether the answer comes
  back in time; and the wall clock readings of the node that runs it.\<close>

record fate =
  f_client :: bool
  f_arrives :: bool
  f_answered :: bool
  f_readings :: "i64 list"

record 't world =
  wd_sw :: "'t storage option"
  wd_peers :: "string \<rightharpoonup> 't peer"

datatype gw_error =
    NoOwners
  | NoStateWriter
  | NoAddress
  | NoClient
  | RpcFailed
  | WriterError wal_error
  | AllReplicasFailed gw_error
  | ReplicasFailed gw_error
  | UnknownMode

text \<open>The call of \<open>client.API.Push\<close>. A handler that does not return is a call without an answer.\<close>

definition rpc_Push ::
  "'t env \<Rightarrow> codec \<Rightarrow> fate \<Rightarrow> string \<Rightarrow> set_request list \<Rightarrow> delete_request list \<Rightarrow> 't world \<Rightarrow> gw_error option \<times> 't world" where
  "rpc_Push E C f addr entries deletions w =
     (if \<not> f_arrives f then (Some RpcFailed, w)
      else
        (case wd_peers w addr of
           None \<Rightarrow> (Some RpcFailed, w)
         | Some p \<Rightarrow>
             (case server_Push E C [f_readings f] (map wire_set entries) deletions p of
                None \<Rightarrow> (Some RpcFailed, w)
              | Some (ok, p') \<Rightarrow>
                  (if ok \<and> f_answered f then None else Some RpcFailed, w\<lparr>wd_peers := (wd_peers w)(addr \<mapsto> p')\<rparr>))))"

section \<open>The gateway\<close>

record gateway =
  gw_mesh :: mesher
  gw_config :: mesh_config

definition NewGateway :: "mesher \<Rightarrow> mesh_config \<Rightarrow> gateway" where
  "NewGateway meshObj meshConfig = \<lparr>gw_mesh = meshObj, gw_config = meshConfig\<rparr>"

definition SetStateWriter :: "'t storage \<Rightarrow> 't world \<Rightarrow> 't world" where
  "SetStateWriter sw w = w\<lparr>wd_sw := Some sw\<rparr>"

definition stateWriter :: "'t world \<Rightarrow> gw_error + 't storage" where
  "stateWriter w = (case wd_sw w of None \<Rightarrow> Inl NoStateWriter | Some sw \<Rightarrow> Inr sw)"

definition getReplicationFactor :: "gateway \<Rightarrow> int" where
  "getReplicationFactor g = (let rf = ReplicationFactor (gw_config g) in if rf \<le> 0 then 1 else rf)"

text \<open>A read at an address: \<open>None\<close> is an error, otherwise the value and whether the key exists.\<close>

type_synonym remote_get = "string \<Rightarrow> string \<Rightarrow> (goslice \<times> bool) option"

definition proxyGetRemote :: "gateway \<Rightarrow> (string \<Rightarrow> bool) \<Rightarrow> remote_get \<Rightarrow> string \<Rightarrow> string \<Rightarrow> (goslice \<times> bool) option" where
  "proxyGetRemote g client rget node key =
     (let addr = ms_AddressForNode node (gw_mesh g) in
      if addr = '''' then None
      else if \<not> client addr then None
      else rget addr key)"

fun first_found :: "gateway \<Rightarrow> (string \<Rightarrow> bool) \<Rightarrow> remote_get \<Rightarrow> string \<Rightarrow> string list \<Rightarrow> goslice \<times> bool" where
  "first_found g client rget key [] = (None, False)"
| "first_found g client rget key (owner # owners) =
     (if owner = mc_NodeID (gw_config g) then first_found g client rget key owners
      else
        (case proxyGetRemote g client rget owner key of
           Some (val, True) \<Rightarrow> (val, True)
         | _ \<Rightarrow> first_found g client rget key owners))"

definition gw_Get :: "gateway \<Rightarrow> (string \<Rightarrow> bool) \<Rightarrow> remote_get \<Rightarrow> string \<Rightarrow> goslice \<times> bool" where
  "gw_Get g client rget key = first_found g client rget key (ms_GetOwners key (getReplicationFactor g) (gw_mesh g))"

definition applySetLocal ::
  "'t env \<Rightarrow> codec \<Rightarrow> gateway \<Rightarrow> i64 list \<Rightarrow> string \<Rightarrow> goslice \<Rightarrow> i64 \<Rightarrow> 't world \<Rightarrow> (gw_error option \<times> 't world) option" where
  "applySetLocal E C g readings key value ts w =
     (case stateWriter w of
        Inl e \<Rightarrow> Some (Some e, w)
      | Inr sw \<Rightarrow>
          (let req = \<lparr>set_key = key, set_value = value, set_timestamp = ts, set_node = mc_NodeID (gw_config g)\<rparr> in
           case ApplySet E C readings req sw of
             None \<Rightarrow> None
           | Some (e, sw') \<Rightarrow> Some (map_option WriterError e, w\<lparr>wd_sw := Some sw'\<rparr>)))"

definition applySetRemote ::
  "'t env \<Rightarrow> codec \<Rightarrow> gateway \<Rightarrow> fate \<Rightarrow> string \<Rightarrow> string \<Rightarrow> goslice \<Rightarrow> i64 \<Rightarrow> 't world \<Rightarrow> gw_error option \<times> 't world" where
  "applySetRemote E C g f node key value ts w =
     (let addr = ms_AddressForNode node (gw_mesh g) in
      if addr = '''' then (Some NoAddress, w)
      else if \<not> f_client f then (Some NoClient, w)
      else
        (let req = \<lparr>set_key = key, set_value = value, set_timestamp = ts, set_node = mc_NodeID (gw_config g)\<rparr>
         in rpc_Push E C f addr [req] [] w))"

definition applyDeleteLocal ::
  "'t env \<Rightarrow> codec \<Rightarrow> gateway \<Rightarrow> i64 list \<Rightarrow> string \<Rightarrow> i64 \<Rightarrow> 't world \<Rightarrow> (gw_error option \<times> 't world) option" where
  "applyDeleteLocal E C g readings key ts w =
     (case stateWriter w of
        Inl e \<Rightarrow> Some (Some e, w)
      | Inr sw \<Rightarrow>
          (let req = \<lparr>del_key = key, del_timestamp = ts, del_node = mc_NodeID (gw_config g)\<rparr> in
           case ApplyDelete E C readings req sw of
             None \<Rightarrow> None
           | Some (e, sw') \<Rightarrow> Some (map_option WriterError e, w\<lparr>wd_sw := Some sw'\<rparr>)))"

definition applyDeleteRemote ::
  "'t env \<Rightarrow> codec \<Rightarrow> gateway \<Rightarrow> fate \<Rightarrow> string \<Rightarrow> string \<Rightarrow> i64 \<Rightarrow> 't world \<Rightarrow> gw_error option \<times> 't world" where
  "applyDeleteRemote E C g f node key ts w =
     (let addr = ms_AddressForNode node (gw_mesh g) in
      if addr = '''' then (Some NoAddress, w)
      else if \<not> f_client f then (Some NoClient, w)
      else
        (let req = \<lparr>del_key = key, del_timestamp = ts, del_node = mc_NodeID (gw_config g)\<rparr>
         in rpc_Push E C f addr [] [req] w))"

text \<open>The goroutines of one write in the order in which they finish, and the errors they put in the channel.
  \<open>None\<close> is a local write that does not return, for which the write waits.\<close>

fun fan_out :: "(string \<Rightarrow> 'w \<Rightarrow> (gw_error option \<times> 'w) option) \<Rightarrow> string list \<Rightarrow> 'w \<Rightarrow> (gw_error list \<times> 'w) option" where
  "fan_out write [] w = Some ([], w)"
| "fan_out write (node # nodes) w =
     (case write node w of
        None \<Rightarrow> None
      | Some (e, w1) \<Rightarrow>
          (case fan_out write nodes w1 of
             None \<Rightarrow> None
           | Some (errs, w2) \<Rightarrow> Some ((case e of None \<Rightarrow> errs | Some x \<Rightarrow> x # errs), w2)))"

definition verdict :: "string \<Rightarrow> gw_error list \<Rightarrow> nat \<Rightarrow> gw_error option" where
  "verdict mode errs owners =
     (if mode = Lenient then (if length errs = owners then Some (AllReplicasFailed (hd errs)) else None)
      else if mode = Strict then (if length errs \<noteq> 0 then Some (ReplicasFailed (hd errs)) else None)
      else Some UnknownMode)"

definition set_write ::
  "'t env \<Rightarrow> codec \<Rightarrow> gateway \<Rightarrow> (string \<Rightarrow> fate) \<Rightarrow> string \<Rightarrow> goslice \<Rightarrow> i64 \<Rightarrow> string \<Rightarrow> 't world \<Rightarrow> (gw_error option \<times> 't world) option" where
  "set_write E C g fates key value ts node w =
     (if node = mc_NodeID (gw_config g) then applySetLocal E C g (f_readings (fates node)) key value ts w
      else Some (applySetRemote E C g (fates node) node key value ts w))"

definition gw_Set ::
  "'t env \<Rightarrow> codec \<Rightarrow> gateway \<Rightarrow> (string \<Rightarrow> fate) \<Rightarrow> string list \<Rightarrow> string \<Rightarrow> goslice \<Rightarrow> i64 \<Rightarrow> 't world \<Rightarrow>
   (gw_error option \<times> 't world) option" where
  "gw_Set E C g fates order key value ts w =
     (let rf = getReplicationFactor g;
          owners = ms_GetOwners key rf (gw_mesh g)
      in
      if length owners = 0 then Some (Some NoOwners, w)
      else if length owners = 1 then set_write E C g fates key value ts (owners ! 0) w
      else
        (case fan_out (set_write E C g fates key value ts) order w of
           None \<Rightarrow> None
         | Some (errs, w') \<Rightarrow> Some (verdict (ReplicationFailureMode (gw_config g)) errs (length owners), w')))"

definition gw_exists :: "'t env \<Rightarrow> gateway \<Rightarrow> (string \<Rightarrow> bool) \<Rightarrow> remote_get \<Rightarrow> string \<Rightarrow> string list \<Rightarrow> 't world \<Rightarrow> bool" where
  "gw_exists E g client rget key owners w =
     (let localOwner = list_ex (\<lambda>owner. owner = mc_NodeID (gw_config g)) owners in
      if localOwner \<and> (case stateWriter w of Inl e \<Rightarrow> False | Inr sw \<Rightarrow> Exists E key sw) then True
      else snd (first_found g client rget key owners))"

definition delete_write ::
  "'t env \<Rightarrow> codec \<Rightarrow> gateway \<Rightarrow> (string \<Rightarrow> fate) \<Rightarrow> string \<Rightarrow> i64 \<Rightarrow> string \<Rightarrow> 't world \<Rightarrow> (gw_error option \<times> 't world) option" where
  "delete_write E C g fates key ts node w =
     (if node = mc_NodeID (gw_config g) then applyDeleteLocal E C g (f_readings (fates node)) key ts w
      else Some (applyDeleteRemote E C g (fates node) node key ts w))"

definition gw_Delete ::
  "'t env \<Rightarrow> codec \<Rightarrow> gateway \<Rightarrow> (string \<Rightarrow> bool) \<Rightarrow> remote_get \<Rightarrow> (string \<Rightarrow> fate) \<Rightarrow> string list \<Rightarrow> string \<Rightarrow> i64 \<Rightarrow> 't world \<Rightarrow>
   ((bool \<times> gw_error option) \<times> 't world) option" where
  "gw_Delete E C g client rget fates order key ts w =
     (let rf = getReplicationFactor g;
          owners = ms_GetOwners key rf (gw_mesh g)
      in
      if length owners = 0 then Some ((False, Some NoOwners), w)
      else
        (let existed = gw_exists E g client rget key owners w in
         if length owners = 1 then map_option (\<lambda>(e, w'). ((existed, e), w')) (delete_write E C g fates key ts (owners ! 0) w)
         else
           (case fan_out (delete_write E C g fates key ts) order w of
              None \<Rightarrow> None
            | Some (errs, w') \<Rightarrow>
                (case verdict (ReplicationFailureMode (gw_config g)) errs (length owners) of
                   Some e \<Rightarrow> Some ((False, Some e), w')
                 | None \<Rightarrow> Some ((existed, None), w')))))"

section \<open>Writing to several replicas\<close>

text \<open>What the goroutines of a write promise: a state stays well formed and only moves forward, and a
  goroutine that reports no error has done its part, which nothing undoes.\<close>

locale replicated_write =
  fixes put :: "string \<Rightarrow> 'w \<Rightarrow> (gw_error option \<times> 'w) option"
    and ok :: "'w \<Rightarrow> bool"
    and below :: "'w \<Rightarrow> 'w \<Rightarrow> bool"
    and done_at :: "string \<Rightarrow> 'w \<Rightarrow> bool"
  assumes writes: "ok w \<Longrightarrow> put n w = Some (e, w') \<Longrightarrow> ok w' \<and> below w w' \<and> (e = None \<longrightarrow> done_at n w')"
    and below_refl: "below w w"
    and below_trans: "below w w1 \<Longrightarrow> below w1 w2 \<Longrightarrow> below w w2"
    and done_stays: "done_at n w \<Longrightarrow> below w w' \<Longrightarrow> done_at n w'"
begin

lemma fan_out_spec:
  "fan_out put ns w = Some (errs, w') \<Longrightarrow> ok w \<Longrightarrow>
   ok w' \<and> below w w' \<and> length errs \<le> length ns \<and> (errs = [] \<longrightarrow> (\<forall>n \<in> set ns. done_at n w')) \<and>
   (length errs < length ns \<longrightarrow> (\<exists>n \<in> set ns. done_at n w'))"
proof (induction ns arbitrary: w errs)
  case (Cons n ns)
  from Cons.prems(1) obtain e w1 errs1 where
    s: "put n w = Some (e, w1)" "fan_out put ns w1 = Some (errs1, w')" "errs = (case e of None \<Rightarrow> errs1 | Some x \<Rightarrow> x # errs1)"
    by (auto split: option.splits)
  note w1 = writes [OF Cons.prems(2) s(1)]
  note r = Cons.IH [OF s(2) conjunct1 [OF w1]]
  have "below w w'" using w1 r below_trans by blast
  moreover have "done_at n w'" if "e = None" using w1 r done_stays that by blast
  ultimately show ?case using r s(3) by (cases e) auto
qed (simp add: below_refl)

lemma verdict_spec:
  assumes "fan_out put ns w = Some (errs, w')" and "ok w" and "verdict mode errs (length ns) = None" and "ns \<noteq> []"
  shows "ok w' \<and> below w w' \<and> mode \<in> {Strict, Lenient} \<and> (\<exists>n \<in> set ns. done_at n w') \<and>
    (mode = Strict \<longrightarrow> (\<forall>n \<in> set ns. done_at n w'))"
proof -
  note s = fan_out_spec [OF assms(1,2)]
  have m: "Strict \<noteq> Lenient" by (simp add: Strict_def Lenient_def)
  show ?thesis
  proof (cases "mode = Strict")
    case True
    then have "errs = []" using assms(3) m by (auto simp: verdict_def split: if_splits)
    then show ?thesis using s True assms(4) by auto
  next
    case False
    then have "mode = Lenient" "length errs \<noteq> length ns" using assms(3) by (auto simp: verdict_def split: if_splits)
    then show ?thesis using s False by auto
  qed
qed

end

text \<open>The ranks of what the replicas hold.\<close>

definition local_rank :: "'t env \<Rightarrow> 't world \<Rightarrow> string \<Rightarrow> (int \<times> string \<times> u64) option" where
  "local_rank E w k = (case wd_sw w of None \<Rightarrow> None | Some sw \<Rightarrow> held E (sw_hm sw) k)"

definition peer_rank :: "'t env \<Rightarrow> 't world \<Rightarrow> string \<Rightarrow> string \<Rightarrow> (int \<times> string \<times> u64) option" where
  "peer_rank E w a k = (case wd_peers w a of None \<Rightarrow> None | Some p \<Rightarrow> held E (sw_hm (peer_sw p)) k)"

definition replica_rank :: "'t env \<Rightarrow> gateway \<Rightarrow> 't world \<Rightarrow> string \<Rightarrow> string \<Rightarrow> (int \<times> string \<times> u64) option" where
  "replica_rank E g w n k =
     (if n = mc_NodeID (gw_config g) then local_rank E w k else peer_rank E w (ms_AddressForNode n (gw_mesh g)) k)"

definition world_ok :: "'t env \<Rightarrow> 't world \<Rightarrow> bool" where
  "world_ok E w \<longleftrightarrow> (\<forall>sw. wd_sw w = Some sw \<longrightarrow> replica_inv E (sw_hm sw)) \<and>
     (\<forall>a p. wd_peers w a = Some p \<longrightarrow> peer_syncer p \<and> replica_inv E (sw_hm (peer_sw p)))"

definition world_below :: "'t env \<Rightarrow> 't world \<Rightarrow> 't world \<Rightarrow> bool" where
  "world_below E w w' \<longleftrightarrow> (\<forall>k. local_rank E w k \<le> local_rank E w' k) \<and> (\<forall>a k. peer_rank E w a k \<le> peer_rank E w' a k)"

definition msg_rank :: "'t env \<Rightarrow> wal_msg \<Rightarrow> int \<times> string \<times> u64" where
  "msg_rank E m = lww_key (version E (msg_key m) (req_value m))"

lemma Apply_rank:
  assumes "replica_inv E (sw_hm sw)" and "is_req m" and "Apply E C ts m sw = Some (e, sw')"
  shows "replica_inv E (sw_hm sw')" "held E (sw_hm sw) k \<le> held E (sw_hm sw') k"
    "Some (msg_rank E m) \<le> held E (sw_hm sw') (msg_key m)"
proof -
  note a = Apply_merge [OF assms]
  show "replica_inv E (sw_hm sw')" using a by blast
  show "held E (sw_hm sw) k \<le> held E (sw_hm sw') k" using a [of k] by (simp add: held_def merge_key)
  show "Some (msg_rank E m) \<le> held E (sw_hm sw') (msg_key m)"
    using a [of "msg_key m"] by (simp add: held_def merge_key msg_rank_def)
qed

lemma wire_rank: "msg_rank E (MsgSet (wire_set r)) = msg_rank E (MsgSet r)"
proof -
  let ?v = "req_value (MsgSet (wire_set r))" and ?u = "req_value (MsgSet r)"
  have f: "NodeID ?v = NodeID ?u" "Timestamp ?v = Timestamp ?u" "Tombstone ?v = Tombstone ?u" "slice_bytes (Data ?v) = slice_bytes (Data ?u)"
    by (auto simp: wire_set_def set_to_value_def slice_len_def simp del: req_value_fields split: option.splits)
  have "set_key (wire_set r) = set_key r" by (simp add: wire_set_def)
  moreover have "getItemHash E h ?v = getItemHash E h ?u" for h
    unfolding getItemHash_def slice_len_def f by (rule refl)
  ultimately show ?thesis using f by (simp add: msg_rank_def lww_key_def version_def stamped_def del: req_value_fields)
qed

lemma Push_one:
  "map MsgSet sets @ map MsgDelete dels = [m] \<Longrightarrow> Push E C [rd] sets dels sw = Apply E C rd m sw"
  by (auto simp: Push_def split: option.splits)

lemma local_writes:
  assumes "world_ok E w" and "wd_sw w = Some sw" and "is_req m" and "Apply E C rd m sw = Some (e, sw')"
  shows "world_ok E (w\<lparr>wd_sw := Some sw'\<rparr>) \<and> world_below E w (w\<lparr>wd_sw := Some sw'\<rparr>) \<and>
    Some (msg_rank E m) \<le> local_rank E (w\<lparr>wd_sw := Some sw'\<rparr>) (msg_key m)"
proof -
  have "replica_inv E (sw_hm sw)" using assms(1,2) by (simp add: world_ok_def)
  note r = Apply_rank [OF this assms(3,4)]
  then show ?thesis using assms(1,2) by (simp add: world_ok_def world_below_def local_rank_def peer_rank_def)
qed

lemma rpc_writes:
  assumes "world_ok E w" and "rpc_Push E C f addr sets dels w = (e, w')"
    and "map MsgSet (map wire_set sets) @ map MsgDelete dels = [m]" and "is_req m"
  shows "world_ok E w' \<and> world_below E w w' \<and> (e = None \<longrightarrow> Some (msg_rank E m) \<le> peer_rank E w' addr (msg_key m))"
proof (cases "w' = w \<and> e = Some RpcFailed")
  case False
  then have ar: "f_arrives f" using assms(2) by (cases "f_arrives f") (simp_all add: rpc_Push_def)
  with False assms(2) obtain p where p1: "wd_peers w addr = Some p" by (cases "wd_peers w addr") (simp_all add: rpc_Push_def)
  with False assms(2) ar obtain x p' where p2: "server_Push E C [f_readings f] (map wire_set sets) dels p = Some (x, p')"
    by (cases "server_Push E C [f_readings f] (map wire_set sets) dels p") (auto simp: rpc_Push_def)
  note p = p1 p2
  have w': "w' = w\<lparr>wd_peers := (wd_peers w)(addr \<mapsto> p')\<rparr>" using assms(2) ar p by (simp add: rpc_Push_def)
  have sy: "peer_syncer p" "replica_inv E (sw_hm (peer_sw p))" using assms(1) p(1) by (auto simp: world_ok_def)
  obtain y sw' where a: "Apply E C (f_readings f) m (peer_sw p) = Some (y, sw')" "p' = p\<lparr>peer_sw := sw'\<rparr>"
    using p(2) sy(1) by (auto simp: server_Push_def SyncPush_def Push_one [OF assms(3)] split: option.splits)
  note r = Apply_rank [OF sy(2) assms(4) a(1)]
  then show ?thesis using assms(1) p(1) sy(1)
    by (auto simp: w' a(2) world_ok_def world_below_def local_rank_def peer_rank_def)
qed (auto simp: assms(1) world_below_def)

definition set_msg :: "gateway \<Rightarrow> string \<Rightarrow> goslice \<Rightarrow> i64 \<Rightarrow> wal_msg" where
  "set_msg g key value ts = MsgSet \<lparr>set_key = key, set_value = value, set_timestamp = ts, set_node = mc_NodeID (gw_config g)\<rparr>"

definition delete_msg :: "gateway \<Rightarrow> string \<Rightarrow> i64 \<Rightarrow> wal_msg" where
  "delete_msg g key ts = MsgDelete \<lparr>del_key = key, del_timestamp = ts, del_node = mc_NodeID (gw_config g)\<rparr>"

definition holds_write :: "'t env \<Rightarrow> gateway \<Rightarrow> wal_msg \<Rightarrow> string \<Rightarrow> 't world \<Rightarrow> bool" where
  "holds_write E g m n w \<longleftrightarrow> Some (msg_rank E m) \<le> replica_rank E g w n (msg_key m)"

lemma world_below_refl: "world_below E w w"
  by (simp add: world_below_def)

lemma local_case:
  assumes "world_ok E w" and "is_req m" and "n = mc_NodeID (gw_config g)"
    and "(case stateWriter w of Inl e \<Rightarrow> Some (Some e, w)
       | Inr sw \<Rightarrow> (case Apply E C rd m sw of None \<Rightarrow> None
           | Some (e, sw') \<Rightarrow> Some (map_option WriterError e, w\<lparr>wd_sw := Some sw'\<rparr>))) = Some (e, w')"
  shows "world_ok E w' \<and> world_below E w w' \<and> (e = None \<longrightarrow> holds_write E g m n w')"
proof (cases "wd_sw w")
  case None
  then show ?thesis using assms(1,4) by (auto simp: stateWriter_def world_below_refl)
next
  case (Some sw)
  then obtain x sw' where a: "Apply E C rd m sw = Some (x, sw')" "w' = w\<lparr>wd_sw := Some sw'\<rparr>"
    using assms(4) by (auto simp: stateWriter_def split: option.splits)
  show ?thesis using local_writes [OF assms(1) Some assms(2) a(1)] assms(3)
    unfolding a(2) holds_write_def replica_rank_def by simp
qed

lemma remote_case:
  assumes "world_ok E w" and "n \<noteq> mc_NodeID (gw_config g)" and "is_req m"
    and "map MsgSet (map wire_set sets) @ map MsgDelete dels = [m]"
    and "(if ms_AddressForNode n (gw_mesh g) = '''' then (Some NoAddress, w)
       else if \<not> f_client f then (Some NoClient, w) else rpc_Push E C f (ms_AddressForNode n (gw_mesh g)) sets dels w) = (e, w')"
  shows "world_ok E w' \<and> world_below E w w' \<and> (e = None \<longrightarrow> holds_write E g m n w')"
proof (cases "rpc_Push E C f (ms_AddressForNode n (gw_mesh g)) sets dels w = (e, w')")
  case True
  show ?thesis using rpc_writes [OF assms(1) True assms(4,3)] assms(2) unfolding holds_write_def replica_rank_def by simp
next
  case False
  then show ?thesis using assms(1,5) by (auto simp: world_below_refl split: if_splits)
qed

lemma set_writes:
  assumes "world_ok E w" and "set_write E C g fates key value ts n w = Some (e, w')"
  shows "world_ok E w' \<and> world_below E w w' \<and> (e = None \<longrightarrow> holds_write E g (set_msg g key value ts) n w')"
proof (cases "n = mc_NodeID (gw_config g)")
  case True
  show ?thesis
    by (rule local_case [OF assms(1) _ True, of _ C "f_readings (fates n)"])
      (use True assms(2) in \<open>simp_all add: set_write_def applySetLocal_def set_msg_def Let_def split: sum.splits\<close>)
next
  case False
  let ?r = "\<lparr>set_key = key, set_value = value, set_timestamp = ts, set_node = mc_NodeID (gw_config g)\<rparr>"
  have "holds_write E g (MsgSet (wire_set ?r)) n w' = holds_write E g (set_msg g key value ts) n w'"
    by (simp add: holds_write_def set_msg_def wire_rank) (simp add: wire_set_def)
  moreover have "world_ok E w' \<and> world_below E w w' \<and> (e = None \<longrightarrow> holds_write E g (MsgSet (wire_set ?r)) n w')"
    by (rule remote_case [OF assms(1) False, where sets = "[?r]" and dels = "[]" and f = "fates n" and C = C])
      (use False assms(2) in \<open>simp_all add: set_write_def applySetRemote_def Let_def split: if_splits\<close>)
  ultimately show ?thesis by simp
qed

lemma delete_writes:
  assumes "world_ok E w" and "delete_write E C g fates key ts n w = Some (e, w')"
  shows "world_ok E w' \<and> world_below E w w' \<and> (e = None \<longrightarrow> holds_write E g (delete_msg g key ts) n w')"
proof (cases "n = mc_NodeID (gw_config g)")
  case True
  show ?thesis
    by (rule local_case [OF assms(1) _ True, of _ C "f_readings (fates n)"])
      (use True assms(2) in \<open>simp_all add: delete_write_def applyDeleteLocal_def delete_msg_def Let_def split: sum.splits\<close>)
next
  case False
  let ?r = "\<lparr>del_key = key, del_timestamp = ts, del_node = mc_NodeID (gw_config g)\<rparr>"
  show ?thesis
    by (rule remote_case [OF assms(1) False, where sets = "[]" and dels = "[?r]" and f = "fates n" and C = C])
      (use False assms(2) in \<open>simp_all add: delete_write_def applyDeleteRemote_def delete_msg_def Let_def split: if_splits\<close>)
qed

lemma world_below_trans: "world_below E w w1 \<Longrightarrow> world_below E w1 w2 \<Longrightarrow> world_below E w w2"
  unfolding world_below_def by (meson order_trans)

lemma holds_stays: "holds_write E g m n w \<Longrightarrow> world_below E w w' \<Longrightarrow> holds_write E g m n w'"
  unfolding holds_write_def by (erule order_trans) (simp add: world_below_def replica_rank_def)

interpretation sets: replicated_write "set_write E C g fates key val ts" "world_ok E" "world_below E" "holds_write E g (set_msg g key val ts)"
  for E C g fates key val ts
  by unfold_locales (fact set_writes world_below_refl world_below_trans holds_stays)+

interpretation deletes: replicated_write "delete_write E C g fates key ts" "world_ok E" "world_below E" "holds_write E g (delete_msg g key ts)"
  for E C g fates key ts
  by unfold_locales (fact delete_writes world_below_refl world_below_trans holds_stays)+

text \<open>What a write that reports success promises: every replica is at least as new as before; with one owner or in
  strict mode every owner holds the write or something newer, in lenient mode some owner does; no other
  mode ever succeeds on several owners.\<close>

definition replicated :: "'t env \<Rightarrow> gateway \<Rightarrow> wal_msg \<Rightarrow> 't world \<Rightarrow> 't world \<Rightarrow> bool" where
  "replicated E g m w w' \<longleftrightarrow>
     (let owners = ms_GetOwners (msg_key m) (getReplicationFactor g) (gw_mesh g) in
      world_ok E w' \<and> world_below E w w' \<and> owners \<noteq> [] \<and> (\<exists>n \<in> set owners. holds_write E g m n w') \<and>
      (length owners = 1 \<or> ReplicationFailureMode (gw_config g) \<in> {Strict, Lenient}) \<and>
      (length owners = 1 \<or> ReplicationFailureMode (gw_config g) = Strict \<longrightarrow> (\<forall>n \<in> set owners. holds_write E g m n w')))"

lemma order_facts: "mset order = mset owners \<Longrightarrow> length order = length owners \<and> set order = set owners"
  by (metis mset_eq_setD size_mset)

lemma Set_replicated:
  assumes "world_ok E w" and "mset order = mset (ms_GetOwners key (getReplicationFactor g) (gw_mesh g))"
    and s: "gw_Set E C g fates order key value ts w = Some (None, w')"
  shows "replicated E g (set_msg g key value ts) w w'"
proof -
  let ?o = "ms_GetOwners key (getReplicationFactor g) (gw_mesh g)" and ?mode = "ReplicationFailureMode (gw_config g)"
  have k: "msg_key (set_msg g key value ts) = key" by (simp add: set_msg_def)
  consider "?o = []" | "length ?o = 1" | "length ?o > 1" by (cases ?o) auto
  then show ?thesis
  proof cases
    case 1
    then show ?thesis using s by (auto simp: gw_Set_def Let_def split: if_splits)
  next
    case 2
    then obtain n where n: "?o = [n]" by (cases ?o) auto
    then have "set_write E C g fates key value ts n w = Some (None, w')" using s by (simp add: gw_Set_def)
    from set_writes [OF assms(1) this] show ?thesis by (simp add: replicated_def k n)
  next
    case 3
    then obtain errs where f: "fan_out (set_write E C g fates key value ts) order w = Some (errs, w')"
        "verdict ?mode errs (length ?o) = None"
      using s by (auto simp: gw_Set_def Let_def split: option.splits if_splits)
    note o = order_facts [OF assms(2)]
    have "order \<noteq> []" using 3 o by auto
    from sets.verdict_spec [OF f(1) assms(1) _ this, of ?mode] show ?thesis
      using 3 f(2) o by (auto simp: replicated_def k)
  qed
qed

lemma Delete_replicated:
  assumes "world_ok E w" and "mset order = mset (ms_GetOwners key (getReplicationFactor g) (gw_mesh g))"
    and s: "gw_Delete E C g client rget fates order key ts w = Some ((existed, None), w')"
  shows "replicated E g (delete_msg g key ts) w w' \<and>
    existed = gw_exists E g client rget key (ms_GetOwners key (getReplicationFactor g) (gw_mesh g)) w"
proof -
  let ?o = "ms_GetOwners key (getReplicationFactor g) (gw_mesh g)" and ?mode = "ReplicationFailureMode (gw_config g)"
  have k: "msg_key (delete_msg g key ts) = key" by (simp add: delete_msg_def)
  consider "?o = []" | "length ?o = 1" | "length ?o > 1" by (cases ?o) auto
  then show ?thesis
  proof cases
    case 1
    then show ?thesis using s by (simp add: gw_Delete_def)
  next
    case 2
    then obtain n where n: "?o = [n]" by (cases ?o) auto
    then have d: "delete_write E C g fates key ts n w = Some (None, w')" "existed = gw_exists E g client rget key ?o w"
      using s by (auto simp: gw_Delete_def)
    show ?thesis using delete_writes [OF assms(1) d(1)] d(2) by (simp add: replicated_def k n)
  next
    case 3
    then obtain errs where f: "fan_out (delete_write E C g fates key ts) order w = Some (errs, w')"
        "verdict ?mode errs (length ?o) = None" "existed = gw_exists E g client rget key ?o w"
      using s by (auto simp: gw_Delete_def Let_def split: option.splits if_splits)
    note o = order_facts [OF assms(2)]
    have "order \<noteq> []" using 3 o by auto
    from deletes.verdict_spec [OF f(1) assms(1) _ this, of ?mode] show ?thesis
      using 3 f(2,3) o by (auto simp: replicated_def k)
  qed
qed

text \<open>C4. What a successful write has achieved, whatever the network did to its calls and in whatever order they ran: no
  replica moved backwards; with one owner or in strict mode every owner holds the write or something newer,
  in lenient mode at least one does; and in any other mode a write to several owners never succeeds. For a
  delete, the reported existence is what the probe saw.\<close>

theorem write_replicated:
  assumes "world_ok E w" and "mset order = mset (ms_GetOwners key (getReplicationFactor g) (gw_mesh g))"
  shows "(gw_Set E C g fates order key value ts w = Some (None, w') \<longrightarrow> replicated E g (set_msg g key value ts) w w') \<and>
    (gw_Delete E C g client rget fates order key ts w = Some ((existed, None), w') \<longrightarrow>
       replicated E g (delete_msg g key ts) w w' \<and>
       existed = gw_exists E g client rget key (ms_GetOwners key (getReplicationFactor g) (gw_mesh g)) w)"
  using Set_replicated [OF assms] Delete_replicated [OF assms] by blast

text \<open>Two nodes, this one and a peer, that own every key.\<close>

definition pair_mesh :: mesh where
  "pair_mesh = demo_mesh\<lparr>m_ring := \<lparr>ring_nodes = [''a'' \<mapsto> 0, ''b'' \<mapsto> 1], ring_weights = [''a'' \<mapsto> 1, ''b'' \<mapsto> 1],
      nodeList = [''a'', ''b''], vnodes = [\<lparr>vn_hash = 1, nodeIdx = 0\<rparr>, \<lparr>vn_hash = 2, nodeIdx = 1\<rparr>]\<rparr>,
     nodeAddrs := [''a'' \<mapsto> ''10.0.0.1:80'', ''b'' \<mapsto> ''10.0.0.2:80'']\<rparr>"

definition pair_gateway :: gateway where
  "pair_gateway = NewGateway (RealMesh pair_mesh) (NewConfigBuilder\<lparr>mc_NodeID := ''a''\<rparr>)"

definition mem_storage :: "(string \<times> nat) list storage" where
  "mem_storage = NewStorageWriter (NewShardedMap demo_env) NopWal NewClock"

definition pair_world :: "(string \<times> nat) list world" where
  "pair_world = \<lparr>wd_sw = Some mem_storage, wd_peers = [''10.0.0.2:80'' \<mapsto> \<lparr>peer_sw = mem_storage, peer_syncer = True\<rparr>]\<rparr>"

definition good_fate :: fate where
  "good_fate = \<lparr>f_client = True, f_arrives = True, f_answered = True, f_readings = [1]\<rparr>"

lemma pair_owners:
  assumes "2 \<le> rf"
  shows "ms_GetOwners key rf (RealMesh pair_mesh) = [''a'', ''b''] \<or> ms_GetOwners key rf (RealMesh pair_mesh) = [''b'', ''a'']"
proof -
  let ?r = "m_ring pair_mesh"
  have n: "vnodes ?r \<noteq> []" "nodeList ?r = [''a'', ''b'']" by (simp_all add: pair_mesh_def)
  have "set (circle ?r key) = {''a'', ''b''}" by (simp add: set_circle) (simp add: pair_mesh_def vnode_owner_def)
  then have f: "distinct (firsts [] (circle ?r key))" "set (firsts [] (circle ?r key)) = {''a'', ''b''}"
    using firsts_spec [of "[]" "circle ?r key"] by simp_all
  then have l: "length (firsts [] (circle ?r key)) = 2" using distinct_card [OF f(1)] by simp
  then have "ms_GetOwners key rf (RealMesh pair_mesh) = firsts [] (circle ?r key)"
    using assms n by (simp add: mesh_GetOwners_def GetOwners_circle)
  moreover obtain x y where "firsts [] (circle ?r key) = [x, y]" using l by (auto simp: length_Suc_conv numeral_2_eq_2)
  ultimately show ?thesis using f by (auto simp: doubleton_eq_iff)
qed

lemma mem_apply:
  assumes "is_req m" and "msg_timestamp m = 5"
  shows "\<exists>sw'. Apply demo_env demo_codec [1] m mem_storage = Some (None, sw')"
proof -
  obtain c where "Update 5 [1] NewClock = Some c" using demo_update by blast
  then have "Update (msg_timestamp m) [1] (sw_clock mem_storage) = Some c"
    by (simp add: assms(2) mem_storage_def NewStorageWriter_def)
  then show ?thesis by (simp add: Apply_eq [OF assms(1)] mem_storage_def NewStorageWriter_def Let_def split: prod.split)
qed

lemma pair_world_ok: "world_ok demo_env pair_world"
  using new_replica [OF radix_laws_demo] by (auto simp: world_ok_def pair_world_def mem_storage_def NewStorageWriter_def)

lemma pair_set:
  "\<exists>w'. gw_Set demo_env demo_codec pair_gateway (\<lambda>_. good_fate) (ms_GetOwners ''k'' 3 (RealMesh pair_mesh)) ''k'' (Some ''x'') 5 pair_world =
     Some (None, w')"
proof -
  let ?r = "\<lparr>set_key = ''k'', set_value = Some ''x'', set_timestamp = 5, set_node = ''a''\<rparr>"
  let ?w = "set_write demo_env demo_codec pair_gateway (\<lambda>_. good_fate) ''k'' (Some ''x'') 5"
  obtain sw where sw: "ApplySet demo_env demo_codec [1] ?r mem_storage = Some (None, sw)"
    using mem_apply [of "MsgSet ?r"] by auto
  have g: "gw_config pair_gateway = NewConfigBuilder\<lparr>mc_NodeID := ''a''\<rparr>" "gw_mesh pair_gateway = RealMesh pair_mesh"
    by (simp_all add: pair_gateway_def NewGateway_def)
  have addr: "AddressForNode ''b'' pair_mesh = ''10.0.0.2:80''"
    by (simp add: AddressForNode_def pair_mesh_def demo_mesh_def)
  have la: "?w ''a'' w = Some (None, w\<lparr>wd_sw := Some sw\<rparr>)" if "wd_sw w = Some mem_storage" for w
    using that sw by (simp add: set_write_def g applySetLocal_def stateWriter_def good_fate_def)
  have wire: "wire_set ?r = ?r" by (simp add: wire_set_def slice_len_def)
  have lb: "?w ''b'' w = Some (None, w\<lparr>wd_peers := [''10.0.0.2:80'' \<mapsto> \<lparr>peer_sw = sw, peer_syncer = True\<rparr>]\<rparr>)"
    if "wd_peers w = [''10.0.0.2:80'' \<mapsto> \<lparr>peer_sw = mem_storage, peer_syncer = True\<rparr>]" for w
    using that sw by (simp add: set_write_def g addr applySetRemote_def rpc_Push_def good_fate_def server_Push_def SyncPush_def Push_def wire Let_def)
  have o: "ms_GetOwners ''k'' 3 (RealMesh pair_mesh) = [''a'', ''b''] \<or> ms_GetOwners ''k'' 3 (RealMesh pair_mesh) = [''b'', ''a'']"
    by (rule pair_owners) simp
  have rf: "getReplicationFactor pair_gateway = 3" by (simp add: getReplicationFactor_def g NewConfigBuilder_def)
  have m: "ReplicationFailureMode (gw_config pair_gateway) = Strict" "Strict \<noteq> Lenient" by (simp_all add: g NewConfigBuilder_def Strict_def Lenient_def)
  from o show ?thesis
    by (elim disjE) (simp_all add: gw_Set_def rf g(2) la lb pair_world_def verdict_def m del: ms_GetOwners.simps)
qed

theorem write_replicated_witness:
  "\<exists>w' :: (string \<times> nat) list world.
     gw_Set demo_env demo_codec pair_gateway (\<lambda>_. good_fate) (ms_GetOwners ''k'' 3 (RealMesh pair_mesh)) ''k'' (Some ''x'') 5 pair_world =
       Some (None, w') \<and>
     (\<forall>n \<in> {''a'', ''b''}. holds_write demo_env pair_gateway (set_msg pair_gateway ''k'' (Some ''x'') 5) n w')"
proof -
  obtain w' where w': "gw_Set demo_env demo_codec pair_gateway (\<lambda>_. good_fate) (ms_GetOwners ''k'' 3 (RealMesh pair_mesh)) ''k'' (Some ''x'') 5 pair_world =
       Some (None, w')" using pair_set by blast
  have g: "getReplicationFactor pair_gateway = 3" "gw_mesh pair_gateway = RealMesh pair_mesh"
      "ReplicationFailureMode (gw_config pair_gateway) = Strict"
    by (simp_all add: getReplicationFactor_def pair_gateway_def NewGateway_def NewConfigBuilder_def)
  have "set (ms_GetOwners ''k'' 3 (RealMesh pair_mesh)) = {''a'', ''b''}" using pair_owners [of 3 "''k''"] by auto
  moreover have "replicated demo_env pair_gateway (set_msg pair_gateway ''k'' (Some ''x'') 5) pair_world w'"
    using write_replicated [OF pair_world_ok, of _ "''k''" pair_gateway] w' unfolding g by blast
  ultimately have "\<forall>n \<in> {''a'', ''b''}. holds_write demo_env pair_gateway (set_msg pair_gateway ''k'' (Some ''x'') 5) n w'"
    using g by (simp add: replicated_def set_msg_def Let_def del: ms_GetOwners.simps)
  then show ?thesis using w' by blast
qed

end
