(* ===== verification/Node.thy ===== *)
theory Node
  imports Gateway Engine
begin

text \<open>
  A cluster node (\<open>src/cluster/node.go\<close>): the engine with the mesh, the gateway, the anti-entropy syncer, the load monitor
  (\<open>src/cluster/stats/monitor.go\<close>) and the gossip handler (\<open>src/cluster/gossip/gossip.go\<close>) around it, and the handlers of the
  gRPC service in front of it (\<open>src/server/server.go\<close>). The gateway and the syncer hold pointers to the mesh, the
  configuration and the storage of the node; here they are made from the node's own when they are used.

  The lemmas show that the monitor keeps the weight of the node in step with its load, that an exchange of
  anti-entropy in each direction makes two replicas agree, and that a read of a key no owner holds is passed
  on between the owners without end.
\<close>

section \<open>Gossip and monitor\<close>

text \<open>\<open>None\<close> is a handler that does not return: a clock that never moves, or a request missing from its entry.\<close>

definition OnGossip :: "'t env \<Rightarrow> codec \<Rightarrow> i64 list \<Rightarrow> bytes \<Rightarrow> 't storage \<Rightarrow> 't storage option" where
  "OnGossip E C ts data sw =
     (case unmarshal C data of
        None \<Rightarrow> Some sw
      | Some EntryNil \<Rightarrow> Some sw
      | Some (EntrySet (Some r)) \<Rightarrow> map_option snd (ApplySet E C ts r sw)
      | Some (EntryDelete (Some r)) \<Rightarrow> map_option snd (ApplyDelete E C ts r sw)
      | Some (EntrySet None) \<Rightarrow> None
      | Some (EntryDelete None) \<Rightarrow> None)"

record monitor =
  mo_weight :: int
  mo_started :: bool
  mo_stopped :: bool

definition NewMonitor :: monitor where
  "NewMonitor = \<lparr>mo_weight = 128, mo_started = False, mo_stopped = False\<rparr>"

definition Start_monitor :: "monitor \<Rightarrow> monitor" where
  "Start_monitor m = (if mo_started m then m else m\<lparr>mo_started := True\<rparr>)"

definition Stop_monitor :: "monitor \<Rightarrow> monitor" where
  "Stop_monitor m = (if mo_started m then m\<lparr>mo_stopped := True\<rparr> else m)"

text \<open>The occupancy is the quotient of two 32-bit numbers, 0 if the second is 0. The quotient of two such numbers
  that is not exactly 0.8 or 0.9 is further from it than rounding can bridge, so comparing the double
  precision quotient with the constant is comparing the products.\<close>

definition ratio_ge :: "int \<Rightarrow> int \<Rightarrow> u32 \<times> u32 \<Rightarrow> bool" where
  "ratio_ge num den r \<longleftrightarrow> snd r \<noteq> 0 \<and> den * int (unat (fst r)) \<ge> num * int (unat (snd r))"

text \<open>One tick: the new state and the weight announced, if any.\<close>

definition monitor_tick :: "u32 \<times> u32 \<Rightarrow> monitor \<Rightarrow> int option \<times> monitor" where
  "monitor_tick ratio m =
     (let newWeight = (if ratio_ge 9 10 ratio then 16 else if ratio_ge 8 10 ratio then 64 else 128) in
      if newWeight \<noteq> mo_weight m then (Some newWeight, m\<lparr>mo_weight := newWeight\<rparr>) else (None, m))"

section \<open>The node\<close>

record 't node =
  nd_core :: "'t engine"
  nd_mesh :: mesher
  nd_config :: mesh_config
  nd_interval :: i64
  nd_syncer :: "syncer option"
  nd_monitor :: monitor
  nd_gw_closed :: bool
  nd_started :: bool
  nd_stopped :: bool

datatype node_error = MeshCreate | NodePanic syncer_panic | PanicMeshStart | PanicMeshStop | PanicBindAddr

definition NewNode ::
  "(ml_config \<Rightarrow> bool) \<Rightarrow> ml_config \<Rightarrow> ml_config \<Rightarrow> 't engine \<Rightarrow> mesh_config \<Rightarrow> i64 \<Rightarrow> node_error + 't node" where
  "NewNode create local lan coreEngine cfg gossipInterval =
     (case (if SingleNode cfg then Some NopMesh else map_option RealMesh (NewMesh create local lan cfg)) of
        None \<Rightarrow> Inl MeshCreate
      | Some m \<Rightarrow>
          (case (if SingleNode cfg then Inr None
                 else map_sum id Some (NewSyncer (Some m) True cfg (mc_NodeID cfg) gossipInterval)) of
             Inl p \<Rightarrow> Inl (NodePanic p)
           | Inr s \<Rightarrow> Inr \<lparr>nd_core = coreEngine, nd_mesh = m, nd_config = cfg, nd_interval = gossipInterval, nd_syncer = s,
                           nd_monitor = NewMonitor, nd_gw_closed = False, nd_started = False, nd_stopped = False\<rparr>))"

definition Start_node :: "(nat \<Rightarrow> bool) \<Rightarrow> 't node \<Rightarrow> node_error + 't node" where
  "Start_node join n =
     (if nd_started n then Inr n
      else
        (let n1 = n\<lparr>nd_started := True, nd_core := Start_engine (nd_core n)\<rparr> in
         if \<not> fst (ms_Start join (nd_mesh n1)) then Inl PanicMeshStart
         else
           (case (case nd_syncer n1 of None \<Rightarrow> Inr None | Some s \<Rightarrow> map_sum id Some (Start_syncer s)) of
              Inl p \<Rightarrow> Inl (NodePanic p)
            | Inr s \<Rightarrow> Inr (n1\<lparr>nd_syncer := s, nd_monitor := Start_monitor (nd_monitor n1)\<rparr>))))"

definition Stop_node :: "bool \<Rightarrow> 't node \<Rightarrow> node_error + 't node" where
  "Stop_node shutdown n =
     (if nd_stopped n then Inr n
      else
        (let n1 = n\<lparr>nd_stopped := True, nd_monitor := Stop_monitor (nd_monitor n), nd_syncer := map_option Stop_syncer (nd_syncer n)\<rparr>;
             (ok, m) = ms_Stop shutdown (nd_mesh n1) in
         if \<not> ok then Inl PanicMeshStop
         else Inr (n1\<lparr>nd_mesh := m, nd_gw_closed := True, nd_core := Stop_engine (nd_core n1)\<rparr>)))"

definition node_tick :: "'t node \<Rightarrow> 't node" where
  "node_tick n =
     (let (w, m) = monitor_tick (Occupancy_engine (nd_core n)) (nd_monitor n); n1 = n\<lparr>nd_monitor := m\<rparr> in
      case w of None \<Rightarrow> n1 | Some x \<Rightarrow> n1\<lparr>nd_mesh := ms_UpdateLocalWeight x (nd_mesh n1)\<rparr>)"

definition node_gw :: "'t node \<Rightarrow> gateway" where
  "node_gw n = NewGateway (nd_mesh n) (nd_config n)"

definition isOwner :: "string \<Rightarrow> 't node \<Rightarrow> bool" where
  "isOwner key n =
     (let rf = ReplicationFactor (nd_config n); rf = (if rf \<le> 0 then 1 else rf)
      in mc_NodeID (nd_config n) \<in> set (ms_GetOwners key rf (nd_mesh n)))"

definition node_publish :: "'t env \<Rightarrow> u32 \<times> u32 \<Rightarrow> string \<Rightarrow> 't node \<Rightarrow> 't node" where
  "node_publish E r key n =
     n\<lparr>nd_core := (nd_core n)\<lparr>eng_evt := evt_publish r key (HashFunc E key) (eng_evt (nd_core n))\<rparr>\<rparr>"

definition node_Get ::
  "'t env \<Rightarrow> u32 \<times> u32 \<Rightarrow> (string \<Rightarrow> bool) \<Rightarrow> remote_get \<Rightarrow> string \<Rightarrow> 't node \<Rightarrow> (goslice \<times> bool) \<times> 't node" where
  "node_Get E r client rget key n =
     (let hash = HashFunc E key; hm = sw_hm (eng_sw (nd_core n)) in
      if SingleNode (nd_config n)
      then (case LoadData E key hash hm of None \<Rightarrow> ((None, False), n) | Some data \<Rightarrow> ((data, True), node_publish E r key n))
      else
        (case (if isOwner key n then Load E key hash hm else None) of
           Some iv \<Rightarrow> if \<not> Tombstone iv then ((Data iv, True), node_publish E r key n) else ((None, False), n)
         | None \<Rightarrow> (gw_Get (node_gw n) client rget key, n)))"

text \<open>A write works on the node and on the peers it can reach.\<close>

definition node_world :: "'t node \<Rightarrow> (string \<rightharpoonup> 't peer) \<Rightarrow> 't world" where
  "node_world n peers = \<lparr>wd_sw = Some (eng_sw (nd_core n)), wd_peers = peers\<rparr>"

definition node_after :: "'t world \<Rightarrow> 't node \<Rightarrow> 't node \<times> (string \<rightharpoonup> 't peer)" where
  "node_after w n =
     (case wd_sw w of None \<Rightarrow> (n, wd_peers w)
      | Some sw \<Rightarrow> (n\<lparr>nd_core := (nd_core n)\<lparr>eng_sw := sw\<rparr>\<rparr>, wd_peers w))"

definition node_Set ::
  "'t env \<Rightarrow> codec \<Rightarrow> op_input \<Rightarrow> (string \<Rightarrow> fate) \<Rightarrow> string list \<Rightarrow> string \<Rightarrow> goslice \<Rightarrow> 't node \<times> (string \<rightharpoonup> 't peer) \<Rightarrow>
   (gw_error option \<times> 't node \<times> (string \<rightharpoonup> 't peer)) option" where
  "node_Set E C i fates order key value s =
     (let (n, peers) = s in
      if SingleNode (nd_config n)
      then map_option (\<lambda>(e, eng). (map_option WriterError e, n\<lparr>nd_core := eng\<rparr>, peers))
             (Set_key E C (in_now i) (in_upd i) (in_rand i) key value (nd_core n))
      else
        (case Now (in_now i) (sw_clock (eng_sw (nd_core n))) of
           None \<Rightarrow> None
         | Some (ts, c) \<Rightarrow>
             (let n1 = n\<lparr>nd_core := (nd_core n)\<lparr>eng_sw := (eng_sw (nd_core n))\<lparr>sw_clock := c\<rparr>\<rparr>\<rparr>
              in map_option (\<lambda>(e, w). (e, node_after w n1)) (gw_Set E C (node_gw n1) fates order key value ts (node_world n1 peers)))))"

definition node_Delete ::
  "'t env \<Rightarrow> codec \<Rightarrow> op_input \<Rightarrow> (string \<Rightarrow> bool) \<Rightarrow> remote_get \<Rightarrow> (string \<Rightarrow> fate) \<Rightarrow> string list \<Rightarrow> string \<Rightarrow>
   't node \<times> (string \<rightharpoonup> 't peer) \<Rightarrow> ((bool \<times> gw_error option) \<times> 't node \<times> (string \<rightharpoonup> 't peer)) option" where
  "node_Delete E C i client rget fates order key s =
     (let (n, peers) = s in
      if SingleNode (nd_config n)
      then map_option (\<lambda>(hit, e, eng). ((hit, map_option WriterError e), n\<lparr>nd_core := eng\<rparr>, peers))
             (Delete E C (in_now i) (in_upd i) key (nd_core n))
      else
        (case Now (in_now i) (sw_clock (eng_sw (nd_core n))) of
           None \<Rightarrow> None
         | Some (ts, c) \<Rightarrow>
             (let n1 = n\<lparr>nd_core := (nd_core n)\<lparr>eng_sw := (eng_sw (nd_core n))\<lparr>sw_clock := c\<rparr>\<rparr>\<rparr>
              in map_option (\<lambda>(r, w). (r, node_after w n1))
                   (gw_Delete E C (node_gw n1) client rget fates order key ts (node_world n1 peers)))))"

text \<open>The mesh of the syncer is the mesh of the node.\<close>

definition node_syncer :: "'t node \<Rightarrow> syncer option" where
  "node_syncer n = map_option (\<lambda>s. s\<lparr>sy_mesh := nd_mesh n, sy_config := nd_config n\<rparr>) (nd_syncer n)"

definition node_SyncPull :: "'t env \<Rightarrow> sync_pools \<Rightarrow> int list \<Rightarrow> pull_config \<Rightarrow> 't node \<Rightarrow> set_request list \<times> delete_request list" where
  "node_SyncPull E p order pc n =
     (case node_syncer n of
        None \<Rightarrow> ([], [])
      | Some s \<Rightarrow> Pull E s p order pc (sw_hm (eng_sw (nd_core n))))"

definition node_SyncPush ::
  "'t env \<Rightarrow> codec \<Rightarrow> i64 list list \<Rightarrow> set_request list \<Rightarrow> delete_request list \<Rightarrow> 't node \<Rightarrow> (wal_error option \<times> 't node) option" where
  "node_SyncPush E C tss sets deletes n =
     (case node_syncer n of
        None \<Rightarrow> Some (None, n)
      | Some s \<Rightarrow> map_option (\<lambda>(e, sw). (e, n\<lparr>nd_core := (nd_core n)\<lparr>eng_sw := sw\<rparr>\<rparr>)) (Push E C tss sets deletes (eng_sw (nd_core n))))"

definition node_Owner :: "string \<Rightarrow> 't node \<Rightarrow> string" where
  "node_Owner key n = (if SingleNode (nd_config n) then mc_NodeID (nd_config n) else ms_Owner key (nd_mesh n))"

definition node_NodeID :: "'t node \<Rightarrow> string" where
  "node_NodeID n = mc_NodeID (nd_config n)"

definition node_Addr :: "'t node \<Rightarrow> node_error + string" where
  "node_Addr n =
     (let addr = BindAddr (nd_config n) in
      if addr = '''' then Inl PanicBindAddr else Inr (addr @ '':'' @ fmt_int (GrpcPort (nd_config n))))"

definition node_GossipAddr :: "int \<Rightarrow> 't node \<Rightarrow> node_error + string" where
  "node_GossipAddr bound n =
     (let addr = BindAddr (nd_config n) in
      if addr = '''' then Inl PanicBindAddr
      else
        (let port = BindPort (nd_config n); actual = ms_LocalGossipPort bound (nd_mesh n); port = (if actual > 0 then actual else port)
         in Inr (addr @ '':'' @ fmt_int port)))"

section \<open>The gRPC handlers\<close>

definition server_Get ::
  "'t env \<Rightarrow> u32 \<times> u32 \<Rightarrow> (string \<Rightarrow> bool) \<Rightarrow> remote_get \<Rightarrow> string \<Rightarrow> 't node \<Rightarrow> (goslice \<times> bool) \<times> 't node" where
  "server_Get E r client rget key n = (let ((val, ok), n') = node_Get E r client rget key n in ((val, ok), n'))"

definition server_Set ::
  "'t env \<Rightarrow> codec \<Rightarrow> op_input \<Rightarrow> (string \<Rightarrow> fate) \<Rightarrow> string list \<Rightarrow> set_request \<Rightarrow> 't node \<times> (string \<rightharpoonup> 't peer) \<Rightarrow>
   (gw_error option \<times> 't node \<times> (string \<rightharpoonup> 't peer)) option" where
  "server_Set E C i fates order req s = node_Set E C i fates order (set_key req) (set_value req) s"

definition server_Delete ::
  "'t env \<Rightarrow> codec \<Rightarrow> op_input \<Rightarrow> (string \<Rightarrow> bool) \<Rightarrow> remote_get \<Rightarrow> (string \<Rightarrow> fate) \<Rightarrow> string list \<Rightarrow> delete_request \<Rightarrow>
   't node \<times> (string \<rightharpoonup> 't peer) \<Rightarrow> ((gw_error + bool) \<times> 't node \<times> (string \<rightharpoonup> 't peer)) option" where
  "server_Delete E C i client rget fates order req s =
     (case node_Delete E C i client rget fates order (del_key req) s of
        None \<Rightarrow> None
      | Some ((existed, Some e), s') \<Rightarrow> Some (Inl e, s')
      | Some ((existed, None), s') \<Rightarrow> Some (Inr existed, s'))"

text \<open>Go's \<open>copy\<close>: as many elements as the shorter slice has.\<close>

definition go_copy :: "'a list \<Rightarrow> 'a list \<Rightarrow> 'a list" where
  "go_copy dst src = take (length dst) src @ drop (length src) dst"

text \<open>What the handler of \<open>Pull\<close> makes of a request: the digests under signed shard numbers, in maps from its pools.\<close>

definition pull_config_of :: "sync_pools \<Rightarrow> pull_request \<Rightarrow> pull_config" where
  "pull_config_of p req =
     \<lparr>pc_Shards = (\<lambda>j. if sint (word_of_int j :: u32) = j \<and> pr_ShardDigests req (word_of_int j) \<noteq> None
                       then pr_ShardDigests req (word_of_int j) else sp_shards p j),
      pc_Buckets = (\<lambda>j. case sp_buckets p j of
                      None \<Rightarrow> None
                    | Some dst \<Rightarrow>
                        (if sint (word_of_int j :: u32) = j
                         then (case pr_SubDigests req (word_of_int j) of None \<Rightarrow> Some dst | Some src \<Rightarrow> Some (go_copy dst src))
                         else Some dst)),
      RequesterID = pr_NodeId req, pc_Root = pr_RootDigest req\<rparr>"

definition pools_cleared :: "sync_pools \<Rightarrow> sync_pools" where
  "pools_cleared p = p\<lparr>sp_shards := Map.empty, sp_buckets := (\<lambda>j. map_option (map (\<lambda>_. 0)) (sp_buckets p j))\<rparr>"

definition server_Pull ::
  "'t env \<Rightarrow> sync_pools \<Rightarrow> sync_pools \<Rightarrow> int list \<Rightarrow> pull_request \<Rightarrow> 't node \<Rightarrow>
   (set_request list \<times> delete_request list) \<times> sync_pools" where
  "server_Pull E sp p order req n =
     (node_SyncPull E p order (pull_config_of sp req) n,
      pools_cleared \<lparr>sp_shards = pc_Shards (pull_config_of sp req), sp_buckets = pc_Buckets (pull_config_of sp req)\<rparr>)"

section \<open>The monitor and the mesh\<close>

definition weight_inv :: "'t node \<Rightarrow> bool" where
  "weight_inv n \<longleftrightarrow> mo_weight (nd_monitor n) \<in> {16, 64, 128} \<and>
     (case nd_mesh n of NopMesh \<Rightarrow> True | RealMesh m \<Rightarrow> localWeight m = word_of_int (mo_weight (nd_monitor n)))"

lemma NewNode_weight: "NewNode create local lan eng cfg interval = Inr n \<Longrightarrow> weight_inv n"
  by (auto simp: NewNode_def NewMesh_def NewSyncer_def NewMonitor_def weight_inv_def defaultVnodes_def split: if_splits)

text \<open>A tick leaves the monitor and the mesh with the weight that the load calls for.\<close>

lemma node_tick_weight:
  assumes "weight_inv n"
  shows "weight_inv (node_tick n) \<and> mo_weight (nd_monitor (node_tick n)) =
    (if ratio_ge 9 10 (Occupancy_engine (nd_core n)) then 16 else if ratio_ge 8 10 (Occupancy_engine (nd_core n)) then 64 else 128)"
  using assms
  by (cases "nd_mesh n") (simp_all add: weight_inv_def node_tick_def monitor_tick_def UpdateLocalWeight_def Let_def)

section \<open>Anti-entropy between two nodes\<close>

definition node_map :: "'t node \<Rightarrow> 't sharded_map" where
  "node_map n = sw_hm (eng_sw (nd_core n))"

text \<open>A round of the node \<open>a\<close> with the node \<open>b\<close>: the request of \<open>a\<close>, the handler of \<open>b\<close>, and \<open>a\<close>'s merge of the answer as it
  arrives.\<close>

definition pulled :: "'t env \<Rightarrow> syncer \<Rightarrow> sync_pools \<Rightarrow> sync_pools \<Rightarrow> sync_pools \<Rightarrow> int list \<Rightarrow> 't node \<Rightarrow> 't node \<Rightarrow> set_request list \<times> delete_request list" where
  "pulled E s pa sp pb order a b =
     (let (sets, deletes) = fst (server_Pull E sp pb order (preparePullRequest s pa (node_map a)) b) in (map wire_set sets, deletes))"

definition exchange ::
  "'t env \<Rightarrow> codec \<Rightarrow> i64 list list \<Rightarrow> sync_pools \<Rightarrow> sync_pools \<Rightarrow> sync_pools \<Rightarrow> int list \<Rightarrow> 't node \<Rightarrow> 't node \<Rightarrow>
   (wal_error option \<times> 't node) option" where
  "exchange E C tss pa sp pb order a b =
     (case node_syncer a of
        None \<Rightarrow> Some (None, a)
      | Some s \<Rightarrow> (let (sets, deletes) = pulled E s pa sp pb order a b in node_SyncPush E C tss sets deletes a))"

lemma Push_nothing: "Push E C tss [] [] sw = Some (None, sw)"
  by (simp add: Push_def)

lemma performSync_exchange:
  assumes "node_syncer a = Some s"
    and "excludeSelf (ms_Members seen_order (sy_mesh s)) (ms_AddressForNode (sy_node s) (sy_mesh s)) \<noteq> []"
  shows "map_option (\<lambda>sw. a\<lparr>nd_core := (nd_core a)\<lparr>eng_sw := sw\<rparr>\<rparr>)
      (performSync E C s pa seen_order draw (\<lambda>_. True) (\<lambda>_ req. Some (let (x, y) = fst (server_Pull E sp pb order req b) in (map wire_set x, y))) tss
        (eng_sw (nd_core a))) =
    map_option snd (exchange E C tss pa sp pb order a b)"
proof -
  obtain x y where p: "fst (server_Pull E sp pb order (preparePullRequest s pa (sw_hm (eng_sw (nd_core a)))) b) = (x, y)"
    by (rule prod.exhaust)
  have m: "ms_Members seen_order (sy_mesh s) \<noteq> []" using assms(2) by (auto simp: excludeSelf_def)
  show ?thesis
  proof (cases "x = [] \<and> y = []")
    case True
    then show ?thesis using assms m p
      by (simp add: performSync_def exchange_def pulled_def node_map_def node_SyncPush_def Push_nothing Let_def)
  next
    case False
    then have "x \<noteq> [] \<or> y \<noteq> []" by blast
    then show ?thesis using assms m p
      by (auto simp: performSync_def exchange_def pulled_def node_map_def node_SyncPush_def Let_def option.map_comp comp_def case_prod_beta)
  qed
qed

lemma small_shard: "i < ShardCount \<Longrightarrow> sint (word_of_nat i :: u32) = int i"
proof -
  assume "i < ShardCount"
  then have "sint (word_of_int (int i) :: u32) = int i"
    by (subst sint_sbintrunc') (rule signed_take_bit_int_eq_self, simp_all add: ShardCount_def)
  then show ?thesis by simp
qed

lemma go_copy_same: "length dst = length src \<Longrightarrow> go_copy dst src = src"
  by (simp add: go_copy_def)

lemma prepared_digests:
  assumes "pools_ok pa" and "pools_ok sp"
  shows "digests_of hm (pull_config_of sp (preparePullRequest s pa hm))"
    "RequesterID (pull_config_of sp (preparePullRequest s pa hm)) = sy_node s"
proof -
  obtain m where m: "FillDigests hm (Some (sp_buckets pa)) = Some m" using local_digests(3) [OF assms(1)] by blast
  have l: "FillShardDigests hm (sp_shards pa) (int i) = Some (shard_pub hm i)" "m (int i) = Some (map (sub_pub hm i) [0..<SubBucketCount])"
    if "i < ShardCount" for i
    using that local_digests(1) [OF assms(1), of hm "int i"] local_digests(2) [OF assms(1) m, of "int i"] by simp_all
  have b: "\<exists>ds. sp_buckets sp (int i) = Some ds \<and> length ds = SubBucketCount" if "i < ShardCount" for i
    using assms(2) that by (simp add: pools_ok_def)
  show "RequesterID (pull_config_of sp (preparePullRequest s pa hm)) = sy_node s"
    by (simp add: pull_config_of_def preparePullRequest_def Let_def)
  have "pc_Shards (pull_config_of sp (preparePullRequest s pa hm)) (int i) = Some (shard_pub hm i)" if "i < ShardCount" for i
    using that by (simp add: pull_config_of_def preparePullRequest_def Let_def small_shard l)
  moreover have "pc_Buckets (pull_config_of sp (preparePullRequest s pa hm)) (int i) = Some (map (sub_pub hm i) [0..<SubBucketCount])"
    if "i < ShardCount" for i
    using that b [OF that] by (auto simp: pull_config_of_def preparePullRequest_def Let_def small_shard l m go_copy_same)
  ultimately show "digests_of hm (pull_config_of sp (preparePullRequest s pa hm))"
    by (simp add: digests_of_def pull_config_of_def preparePullRequest_def Let_def)
qed

lemma exchange_contents:
  assumes "replica_inv E (node_map a)" and "replica_inv E (node_map b)" and "pools_ok pa" and "pools_ok sp" and "pools_ok pb"
    and "visit_order order" and "node_syncer a = Some sa" and "node_syncer b = Some sb" and "exchange E C tss pa sp pb order a b = Some (None, a')"
  shows "replica_inv E (node_map a') \<and> node_syncer a' = node_syncer a \<and> contents E (node_map a') k =
    (if differs E (node_map a) (node_map b) k \<and> isRequesterResponsible sb k (sy_node sa)
     then (case contents E (node_map b) k of None \<Rightarrow> contents E (node_map a) k
           | Some v \<Rightarrow> lww.merge (contents E (node_map a) k) (arrived E k v))
     else contents E (node_map a) k)"
proof -
  let ?pc = "pull_config_of sp (preparePullRequest sa pa (node_map a))"
  obtain x y where p: "Pull E sb pb order ?pc (node_map b) = (x, y)" by (rule prod.exhaust)
  obtain sw where sw: "Push E C tss (map wire_set x) y (eng_sw (nd_core a)) = Some (None, sw)" "a' = a\<lparr>nd_core := (nd_core a)\<lparr>eng_sw := sw\<rparr>\<rparr>"
    using assms(7,8,9) p
    by (auto simp: exchange_def pulled_def server_Pull_def node_SyncPull_def node_SyncPush_def node_map_def)
  have m: "node_map a' = sw_hm sw" "node_map a = sw_hm (eng_sw (nd_core a))" "node_syncer a' = node_syncer a"
    by (simp_all add: sw(2) node_map_def node_syncer_def)
  note d = prepared_digests [OF assms(3,4), where hm = "node_map a" and s = sa]
  show ?thesis
    using pull_push [OF assms(1) [unfolded m(2)] assms(2,5) d(1) [unfolded m(2)] assms(6) p [unfolded m(2)] sw(1), of k] d(2)
    unfolding m by simp
qed

lemma merge_either: "lww.merge e v = e \<or> lww.merge e v = Some v"
  by (auto simp: lww.merge_def split: option.splits)

lemma arrived_bare: "Tombstone (arrived E k v) \<Longrightarrow> slice_len (Data (arrived E k v)) = 0"
  by (auto simp: arrived_def msg_for_def version_def stamped_def set_to_value_def delete_to_value_def slice_len_def
      simp del: req_value_fields split: if_splits)

lemma max_none: "max x None = (x :: 'a :: linorder option)"
  by (cases x) (simp_all add: max_def)

lemma exchange_held:
  assumes "replica_inv E (node_map a)" and "replica_inv E (node_map b)" and "pools_ok pa" and "pools_ok sp" and "pools_ok pb"
    and "visit_order order" and "node_syncer a = Some sa" and "node_syncer b = Some sb" and "exchange E C tss pa sp pb order a b = Some (None, a')"
    and "bare_tombstones E (node_map a)" and "bare_tombstones E (node_map b)"
  shows "held E (node_map a') k =
      (if differs E (node_map a) (node_map b) k \<and> isRequesterResponsible sb k (sy_node sa)
       then max (held E (node_map a) k) (held E (node_map b) k) else held E (node_map a) k)"
    "bare_tombstones E (node_map a')"
proof -
  note c = exchange_contents [OF assms(1-9)]
  show "held E (node_map a') k =
      (if differs E (node_map a) (node_map b) k \<and> isRequesterResponsible sb k (sy_node sa)
       then max (held E (node_map a) k) (held E (node_map b) k) else held E (node_map a) k)"
    using c [of k] arrived_key(1) [OF assms(2,11), of k]
    by (cases "contents E (node_map b) k") (simp_all add: held_def merge_key max_none)
  have "slice_len (Data v) = 0" if v: "contents E (node_map a') j = Some v" "Tombstone v" for j v
  proof (cases "contents E (node_map a') j = contents E (node_map a) j")
    case True
    then show ?thesis using v assms(10) by (simp add: bare_tombstones_def)
  next
    case False
    then obtain u where "contents E (node_map a') j = lww.merge (contents E (node_map a) j) (arrived E j u)"
      using c [of j] by (auto split: if_splits option.splits)
    then have "v = arrived E j u" using False v(1) merge_either [of "contents E (node_map a) j" "arrived E j u"] by auto
    then show ?thesis using arrived_bare v(2) by simp
  qed
  then show "bare_tombstones E (node_map a')" by (simp add: bare_tombstones_def)
qed

text \<open>Digests tell two maps apart on every key that matters: where they agree, so do the maps.\<close>

definition digests_tell :: "'t env \<Rightarrow> 't sharded_map \<Rightarrow> 't sharded_map \<Rightarrow> bool" where
  "digests_tell E a b \<longleftrightarrow> (\<forall>k. \<not> differs E a b k \<longrightarrow> held E a k = held E b k)"

text \<open>C3. Anti-entropy converges in one round each way. When the node \<open>a\<close> has pulled from the node \<open>b\<close>, and then \<open>b\<close> from \<open>a\<close>,
  without errors and without digest collisions, both hold for every key that both own the newer of what
  the two held before: the same timestamp, writer and content hash.\<close>

theorem sync_converges:
  assumes "replica_inv E (node_map a)" and "replica_inv E (node_map b)" and "pools_ok pa" and "pools_ok sp" and "pools_ok pb"
    and "visit_order order" and "node_syncer a = Some sa" and "node_syncer b = Some sb"
    and "bare_tombstones E (node_map a)" and "bare_tombstones E (node_map b)"
    and "exchange E C tss pa sp pb order a b = Some (None, a')" and "exchange E C tss' pb sp pa order b a' = Some (None, b')"
    and "digests_tell E (node_map a) (node_map b)" and "digests_tell E (node_map b) (node_map a')"
    and "isRequesterResponsible sb k (sy_node sa)" and "isRequesterResponsible sa k (sy_node sb)"
  shows "held E (node_map a') k = max (held E (node_map a) k) (held E (node_map b) k) \<and>
    held E (node_map b') k = max (held E (node_map a) k) (held E (node_map b) k)"
proof -
  note c = exchange_contents [OF assms(1-8) assms(11)] and h = exchange_held [OF assms(1-8) assms(11) assms(9,10)]
  have a': "held E (node_map a') k = max (held E (node_map a) k) (held E (node_map b) k)"
    using h(1) [of k] assms(13,15) by (auto simp: digests_tell_def max_def)
  have "replica_inv E (node_map a')" "node_syncer a' = Some sa" using c assms(7) by simp_all
  note h' = exchange_held [OF assms(2) this(1) assms(5,4,3,6,8) this(2) assms(12,10) h(2)]
  have "held E (node_map b') k = max (held E (node_map b) k) (held E (node_map a') k)"
    using h'(1) [of k] assms(14,16) by (auto simp: digests_tell_def max_def)
  then show ?thesis using a' by (simp add: max.left_commute)
qed

text \<open>Two nodes that hold one key at different times.\<close>

lemma one_key_differs:
  assumes "replica_inv E s" and "replica_inv E t" and "\<And>j. j \<noteq> k \<Longrightarrow> contents E s j = contents E t j"
    and "contents E s k = Some v" and "contents E t k = Some w" and "ItemHash v \<noteq> ItemHash w"
  shows "differs E s t k"
proof -
  note D = diverged_digests [OF assms(1-5)]
  have ne: "(x XOR ItemHash v) XOR ItemHash w \<noteq> x" for x :: u64
    using assms(6) by (metis xor_cancel(2) xor_cancel(1) xor.assoc)
  have "shard_pub t = (shard_pub s)(shardIndex (HashFunc E k) :=
      (shard_pub s (shardIndex (HashFunc E k)) XOR ItemHash v) XOR ItemHash w)"
    by (rule ext) (simp add: D(2))
  then have "RootDigest t = (RootDigest s XOR ItemHash v) XOR ItemHash w"
    by (simp add: RootDigest_xors xors_shift_one del: fun_upd_apply)
  then show ?thesis using ne [of "RootDigest s"] ne [symmetric] by (auto simp: differs_def D)
qed

lemma single_answer:
  fixes a b :: "'t sharded_map"
  assumes "replica_inv E b" and "pools_ok p" and "digests_of a pc" and "visit_order order" and "Pull E s p order pc b = (x, y)"
    and "\<And>j u. contents E b j = Some u \<Longrightarrow> j = k \<and> u = v"
  shows "length (map MsgSet (map wire_set x) @ map MsgDelete y) \<le> 1 \<and>
    list_all (\<lambda>m. is_req m \<and> msg_timestamp m = Timestamp v) (map MsgSet (map wire_set x) @ map MsgDelete y)"
proof (cases "RootDigest a = RootDigest b")
  case True
  then have "x = [] \<and> y = []" using assms(3,5) by (auto simp: Pull_def digests_of_def)
  then show ?thesis by simp
next
  case False
  let ?es = "selected s (RequesterID pc) (concat (map (shard_answer E p pc b) order))"
  have "pc_Root pc \<noteq> RootDigest b" using False assms(3) by (simp add: digests_of_def)
  then have p: "x = set_part ?es" "y = delete_part ?es" using assms(5) Pull_parts [of pc b E s p order] by simp_all
  have d: "distinct ?es" using answer_distinct [OF assms(1-4)] by (simp add: selected_def distinct_map)
  have sub: "set ?es \<subseteq> {(k, v)}" using answer_mem [OF assms(1-4) False] assms(6) by (auto simp: selected_def)
  then have "?es = [] \<or> ?es = [(k, v)]"
    using d by (cases ?es; cases "tl ?es") auto
  then show ?thesis
    by (elim disjE) (auto simp: p set_part_def delete_part_def wire_set_def buildSetRequest_def buildDeleteRequest_def)
qed

lemma short_push:
  assumes "length ms \<le> 1" and "list_all (\<lambda>m. is_req m \<and> msg_timestamp m = 5) ms" and "sw_wal sw = NopWal" and "sw_clock sw = NewClock"
  shows "\<exists>sw'. push_all E C [[1]] ms sw = Some (None, sw')"
proof (cases ms)
  case (Cons m ms')
  obtain c where "Update 5 [1] NewClock = Some c" using demo_update by blast
  then have "\<exists>sw'. Apply E C [1] m sw = Some (None, sw')"
    using assms(2-4) Cons by (simp add: Apply_eq Let_def split: prod.split)
  then show ?thesis using assms(1) Cons by auto
qed simp

lemma single_exchange:
  assumes "replica_inv E (node_map b)" and "pools_ok pa" and "pools_ok sp" and "pools_ok pb" and "visit_order order"
    and "node_syncer a = Some sa" and "node_syncer b = Some sb" and "\<And>j u. contents E (node_map b) j = Some u \<Longrightarrow> j = k \<and> u = v"
    and "Timestamp v = 5" and "sw_wal (eng_sw (nd_core a)) = NopWal" and "sw_clock (eng_sw (nd_core a)) = NewClock"
  shows "\<exists>a'. exchange E C [[1]] pa sp pb order a b = Some (None, a')"
proof -
  let ?pc = "pull_config_of sp (preparePullRequest sa pa (node_map a))"
  obtain x y where p: "Pull E sb pb order ?pc (node_map b) = (x, y)" by (rule prod.exhaust)
  have d: "digests_of (node_map a) ?pc" by (rule prepared_digests(1) [OF assms(2,3)])
  have ms: "length (map MsgSet (map wire_set x) @ map MsgDelete y) \<le> 1"
      "list_all (\<lambda>m. is_req m \<and> msg_timestamp m = 5) (map MsgSet (map wire_set x) @ map MsgDelete y)"
    using single_answer [OF assms(1,4) d assms(5) p, of k v] assms(8,9) by auto
  obtain sw where "Push E C [[1]] (map wire_set x) y (eng_sw (nd_core a)) = Some (None, sw)"
    using short_push [OF ms assms(10,11)] unfolding Push_def by blast
  then show ?thesis
    using assms(6,7) p by (simp add: exchange_def pulled_def server_Pull_def node_SyncPull_def node_SyncPush_def node_map_def)
qed

definition fresh_pools :: sync_pools where
  "fresh_pools = \<lparr>sp_shards = Map.empty, sp_buckets = (\<lambda>j. if 0 \<le> j \<and> j < int ShardCount then Some (replicate SubBucketCount 0) else None)\<rparr>"

definition pair_node :: "string \<Rightarrow> i64 \<Rightarrow> (string \<times> nat) list node" where
  "pair_node n ts =
     \<lparr>nd_core = demo_engine\<lparr>eng_sw := mem_storage\<lparr>sw_hm :=
        Store demo_env ''k'' (HashFunc demo_env ''k'') (demo_value n ts ''x'') (NewShardedMap demo_env)\<rparr>\<rparr>,
      nd_mesh = RealMesh pair_mesh, nd_config = NewConfigBuilder\<lparr>mc_NodeID := n\<rparr>, nd_interval = 1,
      nd_syncer = Some \<lparr>sy_mesh = RealMesh pair_mesh, sy_config = NewConfigBuilder\<lparr>mc_NodeID := n\<rparr>, sy_node = n,
        sy_interval = 1, sy_stopped = False, sy_running = True\<rparr>,
      nd_monitor = NewMonitor, nd_gw_closed = False, nd_started = True, nd_stopped = False\<rparr>"

definition pair_syncer :: "string \<Rightarrow> syncer" where
  "pair_syncer n = \<lparr>sy_mesh = RealMesh pair_mesh, sy_config = NewConfigBuilder\<lparr>mc_NodeID := n\<rparr>, sy_node = n,
     sy_interval = 1, sy_stopped = False, sy_running = True\<rparr>"

lemma pair_node_facts:
  "replica_inv demo_env (node_map (pair_node n ts))" "node_syncer (pair_node n ts) = Some (pair_syncer n)"
  "contents demo_env (node_map (pair_node n ts)) = [''k'' \<mapsto> version demo_env ''k'' (demo_value n ts ''x'')]"
  "sw_wal (eng_sw (nd_core (pair_node n ts))) = NopWal" "sw_clock (eng_sw (nd_core (pair_node n ts))) = NewClock"
  "bare_tombstones demo_env (node_map (pair_node n ts))"
  "n \<in> {''a'', ''b''} \<Longrightarrow> isRequesterResponsible (pair_syncer m) k n"
proof -
  have m: "node_map (pair_node n ts) = Store demo_env ''k'' (HashFunc demo_env ''k'') (demo_value n ts ''x'') (NewShardedMap demo_env)"
    by (simp add: pair_node_def node_map_def)
  show "replica_inv demo_env (node_map (pair_node n ts))"
    and c: "contents demo_env (node_map (pair_node n ts)) = [''k'' \<mapsto> version demo_env ''k'' (demo_value n ts ''x'')]"
    unfolding m by (rule demo_put)+
  show "node_syncer (pair_node n ts) = Some (pair_syncer n)" by (simp add: pair_node_def pair_syncer_def node_syncer_def)
  show "sw_wal (eng_sw (nd_core (pair_node n ts))) = NopWal" "sw_clock (eng_sw (nd_core (pair_node n ts))) = NewClock"
    by (simp_all add: pair_node_def mem_storage_def NewStorageWriter_def)
  show "bare_tombstones demo_env (node_map (pair_node n ts))"
    unfolding bare_tombstones_def c by (simp add: version_def stamped_def demo_value_def)
  show "isRequesterResponsible (pair_syncer m) k n" if "n \<in> {''a'', ''b''}"
    using that pair_owners [of 3 k]
    by (auto simp: isRequesterResponsible_def pair_syncer_def NewConfigBuilder_def simp del: ms_GetOwners.simps)
qed

lemma fresh_pools_ok: "pools_ok fresh_pools" "visit_order (map int [0..<ShardCount])"
  by (auto simp: pools_ok_def fresh_pools_def visit_order_def distinct_map)

lemma pair_first:
  assumes "exchange demo_env demo_codec tss fresh_pools fresh_pools fresh_pools (map int [0..<ShardCount]) (pair_node ''a'' 4) (pair_node ''b'' 5) = Some (None, a')"
  shows "digests_tell demo_env (node_map (pair_node ''a'' 4)) (node_map (pair_node ''b'' 5))"
    "held demo_env (node_map a') = held demo_env (node_map (pair_node ''b'' 5))" "node_syncer a' = Some (pair_syncer ''a'')"
    "replica_inv demo_env (node_map a')"
proof -
  let ?a = "pair_node ''a'' 4" and ?b = "pair_node ''b'' 5"
  let ?v = "version demo_env ''k'' (demo_value ''a'' 4 ''x'')" and ?w = "version demo_env ''k'' (demo_value ''b'' 5 ''x'')"
  note f = pair_node_facts
  have "ItemHash ?v \<noteq> ItemHash ?w" by code_simp
  then have df: "differs demo_env (node_map ?a) (node_map ?b) ''k''"
    by (rule one_key_differs [OF f(1) f(1), rotated 3]) (simp_all add: f(3))
  show dt: "digests_tell demo_env (node_map ?a) (node_map ?b)"
    unfolding digests_tell_def using df by (auto simp: held_def f(3))
  have le: "lww_key ?v \<le> lww_key ?w" by (simp add: lww_key_def version_def stamped_def demo_value_def)
  note h = exchange_held [OF f(1) f(1) fresh_pools_ok(1,1,1,2) f(2) f(2) assms f(6) f(6)]
  show "held demo_env (node_map a') = held demo_env (node_map ?b)"
  proof
    fix j
    show "held demo_env (node_map a') j = held demo_env (node_map ?b) j"
      using h(1) [of j] df le f(7) [of "''a''" "''b''" "''k''"]
      by (cases "j = ''k''") (auto simp: held_def f(3) pair_syncer_def max_def split: if_splits)
  qed
  show "node_syncer a' = Some (pair_syncer ''a'')" "replica_inv demo_env (node_map a')"
    using exchange_contents [OF f(1) f(1) fresh_pools_ok(1,1,1,2) f(2) f(2) assms] f(2) by simp_all
qed

theorem sync_converges_witness:
  "\<exists>(a' :: (string \<times> nat) list node) b'.
     exchange demo_env demo_codec [[1]] fresh_pools fresh_pools fresh_pools (map int [0..<ShardCount]) (pair_node ''a'' 4) (pair_node ''b'' 5) = Some (None, a') \<and>
     exchange demo_env demo_codec [[1]] fresh_pools fresh_pools fresh_pools (map int [0..<ShardCount]) (pair_node ''b'' 5) a' = Some (None, b') \<and>
     held demo_env (node_map a') ''k'' = held demo_env (node_map b') ''k''"
proof -
  let ?a = "pair_node ''a'' 4" and ?b = "pair_node ''b'' 5" and ?w = "version demo_env ''k'' (demo_value ''b'' 5 ''x'')"
  note f = pair_node_facts and q = fresh_pools_ok
  have w: "Timestamp ?w = 5" by (simp add: demo_value_def)
  have one: "j = ''k'' \<and> x = ?w" if "contents demo_env (node_map ?b) j = Some x" for j x
    using that by (auto simp: f(3) split: if_splits)
  obtain a' where a': "exchange demo_env demo_codec [[1]] fresh_pools fresh_pools fresh_pools (map int [0..<ShardCount]) ?a ?b = Some (None, a')"
    using single_exchange [where a = ?a and b = ?b and C = demo_codec, OF f(1) q(1,1,1,2) f(2) f(2) _ w f(4,5)] one by blast
  note p = pair_first [OF a']
  obtain u where u: "contents demo_env (node_map a') ''k'' = Some u" "lww_key u = lww_key ?w"
    using fun_cong [OF p(2), of "''k''"] by (auto simp: held_def f(3))
  have t: "Timestamp u = 5" using u(2) sint_inj [of "Timestamp u" 5] by (simp add: lww_key_def version_def stamped_def demo_value_def)
  have s: "j = ''k'' \<and> x = u" if "contents demo_env (node_map a') j = Some x" for j x
    using fun_cong [OF p(2), of j] u(1) that by (auto simp: held_def f(3) split: if_splits)
  obtain b' where b': "exchange demo_env demo_codec [[1]] fresh_pools fresh_pools fresh_pools (map int [0..<ShardCount]) ?b a' = Some (None, b')"
    using single_exchange [where a = ?b and C = demo_codec, OF p(4) q(1,1,1,2) f(2) p(3) _ t f(4,5)] s by blast
  have "digests_tell demo_env (node_map ?b) (node_map a')" by (simp add: digests_tell_def p(2))
  from sync_converges [OF f(1) f(1) q(1,1,1,2) f(2) f(2) f(6) f(6) a' b' p(1) this, of "''k''"]
  show ?thesis using a' b' f(7) by (auto simp: pair_syncer_def)
qed

section \<open>Reads between nodes\<close>

text \<open>A remote read served by the nodes themselves, with calls nested up to a depth; \<open>base\<close> answers the calls below it. Every
  node can be dialled.\<close>

fun nested_get :: "'t env \<Rightarrow> u32 \<times> u32 \<Rightarrow> remote_get \<Rightarrow> (string \<rightharpoonup> 't node) \<Rightarrow> nat \<Rightarrow> remote_get" where
  "nested_get E r base nodes 0 addr key = base addr key"
| "nested_get E r base nodes (Suc d) addr key =
     (case nodes addr of
        None \<Rightarrow> None
      | Some n \<Rightarrow> Some (fst (server_Get E r (\<lambda>_. True) (nested_get E r base nodes d) key n)))"

definition other_owners :: "string \<Rightarrow> 't node \<Rightarrow> string set" where
  "other_owners key n = set (ms_GetOwners key (getReplicationFactor (node_gw n)) (nd_mesh n)) - {mc_NodeID (nd_config n)}"

lemma first_found_hit:
  assumes "\<And>x. x \<in> set os \<Longrightarrow> x \<noteq> mc_NodeID (gw_config g) \<Longrightarrow> proxyGetRemote g client rget x key = Some (v, True)"
    and "\<exists>x \<in> set os. x \<noteq> mc_NodeID (gw_config g)"
  shows "first_found g client rget key os = (v, True)"
  using assms by (induction os) auto

lemma nested_miss:
  assumes "replica_inv E (node_map n)" and "\<not> SingleNode (nd_config n)" and "contents E (node_map n) key = None"
    and "other_owners key n \<noteq> {}" and "\<And>x. x \<in> other_owners key n \<Longrightarrow> ms_AddressForNode x (nd_mesh n) \<noteq> '''' \<and>
      rget (ms_AddressForNode x (nd_mesh n)) key = Some (v, True)"
  shows "fst (server_Get E r (\<lambda>_. True) rget key n) = (v, True)"
proof -
  have l: "Load E key (HashFunc E key) (sw_hm (eng_sw (nd_core n))) = None"
    using assms(3) by (simp add: contents_def node_map_def Load_lookup [OF replicaD(1) [OF assms(1)], unfolded node_map_def])
  have g: "gw_mesh (node_gw n) = nd_mesh n" "gw_config (node_gw n) = nd_config n" by (simp_all add: node_gw_def NewGateway_def)
  have "gw_Get (node_gw n) (\<lambda>_. True) rget key = (v, True)"
    unfolding gw_Get_def
    by (rule first_found_hit) (use assms(4,5) in \<open>auto simp: proxyGetRemote_def g other_owners_def Let_def\<close>)
  then show ?thesis using assms(2) l by (simp add: server_Get_def node_Get_def Let_def)
qed



section \<open>Nodes as peers\<close>

text \<open>What the gateway of another node sees of a node.\<close>

definition peer_of :: "'t node \<Rightarrow> 't peer" where
  "peer_of n = \<lparr>peer_sw = eng_sw (nd_core n), peer_syncer = nd_syncer n \<noteq> None\<rparr>"

lemma node_peer:
  "map_option (map_prod id peer_of) (node_SyncPush E C tss sets deletes n) = SyncPush E C tss sets deletes (peer_of n)"
  by (auto simp: node_SyncPush_def SyncPush_def peer_of_def node_syncer_def option.map_comp comp_def split: option.split intro!: option.map_cong)

lemma NewNode_syncer:
  "NewNode create local lan eng cfg interval = Inr n \<Longrightarrow> peer_syncer (peer_of n) \<longleftrightarrow> \<not> SingleNode cfg"
  by (auto simp: NewNode_def NewSyncer_def peer_of_def split: if_splits option.splits)

end
