(* ===== verification/Database.thy ===== *)
theory Database
  imports Node Secure_Hash
begin

text \<open>
  The database as a program makes it: the builder (\<open>src/databasebuilder.go\<close>) and the two databases it builds, the engine of a
  single node behind an adapter, or a cluster node (\<open>src/database.go\<close>). What the operating system answers (ports, random bytes,
  files) is an argument.

  The lemmas show that every database the builder lets through is well formed, whatever calls led to it, and that the
  default database is never let through.
\<close>

section \<open>The builder\<close>

text \<open>Transport credentials are a library's; all the code asks is whether they are set and whether they are the insecure ones.\<close>

datatype creds = Insecure | Secure nat

record db_builder =
  eb_evt :: "lru option"
  eb_clock :: "clock option"
  eb_creds :: "creds option"
  eb_mesh :: mesh_config
  eb_walPath :: string
  eb_snpPath :: string
  eb_walInterval :: i64
  eb_snpInterval :: i64
  eb_walSegments :: int
  eb_gossipInterval :: i64
  eb_walBufferSize :: u32
  eb_disableWal :: bool
  eb_disableSnapshot :: bool

definition NewDatabaseBuilder :: db_builder where
  "NewDatabaseBuilder = \<lparr>eb_evt = None, eb_clock = None, eb_creds = None, eb_mesh = NewConfigBuilder, eb_walPath = '''',
     eb_snpPath = '''', eb_walInterval = 0, eb_snpInterval = 0, eb_walSegments = 0, eb_gossipInterval = 0,
     eb_walBufferSize = 0, eb_disableWal = False, eb_disableSnapshot = False\<rparr>"

text \<open>The port the system picks, if it picks one; otherwise the first of a thousand that can be listened on.\<close>

fun port_scan :: "(int \<Rightarrow> bool) \<Rightarrow> nat \<Rightarrow> int \<Rightarrow> int \<Rightarrow> int" where
  "port_scan free 0 port startPort = startPort"
| "port_scan free (Suc n) port startPort = (if free port then port else port_scan free n (port + 1) startPort)"

definition nextAvailablePort :: "int option \<Rightarrow> (int \<Rightarrow> bool) \<Rightarrow> int \<Rightarrow> int" where
  "nextAvailablePort picked free startPort =
     (case picked of Some port \<Rightarrow> port | None \<Rightarrow> port_scan free 1000 startPort startPort)"

definition hex_digit :: "nat \<Rightarrow> char" where
  "hex_digit n = ''0123456789abcdef'' ! n"

definition EncodeToString :: "bytes \<Rightarrow> string" where
  "EncodeToString bs = concat (map (\<lambda>c. [hex_digit (of_char c div 16), hex_digit (of_char c mod 16)]) bs)"

text \<open>What the system gives \<open>Default\<close>: random bytes and the outcomes of listening.\<close>

record default_io =
  di_random :: bytes
  di_picked :: "int \<Rightarrow> int option"
  di_free :: "int \<Rightarrow> bool"

definition default_mesh :: "default_io \<Rightarrow> mesh_config" where
  "default_mesh io =
     (let nodeID = EncodeToString (Sum256 (di_random io));
          bindAddr = ''127.0.0.1'';
          gossipPort = nextAvailablePort (di_picked io 7946) (di_free io) 7946;
          grpcPort = nextAvailablePort (di_picked io 50051) (di_free io) 50051
      in cb_SetReplicationFailureMode Strict (cb_SetReplicationFactor 3 (cb_SetGrpcPort grpcPort (cb_SetBindPort gossipPort
           (cb_SetBindAddr bindAddr (cb_SetNodeID nodeID NewConfigBuilder))))))"

definition Default :: "default_io \<Rightarrow> db_builder \<Rightarrow> evict_panic + db_builder" where
  "Default io eb =
     (case NewLRU \<lparr>cfg_Capacity = 10000, cfg_TTL = 24 * 3600000000000, cfg_ShardCount = 16\<rparr> of
        Inl p \<Rightarrow> Inl p
      | Inr l \<Rightarrow> Inr (eb\<lparr>eb_walInterval := 500000000, eb_snpInterval := 300000000000, eb_walBufferSize := 64 * 1024, eb_walSegments := 16,
                        eb_evt := Some l, eb_clock := Some NewClock, eb_gossipInterval := 10000000000, eb_mesh := default_mesh io,
                        eb_walPath := ''data/wal'', eb_snpPath := ''data/snapshot.bin''\<rparr>))"

definition DisableWal :: "bool \<Rightarrow> db_builder \<Rightarrow> db_builder" where
  "DisableWal disabled eb = eb\<lparr>eb_disableWal := disabled\<rparr>"

definition DisableSnapshot :: "bool \<Rightarrow> db_builder \<Rightarrow> db_builder" where
  "DisableSnapshot disabled eb = eb\<lparr>eb_disableSnapshot := disabled\<rparr>"

definition VolatileMode :: "db_builder \<Rightarrow> db_builder" where
  "VolatileMode eb = eb\<lparr>eb_disableWal := True, eb_disableSnapshot := True, eb_walPath := ''nop'', eb_snpPath := ''nop''\<rparr>"

definition SetWalPath :: "string \<Rightarrow> db_builder \<Rightarrow> db_builder" where
  "SetWalPath path eb = eb\<lparr>eb_walPath := path\<rparr>"

definition SetSnpPath :: "string \<Rightarrow> db_builder \<Rightarrow> db_builder" where
  "SetSnpPath path eb = eb\<lparr>eb_snpPath := path\<rparr>"

definition SetSnpInterval :: "i64 \<Rightarrow> db_builder \<Rightarrow> db_builder" where
  "SetSnpInterval interval eb = eb\<lparr>eb_snpInterval := interval\<rparr>"

definition SetWalInterval :: "i64 \<Rightarrow> db_builder \<Rightarrow> db_builder" where
  "SetWalInterval interval eb = eb\<lparr>eb_walInterval := interval\<rparr>"

definition SetWalBufferSize :: "u32 \<Rightarrow> db_builder \<Rightarrow> db_builder" where
  "SetWalBufferSize n eb = eb\<lparr>eb_walBufferSize := n\<rparr>"

definition SetWalSegments :: "int \<Rightarrow> db_builder \<Rightarrow> db_builder" where
  "SetWalSegments n eb = eb\<lparr>eb_walSegments := n\<rparr>"

definition SetEvictor :: "lru option \<Rightarrow> db_builder \<Rightarrow> db_builder" where
  "SetEvictor evt eb = eb\<lparr>eb_evt := evt\<rparr>"

definition SetClock :: "clock option \<Rightarrow> db_builder \<Rightarrow> db_builder" where
  "SetClock c eb = eb\<lparr>eb_clock := c\<rparr>"

definition SetCluster :: "mesh_config \<Rightarrow> db_builder \<Rightarrow> db_builder" where
  "SetCluster cb eb = eb\<lparr>eb_mesh := cb\<rparr>"

definition SetNodeID :: "string \<Rightarrow> db_builder \<Rightarrow> db_builder" where
  "SetNodeID nid eb = eb\<lparr>eb_mesh := cb_SetNodeID nid (eb_mesh eb)\<rparr>"

definition SetReplicationFactor :: "int \<Rightarrow> db_builder \<Rightarrow> db_builder" where
  "SetReplicationFactor n eb = eb\<lparr>eb_mesh := cb_SetReplicationFactor n (eb_mesh eb)\<rparr>"

definition SetReplicationFailureMode :: "string \<Rightarrow> db_builder \<Rightarrow> db_builder" where
  "SetReplicationFailureMode m eb = eb\<lparr>eb_mesh := cb_SetReplicationFailureMode m (eb_mesh eb)\<rparr>"

definition SetBindAddr :: "string \<Rightarrow> db_builder \<Rightarrow> db_builder" where
  "SetBindAddr addr eb = eb\<lparr>eb_mesh := cb_SetBindAddr addr (eb_mesh eb)\<rparr>"

definition SetBindPort :: "int \<Rightarrow> db_builder \<Rightarrow> db_builder" where
  "SetBindPort port eb = eb\<lparr>eb_mesh := cb_SetBindPort port (eb_mesh eb)\<rparr>"

definition SetAdvertiseAddr :: "string \<Rightarrow> db_builder \<Rightarrow> db_builder" where
  "SetAdvertiseAddr addr eb = eb\<lparr>eb_mesh := cb_SetAdvertiseAddr addr (eb_mesh eb)\<rparr>"

definition SetSeedNodes :: "string list \<Rightarrow> db_builder \<Rightarrow> db_builder" where
  "SetSeedNodes seeds eb = eb\<lparr>eb_mesh := cb_SetSeedNodes seeds (eb_mesh eb)\<rparr>"

definition SetGrpcPort :: "int \<Rightarrow> db_builder \<Rightarrow> db_builder" where
  "SetGrpcPort port eb = eb\<lparr>eb_mesh := cb_SetGrpcPort port (eb_mesh eb)\<rparr>"

definition SetSingleNode :: "db_builder \<Rightarrow> db_builder" where
  "SetSingleNode eb = eb\<lparr>eb_mesh := cb_SingleNode (eb_mesh eb)\<rparr>"

definition SetGossipInterval :: "i64 \<Rightarrow> db_builder \<Rightarrow> db_builder" where
  "SetGossipInterval interval eb = eb\<lparr>eb_gossipInterval := interval\<rparr>"

definition SetCreds :: "creds option \<Rightarrow> db_builder \<Rightarrow> db_builder" where
  "SetCreds c eb = eb\<lparr>eb_creds := c\<rparr>"

definition SetInsecure :: "db_builder \<Rightarrow> db_builder" where
  "SetInsecure eb = eb\<lparr>eb_creds := Some Insecure\<rparr>"

definition SetFastTest :: "db_builder \<Rightarrow> db_builder" where
  "SetFastTest eb = eb\<lparr>eb_mesh := cb_EnableFastTest (eb_mesh eb)\<rparr>"

section \<open>The databases\<close>

record database_config =
  dc_evt :: "lru option"
  dc_clock :: clock
  dc_creds :: "creds option"
  dc_walPath :: string
  dc_snpPath :: string
  dc_mesh :: mesh_config
  dc_walInterval :: i64
  dc_snpInterval :: i64
  dc_walSegments :: int
  dc_gossipInterval :: i64
  dc_walBufferSize :: u32
  dc_disableWal :: bool
  dc_disableSnapshot :: bool

text \<open>What opening the files, reading the snapshot and starting the membership library gave.\<close>

record db_io =
  dio_mkdir :: bool
  dio_opened :: "os_file option list"
  dio_recover :: recover_io
  dio_snapshot :: "snap_file option"
  dio_create :: "ml_config \<Rightarrow> bool"
  dio_local :: ml_config
  dio_lan :: ml_config

datatype 't db = SingleDb "'t engine" mesh_config "creds option" | ClusterDb "'t node" "creds option"

datatype build_error =
    NeedWalPath
  | NeedSnpPath
  | NeedWalInterval
  | NeedSnpInterval
  | NeedCreds
  | NeedWalBufferSize
  | NeedWalSegments
  | NeedClock
  | NeedBindAddr
  | NeedGossipInterval
  | NeedFailureMode
  | EngineFailed wal_error
  | NodeFailed node_error

definition newDatabase :: "'t env \<Rightarrow> codec \<Rightarrow> db_io \<Rightarrow> database_config \<Rightarrow> build_error + 't db" where
  "newDatabase E C io config =
     (let coreConfig = \<lparr>cfg_Evt = dc_evt config, cfg_Clock = dc_clock config, cfg_SnpPath = dc_snpPath config,
            cfg_WalBufferSize = dc_walBufferSize config, cfg_NodeID = mc_NodeID (dc_mesh config),
            cfg_DisableWal = dc_disableWal config, cfg_DisableSnapshot = dc_disableSnapshot config\<rparr> in
      case NewEngine E C coreConfig (dio_mkdir io) (dio_opened io) (dio_recover io) (dio_snapshot io) of
        Inl e \<Rightarrow> Inl (EngineFailed e)
      | Inr coreEng \<Rightarrow>
          if SingleNode (dc_mesh config) then Inr (SingleDb coreEng (dc_mesh config) (dc_creds config))
          else
            (case NewNode (dio_create io) (dio_local io) (dio_lan io) coreEng (dc_mesh config) (dc_gossipInterval config) of
               Inl e \<Rightarrow> Inl (NodeFailed e)
             | Inr n \<Rightarrow> Inr (ClusterDb n (dc_creds config))))"

definition Build :: "'t env \<Rightarrow> codec \<Rightarrow> db_io \<Rightarrow> db_builder \<Rightarrow> build_error + 't db" where
  "Build E C io eb =
     (if eb_walPath eb = '''' then Inl NeedWalPath
      else if eb_snpPath eb = '''' then Inl NeedSnpPath
      else if eb_walInterval eb = 0 then Inl NeedWalInterval
      else if eb_snpInterval eb = 0 then Inl NeedSnpInterval
      else if eb_creds eb = None then Inl NeedCreds
      else if eb_walBufferSize eb = 0 then Inl NeedWalBufferSize
      else if eb_walSegments eb = 0 then Inl NeedWalSegments
      else
        (case eb_clock eb of
           None \<Rightarrow> Inl NeedClock
         | Some c \<Rightarrow>
             (let meshConfig = cb_Build (eb_mesh eb) in
              if BindAddr meshConfig = '''' then Inl NeedBindAddr
              else if \<not> SingleNode meshConfig \<and> eb_gossipInterval eb = 0 then Inl NeedGossipInterval
              else if \<not> SingleNode meshConfig \<and> ReplicationFailureMode meshConfig = '''' then Inl NeedFailureMode
              else newDatabase E C io
                \<lparr>dc_evt = eb_evt eb, dc_clock = c, dc_creds = eb_creds eb, dc_walPath = eb_walPath eb, dc_snpPath = eb_snpPath eb,
                 dc_mesh = meshConfig, dc_walInterval = eb_walInterval eb, dc_snpInterval = eb_snpInterval eb,
                 dc_walSegments = eb_walSegments eb, dc_gossipInterval = eb_gossipInterval eb,
                 dc_walBufferSize = eb_walBufferSize eb, dc_disableWal = eb_disableWal eb,
                 dc_disableSnapshot = eb_disableSnapshot eb\<rparr>)))"

definition NewDefaultDatabase ::
  "'t env \<Rightarrow> codec \<Rightarrow> default_io \<Rightarrow> db_io \<Rightarrow> string \<Rightarrow> string \<Rightarrow> evict_panic + (build_error + 't db)" where
  "NewDefaultDatabase E C dio io walPath snpPath =
     map_sum id (\<lambda>eb. Build E C io (SetSnpPath snpPath (SetWalPath walPath eb))) (Default dio NewDatabaseBuilder)"

text \<open>The adapter hands reads and writes to the engine and answers the rest itself.\<close>

fun db_config :: "'t db \<Rightarrow> mesh_config" where
  "db_config (SingleDb eng cfg c) = cfg"
| "db_config (ClusterDb n c) = nd_config n"

fun db_core :: "'t db \<Rightarrow> 't engine" where
  "db_core (SingleDb eng cfg c) = eng"
| "db_core (ClusterDb n c) = nd_core n"

fun db_Creds :: "'t db \<Rightarrow> creds option" where
  "db_Creds (SingleDb eng cfg c) = c"
| "db_Creds (ClusterDb n c) = c"

fun db_Owner :: "string \<Rightarrow> 't db \<Rightarrow> string" where
  "db_Owner key (SingleDb eng cfg c) = mc_NodeID cfg"
| "db_Owner key (ClusterDb n c) = node_Owner key n"

fun db_NodeID :: "'t db \<Rightarrow> string" where
  "db_NodeID (SingleDb eng cfg c) = mc_NodeID cfg"
| "db_NodeID (ClusterDb n c) = node_NodeID n"

fun db_SyncPull :: "'t env \<Rightarrow> sync_pools \<Rightarrow> int list \<Rightarrow> pull_config \<Rightarrow> 't db \<Rightarrow> set_request list \<times> delete_request list" where
  "db_SyncPull E p order pc (SingleDb eng cfg c) = ([], [])"
| "db_SyncPull E p order pc (ClusterDb n c) = node_SyncPull E p order pc n"

fun db_SyncPush ::
  "'t env \<Rightarrow> codec \<Rightarrow> i64 list list \<Rightarrow> set_request list \<Rightarrow> delete_request list \<Rightarrow> 't db \<Rightarrow> (wal_error option \<times> 't db) option" where
  "db_SyncPush E C tss sets deletes (SingleDb eng cfg c) = Some (None, SingleDb eng cfg c)"
| "db_SyncPush E C tss sets deletes (ClusterDb n c) =
     map_option (\<lambda>(e, n'). (e, ClusterDb n' c)) (node_SyncPush E C tss sets deletes n)"

fun db_Addr :: "'t db \<Rightarrow> node_error + string" where
  "db_Addr (SingleDb eng cfg c) =
     (if BindAddr cfg = '''' then Inl PanicBindAddr else Inr (BindAddr cfg @ '':'' @ fmt_int (GrpcPort cfg)))"
| "db_Addr (ClusterDb n c) = node_Addr n"

fun db_GossipAddr :: "int \<Rightarrow> 't db \<Rightarrow> node_error + string" where
  "db_GossipAddr bound (SingleDb eng cfg c) =
     (if BindAddr cfg = '''' then Inl PanicBindAddr else Inr (BindAddr cfg @ '':'' @ fmt_int (BindPort cfg)))"
| "db_GossipAddr bound (ClusterDb n c) = node_GossipAddr bound n"

fun db_Mesh :: "'t db \<Rightarrow> mesher" where
  "db_Mesh (SingleDb eng cfg c) = NopMesh"
| "db_Mesh (ClusterDb n c) = nd_mesh n"

fun db_Start :: "(nat \<Rightarrow> bool) \<Rightarrow> 't db \<Rightarrow> node_error + 't db" where
  "db_Start join (SingleDb eng cfg c) = Inr (SingleDb (Start_engine eng) cfg c)"
| "db_Start join (ClusterDb n c) = map_sum id (\<lambda>n'. ClusterDb n' c) (Start_node join n)"

fun db_Stop :: "bool \<Rightarrow> 't db \<Rightarrow> node_error + 't db" where
  "db_Stop shutdown (SingleDb eng cfg c) = Inr (SingleDb (Stop_engine eng) cfg c)"
| "db_Stop shutdown (ClusterDb n c) = map_sum id (\<lambda>n'. ClusterDb n' c) (Stop_node shutdown n)"

fun database_Get :: "'t env \<Rightarrow> u32 \<times> u32 \<Rightarrow> (string \<Rightarrow> bool) \<Rightarrow> remote_get \<Rightarrow> string \<Rightarrow> 't db \<Rightarrow> (goslice \<times> bool) \<times> 't db" where
  "database_Get E r client rget key (SingleDb eng cfg c) =
     (let (v, eng') = Get E r key eng in ((case v of None \<Rightarrow> (None, False) | Some d \<Rightarrow> (d, True)), SingleDb eng' cfg c))"
| "database_Get E r client rget key (ClusterDb n c) = (let (v, n') = node_Get E r client rget key n in (v, ClusterDb n' c))"

section \<open>What the builder lets through\<close>

text \<open>The configurations and builders that calls of the two builders can make.\<close>

inductive cb_built :: "mesh_config \<Rightarrow> bool" where
  cb_new: "cb_built NewConfigBuilder"
| cb_single: "cb_built m \<Longrightarrow> cb_built (cb_SingleNode m)"
| cb_distributed: "cb_built m \<Longrightarrow> cb_built (cb_Distributed m)"
| cb_node: "cb_built m \<Longrightarrow> cb_built (cb_SetNodeID nid m)"
| cb_addr: "cb_built m \<Longrightarrow> cb_built (cb_SetBindAddr addr m)"
| cb_port: "cb_built m \<Longrightarrow> cb_built (cb_SetBindPort port m)"
| cb_advertise: "cb_built m \<Longrightarrow> cb_built (cb_SetAdvertiseAddr addr m)"
| cb_seeds: "cb_built m \<Longrightarrow> cb_built (cb_SetSeedNodes seeds m)"
| cb_grpc: "cb_built m \<Longrightarrow> cb_built (cb_SetGrpcPort port m)"
| cb_fast: "cb_built m \<Longrightarrow> cb_built (cb_EnableFastTest m)"
| cb_factor: "cb_built m \<Longrightarrow> cb_built (cb_SetReplicationFactor n m)"
| cb_mode: "cb_built m \<Longrightarrow> cb_built (cb_SetReplicationFailureMode f m)"

inductive built :: "db_builder \<Rightarrow> bool" where
  eb_new: "built NewDatabaseBuilder"
| eb_default: "built eb \<Longrightarrow> Default io eb = Inr eb' \<Longrightarrow> built eb'"
| eb_nowal: "built eb \<Longrightarrow> built (DisableWal b eb)"
| eb_nosnap: "built eb \<Longrightarrow> built (DisableSnapshot b eb)"
| eb_volatile: "built eb \<Longrightarrow> built (VolatileMode eb)"
| eb_set_walPath: "built eb \<Longrightarrow> built (SetWalPath path eb)"
| eb_set_snpPath: "built eb \<Longrightarrow> built (SetSnpPath path eb)"
| eb_set_snpInterval: "built eb \<Longrightarrow> built (SetSnpInterval i eb)"
| eb_set_walInterval: "built eb \<Longrightarrow> built (SetWalInterval i eb)"
| eb_set_walBufferSize: "built eb \<Longrightarrow> built (SetWalBufferSize n eb)"
| eb_set_walSegments: "built eb \<Longrightarrow> built (SetWalSegments k eb)"
| eb_set_evictor: "built eb \<Longrightarrow> built (SetEvictor evt eb)"
| eb_set_clock: "built eb \<Longrightarrow> built (SetClock c eb)"
| eb_set_cluster: "built eb \<Longrightarrow> cb_built m \<Longrightarrow> built (SetCluster m eb)"
| eb_set_node: "built eb \<Longrightarrow> built (SetNodeID nid eb)"
| eb_set_factor: "built eb \<Longrightarrow> built (SetReplicationFactor k eb)"
| eb_set_mode: "built eb \<Longrightarrow> built (SetReplicationFailureMode f eb)"
| eb_set_addr: "built eb \<Longrightarrow> built (SetBindAddr addr eb)"
| eb_set_port: "built eb \<Longrightarrow> built (SetBindPort port eb)"
| eb_set_advertise: "built eb \<Longrightarrow> built (SetAdvertiseAddr addr eb)"
| eb_set_seeds: "built eb \<Longrightarrow> built (SetSeedNodes seeds eb)"
| eb_set_grpc: "built eb \<Longrightarrow> built (SetGrpcPort port eb)"
| eb_set_single: "built eb \<Longrightarrow> built (SetSingleNode eb)"
| eb_set_gossip: "built eb \<Longrightarrow> built (SetGossipInterval i eb)"
| eb_set_creds: "built eb \<Longrightarrow> built (SetCreds cr eb)"
| eb_set_insecure: "built eb \<Longrightarrow> built (SetInsecure eb)"
| eb_set_fast: "built eb \<Longrightarrow> built (SetFastTest eb)"

lemmas cb_defs = cb_SingleNode_def cb_Distributed_def cb_SetNodeID_def cb_SetBindAddr_def cb_SetBindPort_def cb_SetAdvertiseAddr_def
  cb_SetSeedNodes_def cb_SetGrpcPort_def cb_EnableFastTest_def cb_SetReplicationFactor_def cb_SetReplicationFailureMode_def

lemmas eb_defs = DisableWal_def DisableSnapshot_def VolatileMode_def SetWalPath_def SetSnpPath_def SetSnpInterval_def
  SetWalInterval_def SetWalBufferSize_def SetWalSegments_def SetEvictor_def SetClock_def SetCluster_def SetNodeID_def
  SetReplicationFactor_def SetReplicationFailureMode_def SetBindAddr_def SetBindPort_def SetAdvertiseAddr_def
  SetSeedNodes_def SetGrpcPort_def SetSingleNode_def SetGossipInterval_def SetCreds_def SetInsecure_def SetFastTest_def

lemma cb_factor_positive: "cb_built m \<Longrightarrow> 1 \<le> ReplicationFactor m"
  by (induction rule: cb_built.induct) (auto simp: cb_defs NewConfigBuilder_def)

lemma default_mesh_built: "cb_built (default_mesh io)" "\<not> SingleNode (default_mesh io)" "BindAddr (default_mesh io) = ''127.0.0.1''"
  unfolding default_mesh_def Let_def by (intro cb_built.intros) (simp_all add: cb_defs NewConfigBuilder_def)

lemma Default_eq:
  "\<exists>l. Default io eb = Inr (eb\<lparr>eb_walInterval := 500000000, eb_snpInterval := 300000000000, eb_walBufferSize := 64 * 1024,
     eb_walSegments := 16, eb_evt := Some l, eb_clock := Some NewClock, eb_gossipInterval := 10000000000, eb_mesh := default_mesh io,
     eb_walPath := ''data/wal'', eb_snpPath := ''data/snapshot.bin''\<rparr>)"
proof -
  obtain l where "NewLRU \<lparr>cfg_Capacity = 10000, cfg_TTL = 24 * 3600000000000, cfg_ShardCount = 16\<rparr> = Inr l" by (simp add: NewLRU_def)
  then show ?thesis unfolding Default_def by (intro exI [of _ l]) simp
qed

lemma built_mesh: "built eb \<Longrightarrow> cb_built (eb_mesh eb)"
proof (induction rule: built.induct)
  case (eb_default eb io eb')
  then show ?case using Default_eq [of io eb] default_mesh_built(1) by auto
qed (auto simp: eb_defs NewDatabaseBuilder_def intro: cb_built.intros)

text \<open>A well-formed database: credentials, addresses that do not panic, a replication factor, a consistent map; and for a
  cluster node a mesh, a syncer of the same identity, a failure mode and an announced weight.\<close>

definition node_wf :: "'t node \<Rightarrow> bool" where
  "node_wf n \<longleftrightarrow> \<not> SingleNode (nd_config n) \<and> ReplicationFailureMode (nd_config n) \<noteq> '''' \<and> weight_inv n \<and> nd_interval n \<noteq> 0 \<and>
     (\<exists>m s. nd_mesh n = RealMesh m \<and> ring_inv (m_ring m) \<and> m_config m = nd_config n \<and> nd_syncer n = Some s \<and>
        sy_node s = mc_NodeID (nd_config n) \<and> sy_interval s = nd_interval n)"

definition db_wf :: "'t env \<Rightarrow> 't db \<Rightarrow> bool" where
  "db_wf E d \<longleftrightarrow> db_Creds d \<noteq> None \<and> (\<exists>a. db_Addr d = Inr a) \<and> (\<forall>bound. \<exists>a. db_GossipAddr bound d = Inr a) \<and>
     1 \<le> ReplicationFactor (db_config d) \<and> replica_inv E (sw_hm (eng_sw (db_core d))) \<and>
     (case d of SingleDb eng cfg c \<Rightarrow> SingleNode cfg | ClusterDb n c \<Rightarrow> node_wf n)"

lemma NewNode_wf:
  assumes "NewNode create local lan eng cfg interval = Inr n" and "\<not> SingleNode cfg" and "ReplicationFailureMode cfg \<noteq> ''''" and "interval \<noteq> 0"
  shows "node_wf n \<and> nd_config n = cfg \<and> nd_core n = eng \<and> nd_interval n = interval \<and> \<not> nd_started n"
  using assms NewNode_weight [OF assms(1)] NewHashRing_inv
  by (auto simp: NewNode_def NewSyncer_def NewMesh_def node_wf_def split: if_splits)

lemma Build_wf:
  assumes "radix_laws E" and "built eb" and b: "Build E C io eb = Inr d"
  shows "db_wf E d" "\<And>n c. d = ClusterDb n c \<Longrightarrow> nd_interval n = eb_gossipInterval eb \<and> \<not> nd_started n"
proof -
  have rf: "1 \<le> ReplicationFactor (eb_mesh eb)" by (rule cb_factor_positive [OF built_mesh [OF assms(2)]])
  from b obtain c eng where c: "eb_creds eb \<noteq> None" "BindAddr (eb_mesh eb) \<noteq> ''''"
      "\<not> SingleNode (eb_mesh eb) \<Longrightarrow> eb_gossipInterval eb \<noteq> 0 \<and> ReplicationFailureMode (eb_mesh eb) \<noteq> ''''"
    and e: "NewEngine E C \<lparr>cfg_Evt = eb_evt eb, cfg_Clock = c, cfg_SnpPath = eb_snpPath eb, cfg_WalBufferSize = eb_walBufferSize eb,
        cfg_NodeID = mc_NodeID (eb_mesh eb), cfg_DisableWal = eb_disableWal eb, cfg_DisableSnapshot = eb_disableSnapshot eb\<rparr>
        (dio_mkdir io) (dio_opened io) (dio_recover io) (dio_snapshot io) = Inr eng"
    and d: "if SingleNode (eb_mesh eb) then d = SingleDb eng (eb_mesh eb) (eb_creds eb)
       else \<exists>n. NewNode (dio_create io) (dio_local io) (dio_lan io) eng (eb_mesh eb) (eb_gossipInterval eb) = Inr n \<and> d = ClusterDb n (eb_creds eb)"
    by (auto simp: Build_def newDatabase_def cb_Build_def Let_def split: if_splits option.splits sum.splits)
  have inv: "replica_inv E (sw_hm (eng_sw eng))" by (rule NewEngine_inv [OF assms(1) e])
  have "db_wf E d \<and> (\<forall>n c. d = ClusterDb n c \<longrightarrow> nd_interval n = eb_gossipInterval eb \<and> \<not> nd_started n)"
  proof (cases "SingleNode (eb_mesh eb)")
    case True
    then show ?thesis using c d rf inv by (simp add: db_wf_def)
  next
    case False
    then obtain n where n: "NewNode (dio_create io) (dio_local io) (dio_lan io) eng (eb_mesh eb) (eb_gossipInterval eb) = Inr n"
      "d = ClusterDb n (eb_creds eb)" using d by auto
    then show ?thesis using NewNode_wf [OF n(1) False] c False rf inv
      by (auto simp: db_wf_def node_Addr_def node_GossipAddr_def Let_def)
  qed
  then show "db_wf E d" "\<And>n c. d = ClusterDb n c \<Longrightarrow> nd_interval n = eb_gossipInterval eb \<and> \<not> nd_started n" by simp_all
qed

text \<open>A database has the configuration and the credentials of its builder.\<close>

lemma Build_config:
  assumes "Build E C io eb = Inr d"
  shows "db_config d = eb_mesh eb \<and> db_Creds d = eb_creds eb \<and> (SingleNode (eb_mesh eb) \<longleftrightarrow> (\<exists>eng cfg c. d = SingleDb eng cfg c))"
  using assms by (auto simp: Build_def newDatabase_def NewNode_def cb_Build_def Let_def split: if_splits option.splits sum.splits)

lemma Start_outcome:
  assumes "node_wf n" and "\<not> nd_started n"
  shows "Start_node join n = Inl PanicMeshStart \<or>
    (if sint (nd_interval n) \<le> 0 then Start_node join n = Inl (NodePanic PanicInterval) else (\<exists>n'. Start_node join n = Inr n'))"
  using assms by (auto simp: node_wf_def Start_node_def Start_syncer_def Let_def)


definition demo_db_io :: db_io where
  "demo_db_io = \<lparr>dio_mkdir = True, dio_opened = [], dio_recover = \<lparr>io_stat = False, io_open = False, io_draw = (\<lambda>_. 0), io_order = []\<rparr>,
     dio_snapshot = None, dio_create = (\<lambda>_. True), dio_local = demo_ml, dio_lan = demo_ml\<rparr>"

definition demo_builder :: db_builder where
  "demo_builder = SetInsecure (SetGossipInterval 1 (SetBindAddr ''127.0.0.1'' (SetClock (Some NewClock) (SetWalSegments 1
     (SetWalBufferSize 16 (SetSnpInterval 1 (SetWalInterval 1 (VolatileMode NewDatabaseBuilder))))))))"


text \<open>The default database cannot be made: \<open>Default\<close> sets no transport credentials, and \<open>Build\<close> requires them. Whatever the
  system answers, \<open>NewDefaultDatabase\<close> with two paths fails for want of credentials.\<close>

theorem default_database_fails:
  "NewDefaultDatabase E C dio io walPath snpPath =
     Inr (Inl (if walPath = '''' then NeedWalPath else if snpPath = '''' then NeedSnpPath else NeedCreds))"
proof -
  obtain l where "Default dio NewDatabaseBuilder = Inr (NewDatabaseBuilder\<lparr>eb_walInterval := 500000000, eb_snpInterval := 300000000000,
     eb_walBufferSize := 64 * 1024, eb_walSegments := 16, eb_evt := Some l, eb_clock := Some NewClock,
     eb_gossipInterval := 10000000000, eb_mesh := default_mesh dio, eb_walPath := ''data/wal'', eb_snpPath := ''data/snapshot.bin''\<rparr>)"
    using Default_eq [of dio NewDatabaseBuilder] by blast
  then show ?thesis by (simp add: NewDefaultDatabase_def Build_def SetWalPath_def SetSnpPath_def NewDatabaseBuilder_def)
qed

end
