(* ===== verification/Gossip.thy ===== *)
theory Gossip
  imports Node
begin

text \<open>
  Messages over gossip: the membership library hands the mesh what other nodes broadcast (\<open>NotifyMsg\<close> of
  \<open>src/cluster/mesh/mesh.go\<close>), the mesh hands it to the gossip handler (\<open>src/cluster/gossip/gossip.go\<close>), and that to the
  node's writer. In a node without a cluster nothing is broadcast. The library may deliver a message late, twice, or in
  another order to each node.

  The lemmas show that nodes that were delivered the same messages agree.
\<close>

fun ms_Broadcast :: "bytes \<Rightarrow> mesher \<Rightarrow> mesher" where
  "ms_Broadcast msg NopMesh = NopMesh"
| "ms_Broadcast msg (RealMesh m) = RealMesh (Broadcast msg m)"

definition NotifyMsg :: "'t env \<Rightarrow> codec \<Rightarrow> i64 list \<Rightarrow> bytes \<Rightarrow> 't node \<Rightarrow> 't node option" where
  "NotifyMsg E C ts b n =
     map_option (\<lambda>sw. n\<lparr>nd_core := (nd_core n)\<lparr>eng_sw := sw\<rparr>\<rparr>) (OnGossip E C ts b (eng_sw (nd_core n)))"

text \<open>Full state exchange between members is switched off.\<close>

definition LocalState :: "bool \<Rightarrow> goslice" where
  "LocalState join = None"

definition MergeRemoteState :: "bytes \<Rightarrow> bool \<Rightarrow> 't node \<Rightarrow> 't node" where
  "MergeRemoteState b join n = n"

text \<open>A sequence of deliveries, each with the readings of the wall clock that merging its timestamp takes.\<close>

fun deliver :: "'t env \<Rightarrow> codec \<Rightarrow> (i64 list \<times> bytes) list \<Rightarrow> 't node \<Rightarrow> 't node option" where
  "deliver E C [] n = Some n"
| "deliver E C ((ts, b) # ms) n = (case NotifyMsg E C ts b n of None \<Rightarrow> None | Some n' \<Rightarrow> deliver E C ms n')"

section \<open>Agreement\<close>

text \<open>The request that a message carries, if it decodes to one.\<close>

definition carried :: "codec \<Rightarrow> bytes \<Rightarrow> wal_msg option" where
  "carried C b =
     (case unmarshal C b of
        Some (EntrySet (Some r)) \<Rightarrow> Some (MsgSet r)
      | Some (EntryDelete (Some r)) \<Rightarrow> Some (MsgDelete r)
      | _ \<Rightarrow> None)"

text \<open>The versions of a key that messages carry.\<close>

definition carried_versions :: "'t env \<Rightarrow> codec \<Rightarrow> bytes list \<Rightarrow> string \<Rightarrow> kv_value list" where
  "carried_versions E C bs k =
     map (\<lambda>m. version E k (req_value m)) (filter (\<lambda>m. msg_key m = k) (List.map_filter (carried C) bs))"

lemma OnGossip_carried:
  assumes "OnGossip E C ts b sw = Some sw'"
  shows "case carried C b of None \<Rightarrow> sw' = sw | Some m \<Rightarrow> is_req m \<and> (\<exists>e. Apply E C ts m sw = Some (e, sw'))"
  using assms by (auto simp: OnGossip_def carried_def split: option.splits wal_entry.splits)

lemma NotifyMsg_merge:
  assumes "NotifyMsg E C ts b n = Some n'" and "replica_inv E (node_map n)"
  shows "replica_inv E (node_map n') \<and> contents E (node_map n') k = foldl lww.merge (contents E (node_map n) k) (carried_versions E C [b] k)"
proof -
  obtain sw' where g: "OnGossip E C ts b (eng_sw (nd_core n)) = Some sw'" "node_map n' = sw_hm sw'"
    using assms(1) by (auto simp: NotifyMsg_def node_map_def)
  show ?thesis
  proof (cases "carried C b")
    case None
    then show ?thesis using OnGossip_carried [OF g(1)] g(2) assms(2) by (simp add: carried_versions_def map_filter_simps node_map_def)
  next
    case (Some m)
    then obtain e where "is_req m" "Apply E C ts m (eng_sw (nd_core n)) = Some (e, sw')" using OnGossip_carried [OF g(1)] by auto
    from Apply_merge [OF assms(2) [unfolded node_map_def] this] show ?thesis using Some g(2) by (simp add: carried_versions_def map_filter_simps node_map_def)
  qed
qed

lemma deliver_merge:
  "deliver E C ms n = Some n' \<Longrightarrow> replica_inv E (node_map n) \<Longrightarrow>
   replica_inv E (node_map n') \<and> contents E (node_map n') k = foldl lww.merge (contents E (node_map n) k) (carried_versions E C (map snd ms) k)"
proof (induction ms arbitrary: n)
  case (Cons m ms)
  obtain ts b where m: "m = (ts, b)" by (rule prod.exhaust)
  obtain n1 where s: "NotifyMsg E C ts b n = Some n1" "deliver E C ms n1 = Some n'" using Cons.prems(1) by (auto simp: m split: option.splits)
  note a = NotifyMsg_merge [OF s(1) Cons.prems(2)]
  have "carried_versions E C (map snd (m # ms)) k = carried_versions E C [b] k @ carried_versions E C (map snd ms) k"
    by (simp add: carried_versions_def m map_filter_simps split: option.split)
  then show ?case using Cons.IH [OF s(2)] a [of k] by simp
qed (simp add: carried_versions_def map_filter_simps)

lemma carried_set:
  assumes "set bs = set bs'"
  shows "set (carried_versions E C bs k) = set (carried_versions E C bs' k)"
  using assms by (auto simp: carried_versions_def List.map_filter_def)

text \<open>C18. Gossip converges. Two nodes that held the same and were delivered the same messages, each in its own order, at its own times
  and with its own repetitions, hold the same, key by key; messages that do not decode are ignored. It is assumed that no two
  different versions of a key, held or carried, tie in timestamp, node and item hash, and that the handlers return.\<close>

theorem gossip_converges:
  assumes "replica_inv E (node_map n)" and "replica_inv E (node_map m)" and "contents E (node_map n) = contents E (node_map m)"
    and "deliver E C ms n = Some n'" and "deliver E C ms' m = Some m'" and "set (map snd ms) = set (map snd ms')"
    and "\<And>k. inj_on lww_key (set_option (contents E (node_map n) k) \<union> set (carried_versions E C (map snd ms) k))"
  shows "contents E (node_map n') = contents E (node_map m')"
proof
  fix k
  let ?v = "\<lambda>xs. (case contents E (node_map n) k of None \<Rightarrow> [] | Some x \<Rightarrow> [x]) @ carried_versions E C (map snd xs) k"
  have f: "foldl lww.merge (contents E (node_map n) k) (carried_versions E C (map snd xs) k) = foldl lww.merge None (?v xs)" for xs :: "(i64 list \<times> bytes) list"
    by (simp add: lww.merge_def split: option.split)
  have "set (?v ms) = set (?v ms')" using carried_set [OF assms(6), of E C k] by simp
  moreover have "lww.decided (set (?v ms))" unfolding decided_iff using assms(7) [of k]
    by (cases "contents E (node_map n) k") simp_all
  ultimately have "foldl lww.merge None (?v ms) = foldl lww.merge None (?v ms')" by (rule lww.merge_converges)
  then show "contents E (node_map n') k = contents E (node_map m') k"
    using deliver_merge [OF assms(4,1), of k] deliver_merge [OF assms(5,2), of k] assms(3) f by simp
qed

definition demo_gossip :: set_request where
  "demo_gossip = \<lparr>set_key = ''k'', set_value = Some ''y'', set_timestamp = 5, set_node = ''b''\<rparr>"

definition demo_gossip_msg :: bytes where
  "demo_gossip_msg = CHR ''S'' # demo_str ''k'' @ demo_str ''y'' @ demo_str ''b'' @ demo_ts 5"

lemma demo_gossip_decodes:
  "unmarshal demo_codec demo_gossip_msg = Some (EntrySet (Some demo_gossip))" "unmarshal demo_codec ''Sx'' = None"
  by code_simp+

lemma junk_ignored: "NotifyMsg demo_env demo_codec [] ''Sx'' n = Some n"
  by (simp add: NotifyMsg_def OnGossip_def demo_gossip_decodes)

theorem gossip_converges_witness:
  "\<exists>n' m'. deliver demo_env demo_codec [([1], demo_gossip_msg), ([], ''Sx'')] (pair_node ''a'' 4) = Some n' \<and>
     deliver demo_env demo_codec [([], ''Sx''), ([1], demo_gossip_msg)] (pair_node ''a'' 4) = Some m' \<and>
     contents demo_env (node_map n') = contents demo_env (node_map m')"
proof -
  let ?n = "pair_node ''a'' 4" and ?a = "[([1], demo_gossip_msg), ([], ''Sx'')]" and ?b = "[([], ''Sx''), ([1], demo_gossip_msg)]"
  note f = pair_node_facts(1,3,5) [where n = "''a''" and ts = 4]
  obtain c where "Update 5 [1] NewClock = Some c" using demo_update by blast
  then obtain e sw where "Apply demo_env demo_codec [1] (MsgSet demo_gossip) (eng_sw (nd_core ?n)) = Some (e, sw)"
    using Apply_total [of "MsgSet demo_gossip" "[1]" "eng_sw (nd_core ?n)" c demo_env demo_codec] f(3) by (auto simp: demo_gossip_def)
  then obtain n1 where n1: "NotifyMsg demo_env demo_codec [1] demo_gossip_msg ?n = Some n1"
    by (simp add: NotifyMsg_def OnGossip_def demo_gossip_decodes)
  have d: "deliver demo_env demo_codec ?a ?n = Some n1" "deliver demo_env demo_codec ?b ?n = Some n1" by (simp_all add: n1 junk_ignored)
  have i: "inj_on lww_key (set_option (contents demo_env (node_map ?n) k) \<union> set (carried_versions demo_env demo_codec (map snd ?a) k))" for k
    unfolding f(2) by (auto simp: carried_versions_def carried_def map_filter_simps demo_gossip_decodes demo_gossip_def version_def stamped_def
        demo_value_def lww_key_def inj_on_def set_to_value_def split: if_splits)
  show ?thesis using gossip_converges [OF f(1) f(1) refl d _ i] d by auto
qed

end
