(* ===== verification/Go_Std.thy ===== *)
theory Go_Std
  imports KV "HOL-Library.Log_Nat" Complex_Main
begin

text \<open>
  What the commands and the cluster helper use of Go's standard library: \<open>strings.HasSuffix\<close>, \<open>strings.Split\<close>, \<open>filepath.Join\<close> with
  \<open>Clean\<close> (on Unix), and \<open>time.ParseDuration\<close>, whose fractions are computed in double precision.

  The lemmas show that paths under one directory differ when their names do, and what the plain forms of a duration parse to.
\<close>

section \<open>Strings\<close>

definition HasSuffix :: "string \<Rightarrow> string \<Rightarrow> bool" where
  "HasSuffix s suf \<longleftrightarrow> length s \<ge> length suf \<and> drop (length s - length suf) s = suf"

fun Split :: "char \<Rightarrow> string \<Rightarrow> string list" where
  "Split sep [] = [[]]"
| "Split sep (c # cs) =
     (if c = sep then [] # Split sep cs else (case Split sep cs of [] \<Rightarrow> [[c]] | p # ps \<Rightarrow> (c # p) # ps))"

fun Join_with :: "char \<Rightarrow> string list \<Rightarrow> string" where
  "Join_with sep [] = []"
| "Join_with sep [p] = p"
| "Join_with sep (p # ps) = p @ sep # Join_with sep ps"

lemma Split_not_Nil [simp]: "Split sep s \<noteq> []"
  by (cases s) (auto split: list.split)

lemma Split_append: "Split sep (a @ sep # b) = Split sep a @ Split sep b"
  by (induction a) (auto simp: Cons_eq_append_conv split: list.splits)

lemma Split_single: "sep \<notin> set a \<Longrightarrow> Split sep a = [a]"
  by (induction a) auto

lemma Join_Split: "Join_with sep (Split sep s) = s"
  by (induction s) (auto split: list.splits, (metis Join_with.simps(2,3) append_Cons list.exhaust)+)

lemma Split_Join:
  assumes "ps \<noteq> []" and "list_all (\<lambda>p. sep \<notin> set p) ps"
  shows "Split sep (Join_with sep ps) = ps"
  using assms by (induction ps rule: Join_with.induct) (auto simp: Split_append Split_single)

section \<open>Paths\<close>

fun clean_part :: "bool \<Rightarrow> string list \<Rightarrow> string \<Rightarrow> string list" where
  "clean_part rooted acc part =
     (if part = '''' \<or> part = ''.'' then acc
      else if part = ''..''
      then (case acc of
              [] \<Rightarrow> if rooted then [] else [part]
            | x # xs \<Rightarrow> if x = ''..'' then part # acc else xs)
      else part # acc)"

definition Clean :: "string \<Rightarrow> string" where
  "Clean path =
     (if path = '''' then ''.''
      else
        (let rooted = (hd path = CHR ''/'');
             out = Join_with (CHR ''/'') (rev (foldl (clean_part rooted) [] (Split (CHR ''/'') path)))
         in if rooted then CHR ''/'' # out else if out = '''' then ''.'' else out))"

definition Join :: "string list \<Rightarrow> string" where
  "Join elems = (case dropWhile (\<lambda>e. e = '''') elems of [] \<Rightarrow> '''' | es \<Rightarrow> Clean (Join_with (CHR ''/'') es))"

definition plain_part :: "string \<Rightarrow> bool" where
  "plain_part p \<longleftrightarrow> CHR ''/'' \<notin> set p \<and> p \<noteq> '''' \<and> p \<noteq> ''.'' \<and> p \<noteq> ''..''"

lemma Join_with_snoc: "Join_with sep (ps @ [q]) = (if ps = [] then q else Join_with sep ps @ sep # q)"
  by (induction ps rule: Join_with.induct) auto

text \<open>The path of two plain names below a directory: a prefix that only the directory decides, and the names.\<close>

lemma Join_below:
  assumes "dir \<noteq> ''''"
  obtains pre where "\<And>p q. plain_part p \<Longrightarrow> plain_part q \<Longrightarrow> Join [dir, p, q] = pre @ p @ CHR ''/'' # q"
proof -
  define r where "r = (hd dir = CHR ''/'')"
  define d where "d = rev (foldl (clean_part r) [] (Split (CHR ''/'') dir))"
  define pre where "pre = (if r then ''/'' else '''') @ (if d = [] then '''' else Join_with (CHR ''/'') d @ ''/'')"
  have "Join [dir, p, q] = pre @ p @ CHR ''/'' # q" if "plain_part p" "plain_part q" for p q
  proof -
    let ?path = "dir @ CHR ''/'' # p @ CHR ''/'' # q"
    have "Split (CHR ''/'') ?path = Split (CHR ''/'') dir @ [p, q]"
      using that by (simp add: Split_append Split_single plain_part_def)
    then have "rev (foldl (clean_part r) [] (Split (CHR ''/'') ?path)) = (d @ [p]) @ [q]"
      using that by (simp add: plain_part_def d_def)
    then have "Join_with (CHR ''/'') (rev (foldl (clean_part r) [] (Split (CHR ''/'') ?path))) =
        (if d = [] then '''' else Join_with (CHR ''/'') d @ ''/'') @ p @ CHR ''/'' # q"
      using Join_with_snoc [of "CHR ''/''" "d @ [p]" q] Join_with_snoc [of "CHR ''/''" d p] by simp
    moreover have "Join [dir, p, q] = Clean ?path" "(hd ?path = CHR ''/'') = r" "?path \<noteq> ''''" using assms by (simp_all add: Join_def r_def)
    ultimately show ?thesis unfolding Clean_def Let_def pre_def by (cases r) simp_all
  qed
  then show thesis by (rule that)
qed

section \<open>Durations\<close>

text \<open>Double precision on positive rationals: the nearest number with 53 significant bits, a tie going to the even one. Overflow and underflow are not
  modelled; they only occur where the truncated product below is 0 either way.\<close>

definition f64_round :: "rat \<Rightarrow> rat" where
  "f64_round x =
     (if x \<le> 0 then 0
      else
        (let (p, q) = quotient_of x;
             e0 = int (floorlog 2 (nat p)) - int (floorlog 2 (nat q)) - 52;
             e = (if x < 2 ^ 52 * 2 powi e0 then e0 - 1 else e0);
             y = x / 2 powi e;
             n = \<lfloor>y\<rfloor>;
             r = (if y - of_int n < 1 / 2 then n else if y - of_int n > 1 / 2 then n + 1 else if even n then n else n + 1)
         in of_int r * 2 powi e))"

definition is_dig :: "char \<Rightarrow> bool" where
  "is_dig c \<longleftrightarrow> 48 \<le> (of_char c :: nat) \<and> (of_char c :: nat) \<le> 57"

definition dig_val :: "char \<Rightarrow> nat" where
  "dig_val c = of_char c - 48"

fun leadingInt :: "nat \<Rightarrow> string \<Rightarrow> (nat \<times> string) option" where
  "leadingInt x [] = Some (x, [])"
| "leadingInt x (c # cs) =
     (if \<not> is_dig c then Some (x, c # cs)
      else if x > 2 ^ 63 div 10 then None
      else if x * 10 + dig_val c > 2 ^ 63 then None
      else leadingInt (x * 10 + dig_val c) cs)"

fun leadingFraction :: "bool \<Rightarrow> nat \<Rightarrow> rat \<Rightarrow> string \<Rightarrow> nat \<times> rat \<times> string" where
  "leadingFraction overflow x scale [] = (x, scale, [])"
| "leadingFraction overflow x scale (c # cs) =
     (if \<not> is_dig c then (x, scale, c # cs)
      else if overflow \<or> x > (2 ^ 63 - 1) div 10 \<or> x * 10 + dig_val c > 2 ^ 63 then leadingFraction True x scale cs
      else leadingFraction False (x * 10 + dig_val c) (f64_round (scale * 10)) cs)"

definition unitMap :: "string \<rightharpoonup> nat" where
  "unitMap = map_of [(''ns'', 1), (''us'', 1000), ([CHR 0xC2, CHR 0xB5, CHR ''s''], 1000), ([CHR 0xCE, CHR 0xBC, CHR ''s''], 1000),
     (''ms'', 1000000), (''s'', 1000000000), (''m'', 60000000000), (''h'', 3600000000000)]"

definition num_char :: "char \<Rightarrow> bool" where
  "num_char c \<longleftrightarrow> c = CHR ''.'' \<or> is_dig c"

text \<open>One number with its unit, and what follows.\<close>

definition dur_item :: "string \<Rightarrow> (nat \<times> string) option" where
  "dur_item s =
     (if s = [] \<or> \<not> num_char (hd s) then None
      else
        (case leadingInt 0 s of
           None \<Rightarrow> None
         | Some (v, s1) \<Rightarrow>
             (let pre = (length s \<noteq> length s1);
                  (f, scale, s2) = (if s1 \<noteq> [] \<and> hd s1 = CHR ''.'' then leadingFraction False 0 1 (tl s1) else (0, 1, s1));
                  post = (s1 \<noteq> [] \<and> hd s1 = CHR ''.'' \<and> length (tl s1) \<noteq> length s2);
                  u = takeWhile (\<lambda>c. \<not> num_char c) s2;
                  s3 = dropWhile (\<lambda>c. \<not> num_char c) s2 in
              if \<not> pre \<and> \<not> post then None
              else if u = [] then None
              else
                (case unitMap u of
                   None \<Rightarrow> None
                 | Some unit \<Rightarrow>
                     if v > 2 ^ 63 div unit then None
                     else if f > 0
                     then (let w = v * unit + nat \<lfloor>f64_round (f64_round (of_nat f) * f64_round (of_nat unit / scale))\<rfloor>
                           in if w > 2 ^ 63 then None else Some (w, s3))
                     else Some (v * unit, s3)))))"

lemma leadingInt_length: "leadingInt x s = Some (v, t) \<Longrightarrow> length t \<le> length s"
  by (induction x s rule: leadingInt.induct) (auto split: if_splits)

lemma leadingFraction_length: "leadingFraction ov x sc s = (f, sc', t) \<Longrightarrow> length t \<le> length s"
  by (induction ov x sc s rule: leadingFraction.induct) (auto split: if_splits)

lemma dur_item_length:
  assumes "dur_item s = Some (w, t)"
  shows "length t < length s"
proof -
  from assms obtain v s1 where i: "leadingInt 0 s = Some (v, s1)" by (auto simp: dur_item_def split: if_splits option.splits)
  obtain f sc s2 where f: "(if s1 \<noteq> [] \<and> hd s1 = CHR ''.'' then leadingFraction False 0 1 (tl s1) else (0, 1, s1)) = (f, sc, s2)"
    by (metis prod.exhaust)
  have u: "takeWhile (\<lambda>c. \<not> num_char c) s2 \<noteq> []" "t = dropWhile (\<lambda>c. \<not> num_char c) s2"
    using assms i f by (auto simp: dur_item_def Let_def split: if_splits option.splits)
  have "length s2 \<le> length s1" using f leadingFraction_length [of False 0 1 "tl s1" f sc s2] by (auto split: if_splits)
  moreover have "length t < length s2"
    using u takeWhile_dropWhile_id [of "\<lambda>c. \<not> num_char c" s2] by (metis length_append length_greater_0_conv less_add_same_cancel2)
  ultimately show ?thesis using leadingInt_length [OF i] by simp
qed

function dur_loop :: "nat \<Rightarrow> string \<Rightarrow> nat option" where
  "dur_loop d s =
     (if s = [] then Some d
      else
        (case dur_item s of
           None \<Rightarrow> None
         | Some (v, rest) \<Rightarrow> (let d = (d + v) mod 2 ^ 64 in if d > 2 ^ 63 then None else dur_loop d rest)))"
  by pat_completeness auto
termination
  by (relation "measure (length \<circ> snd)") (auto dest: dur_item_length)

declare dur_loop.simps [simp del]

definition ParseDuration :: "string \<Rightarrow> i64 option" where
  "ParseDuration orig =
     (let neg = (orig \<noteq> [] \<and> hd orig = CHR ''-'');
          s = (if orig \<noteq> [] \<and> (hd orig = CHR ''-'' \<or> hd orig = CHR ''+'') then tl orig else orig) in
      if s = ''0'' then Some 0
      else if s = [] then None
      else
        (case dur_loop 0 s of
           None \<Rightarrow> None
         | Some d \<Rightarrow> if neg then Some (- of_nat d) else if d > 2 ^ 63 - 1 then None else Some (of_nat d)))"

lemma digit_dig: "d < 10 \<Longrightarrow> is_dig (digit d) \<and> dig_val (digit d) = d"
  by (simp add: is_dig_def dig_val_def digit_def)

lemma leadingInt_append:
  "leadingInt x a = Some (y, []) \<Longrightarrow> leadingInt x (a @ b) = leadingInt y b"
  by (induction x a rule: leadingInt.induct) (auto split: if_splits)

lemma leadingInt_itoa: "n \<le> 2 ^ 63 \<Longrightarrow> leadingInt 0 (itoa n) = Some (n, [])"
proof (induction n rule: itoa.induct)
  case (1 n)
  have d: "is_dig (digit (n mod 10))" "dig_val (digit (n mod 10)) = n mod 10" using digit_dig [of "n mod 10"] by simp_all
  show ?case
  proof (cases "n < 10")
    case True
    then show ?thesis using d by (simp add: itoa.simps [of n])
  next
    case False
    then have "leadingInt 0 (itoa (n div 10)) = Some (n div 10, [])" using 1 by simp
    from leadingInt_append [OF this, of "[digit (n mod 10)]"] show ?thesis using False d 1(2)
      by (simp add: itoa.simps [of n] div_le_mono)
  qed
qed

lemma leadingInt_stop: "u \<noteq> [] \<Longrightarrow> \<not> is_dig (hd u) \<Longrightarrow> leadingInt x u = Some (x, u)"
  by (cases u) simp_all

lemma unit_chars:
  assumes "unitMap u = Some unit"
  shows "u \<noteq> []" "list_all (\<lambda>c. \<not> num_char c) u" "0 < unit" "u \<noteq> ''0''"
  using assms by (auto simp: unitMap_def num_char_def is_dig_def split: if_splits)

text \<open>A number of units parses to just that, as long as it fits.\<close>

lemma ParseDuration_plain:
  assumes "unitMap u = Some unit" and "n * unit < 2 ^ 63"
  shows "ParseDuration (itoa n @ u) = Some (of_nat (n * unit))"
proof -
  note u = unit_chars [OF assms(1)]
  have n: "n \<le> 2 ^ 63" "n \<le> 2 ^ 63 div unit" using assms(2) u(3) by (auto simp: less_eq_div_iff_mult_less_eq intro: order_trans [of n "n * unit"])
  have h: "hd u \<noteq> CHR ''.''" "\<not> is_dig (hd u)" "takeWhile (\<lambda>c. \<not> num_char c) u = u" "dropWhile (\<lambda>c. \<not> num_char c) u = []"
    using u(1,2) by (auto simp: list_all_iff num_char_def)
  obtain d where d: "d < 10" "hd (itoa n) = digit d" using itoa_digits [of "hd (itoa n)" n] by (auto intro: hd_in_set)
  then have s: "is_dig (hd (itoa n @ u))" using digit_dig by simp
  then have s': "num_char (hd (itoa n))" by (simp add: num_char_def)
  have "leadingInt 0 (itoa n @ u) = Some (n, u)"
    using leadingInt_append [OF leadingInt_itoa [OF n(1)], of u] leadingInt_stop [OF u(1) h(2)] by simp
  then have "dur_item (itoa n @ u) = Some (n * unit, [])"
    using u(1) h(1) s' n(2) assms(1) by (simp add: dur_item_def Let_def h(3,4))
  then have "dur_loop 0 (itoa n @ u) = Some (n * unit)" using assms(2) by (simp add: dur_loop.simps)
  moreover have "hd (itoa n @ u) \<noteq> CHR ''-''" "hd (itoa n @ u) \<noteq> CHR ''+''" using s by (auto simp: is_dig_def)
  moreover have "itoa n @ u \<noteq> ''0''" using u(1,4) by (auto simp: append_eq_Cons_conv)
  ultimately show ?thesis using assms(2) by (simp add: ParseDuration_def)
qed

text \<open>Only a minus sign makes a duration negative.\<close>

lemma ParseDuration_nonneg:
  assumes "ParseDuration s = Some d" and "s = [] \<or> hd s \<noteq> CHR ''-''"
  shows "0 \<le> sint d"
proof -
  have "d = of_nat 0 \<or> (\<exists>n \<le> 2 ^ 63 - 1. d = of_nat n)"
    using assms by (auto simp: ParseDuration_def Let_def not_less split: if_splits option.splits)
  then obtain n :: nat where n: "d = of_nat n" "n < 2 ^ 63" by fastforce
  then have "sint d = signed_take_bit 63 (int n)" by (simp add: signed_of_nat)
  then show ?thesis using n(2) by (simp add: signed_take_bit_int_eq_self)
qed

end
