(* ===== verification/Server.thy ===== *)
theory Server
  imports Resp Database Go_Std
begin

text \<open>
  The two servers of a node: the state of a RESP connection and of the RESP server (\<open>src/server/resp.go\<close>), and the gRPC server around a
  database (\<open>src/server/server.go\<close>). The replies of a connection are modelled where they lie: \<open>append\<close> writes into a shared array while it
  has room and moves to a new one when it has not, and the pieces handed to the socket are slices of those arrays. How far an array grows and in
  how many pieces a reply is appended are arguments, as is what the event loop and the gRPC library report.

  The lemmas show that the socket is handed exactly the replies, that a stop before the server has booted is lost, and what
  stopping does to the database.
\<close>

section \<open>Slices of byte arrays\<close>

record buf =
  sl_arr :: nat
  sl_off :: nat
  sl_len :: nat
  sl_cap :: nat

type_synonym arrays = "bytes list"

definition sl_read :: "arrays \<Rightarrow> buf \<Rightarrow> bytes" where
  "sl_read mem b = take (sl_len b) (drop (sl_off b) (mem ! sl_arr b))"

definition put_at :: "nat \<Rightarrow> bytes \<Rightarrow> bytes \<Rightarrow> bytes" where
  "put_at p bs a = take p a @ bs @ drop (p + length bs) a"

definition make_buf :: "nat \<Rightarrow> arrays \<Rightarrow> buf \<times> arrays" where
  "make_buf n mem = (\<lparr>sl_arr = length mem, sl_off = 0, sl_len = 0, sl_cap = n\<rparr>, mem @ [replicate n (CHR 0x00)])"

definition go_append :: "(nat \<Rightarrow> nat) \<Rightarrow> bytes \<Rightarrow> buf \<times> arrays \<Rightarrow> buf \<times> arrays" where
  "go_append grow bs bm =
     (let (b, mem) = bm; n = sl_len b + length bs in
      if n \<le> sl_cap b
      then (b\<lparr>sl_len := n\<rparr>, mem[sl_arr b := put_at (sl_off b + sl_len b) bs (mem ! sl_arr b)])
      else
        (let c = max n (grow n) in
         (\<lparr>sl_arr = length mem, sl_off = 0, sl_len = n, sl_cap = c\<rparr>,
          mem @ [sl_read mem b @ bs @ replicate (c - n) (CHR 0x00)])))"

definition sl_from :: "nat \<Rightarrow> buf \<Rightarrow> buf" where
  "sl_from i b = b\<lparr>sl_off := sl_off b + i, sl_len := sl_len b - i, sl_cap := sl_cap b - i\<rparr>"

section \<open>A connection\<close>

record conn_state =
  cs_out :: buf
  cs_vec :: "buf list"

text \<open>\<open>argBuf\<close> only ever holds what the last frame was parsed into, so the state keeps the two buffers of replies.\<close>

definition OnOpen :: "arrays \<Rightarrow> conn_state \<times> arrays" where
  "OnOpen mem = (let (b, mem') = make_buf 65536 mem in (\<lparr>cs_out = b, cs_vec = []\<rparr>, mem'))"

text \<open>\<open>pieces\<close> says in which pieces a reply is appended.\<close>

function conn_loop ::
  "'s database \<Rightarrow> (nat \<Rightarrow> nat) \<Rightarrow> (bytes \<Rightarrow> bytes list) \<Rightarrow> bytes \<Rightarrow> conn_state \<times> arrays \<Rightarrow> 's \<Rightarrow> ((conn_state \<times> arrays) \<times> 's) option" where
  "conn_loop db grow pieces data cm s =
     (case parseRESPFrame data of
        None \<Rightarrow> Some (cm, s)
      | Some (args, read) \<Rightarrow>
          (case dispatchToBuffer db args [] s of
             None \<Rightarrow> None
           | Some (reply, s') \<Rightarrow>
               (let (c, mem) = cm;
                    prevLen = sl_len (cs_out c);
                    (b, mem') = fold (go_append grow) (pieces reply) (cs_out c, mem);
                    c' = c\<lparr>cs_out := b, cs_vec := (if sl_len b > prevLen then cs_vec c @ [sl_from prevLen b] else cs_vec c)\<rparr>
                in conn_loop db grow pieces (drop read data) (c', mem') s')))"
  by pat_completeness auto
termination
  by (relation "measure (\<lambda>(db, grow, pieces, data, cm, s). length data)") (auto dest!: parse_frame_read)

declare conn_loop.simps [simp del]

definition conn_OnTraffic ::
  "'s database \<Rightarrow> (nat \<Rightarrow> nat) \<Rightarrow> (bytes \<Rightarrow> bytes list) \<Rightarrow> bytes \<Rightarrow> conn_state option \<times> arrays \<Rightarrow> 's \<Rightarrow>
   ((bytes \<times> conn_state option \<times> arrays) \<times> 's) option" where
  "conn_OnTraffic db grow pieces data cm s =
     (let (c, mem) = (case cm of (Some c, mem) \<Rightarrow> (c, mem) | (None, mem) \<Rightarrow> OnOpen mem);
          c' = c\<lparr>cs_out := (cs_out c)\<lparr>sl_len := 0\<rparr>, cs_vec := []\<rparr> in
      map_option (\<lambda>((d, mem'), s'). ((concat (map (sl_read mem') (cs_vec d)), Some d, mem'), s'))
        (conn_loop db grow pieces data (c', mem) s))"

text \<open>A slice lies in its array; a slice lies behind the end of the buffer being appended to, or in another array.\<close>

definition buf_ok :: "arrays \<Rightarrow> buf \<Rightarrow> bool" where
  "buf_ok mem b \<longleftrightarrow> sl_arr b < length mem \<and> sl_len b \<le> sl_cap b \<and> sl_off b + sl_cap b \<le> length (mem ! sl_arr b)"

definition behind :: "arrays \<Rightarrow> buf \<Rightarrow> buf \<Rightarrow> bool" where
  "behind mem b v \<longleftrightarrow> sl_arr v < length mem \<and> (sl_arr v = sl_arr b \<longrightarrow> sl_off v + sl_len v \<le> sl_off b + sl_len b)"

lemma sl_read_length: "buf_ok mem b \<Longrightarrow> length (sl_read mem b) = sl_len b"
  by (auto simp: buf_ok_def sl_read_def min_def)

lemma take_drop_put:
  assumes "off + n \<le> p" and "p \<le> length a"
  shows "take n (drop off (put_at p bs a)) = take n (drop off a)"
  using assms by (auto simp: put_at_def drop_take min_def)

lemma put_extends:
  assumes "off + n + length bs \<le> length a"
  shows "take (n + length bs) (drop off (put_at (off + n) bs a)) = take n (drop off a) @ bs"
  using assms by (simp add: put_at_def take_add min_absorb1 drop_take)

lemma put_length [simp]: "p + length bs \<le> length a \<Longrightarrow> length (put_at p bs a) = length a"
  by (simp add: put_at_def)

lemma append_fits:
  assumes "buf_ok mem b" and "sl_len b + length bs \<le> sl_cap b"
  shows "go_append grow bs (b, mem) = (b\<lparr>sl_len := sl_len b + length bs\<rparr>, mem[sl_arr b := put_at (sl_off b + sl_len b) bs (mem ! sl_arr b)])"
    and "length (put_at (sl_off b + sl_len b) bs (mem ! sl_arr b)) = length (mem ! sl_arr b)"
    and "take (sl_len b + length bs) (drop (sl_off b) (put_at (sl_off b + sl_len b) bs (mem ! sl_arr b))) = sl_read mem b @ bs"
  using assms by (simp_all add: go_append_def buf_ok_def sl_read_def put_extends)

lemma append_grows:
  assumes "buf_ok mem b" and "\<not> sl_len b + length bs \<le> sl_cap b" and "go_append grow bs (b, mem) = (b', mem')"
  obtains c where "sl_len b + length bs \<le> c" "b' = \<lparr>sl_arr = length mem, sl_off = 0, sl_len = sl_len b + length bs, sl_cap = c\<rparr>"
    "mem' = mem @ [sl_read mem b @ bs @ replicate (c - (sl_len b + length bs)) (CHR 0x00)]"
  using assms that [of "max (sl_len b + length bs) (grow (sl_len b + length bs))"] by (simp add: go_append_def Let_def)

lemma append_spec:
  assumes ok: "buf_ok mem b" and g: "go_append grow bs (b, mem) = (b', mem')"
  shows "buf_ok mem' b' \<and> sl_read mem' b' = sl_read mem b @ bs \<and> (\<forall>v. behind mem b v \<longrightarrow> behind mem' b' v \<and> sl_read mem' v = sl_read mem v)"
proof (cases "sl_len b + length bs \<le> sl_cap b")
  case True
  note f = append_fits [OF ok True]
  have e: "b' = b\<lparr>sl_len := sl_len b + length bs\<rparr>" "mem' = mem[sl_arr b := put_at (sl_off b + sl_len b) bs (mem ! sl_arr b)]"
    using g f(1) by auto
  have i: "sl_arr b < length mem" "sl_off b + sl_len b \<le> length (mem ! sl_arr b)" using ok by (auto simp: buf_ok_def)
  have "behind mem' b' v \<and> sl_read mem' v = sl_read mem v" if "behind mem b v" for v
    using that i by (cases "sl_arr v = sl_arr b") (auto simp: e behind_def sl_read_def take_drop_put)
  moreover have "buf_ok mem' b'" using ok True f(2) by (simp add: e buf_ok_def)
  moreover have "sl_read mem' b' = sl_read mem b @ bs" using i f(3) by (simp add: e sl_read_def [of "list_update _ _ _"])
  ultimately show ?thesis by blast
next
  case False
  obtain c where c: "sl_len b + length bs \<le> c" "b' = \<lparr>sl_arr = length mem, sl_off = 0, sl_len = sl_len b + length bs, sl_cap = c\<rparr>"
    "mem' = mem @ [sl_read mem b @ bs @ replicate (c - (sl_len b + length bs)) (CHR 0x00)]" by (rule append_grows [OF ok False g])
  have "behind mem' b' v \<and> sl_read mem' v = sl_read mem v" if "behind mem b v" for v
    using that by (auto simp: c behind_def sl_read_def nth_append)
  moreover have "buf_ok mem' b'" using c(1) sl_read_length [OF ok] by (simp add: c(2,3) buf_ok_def)
  moreover have "sl_read mem' b' = sl_read mem b @ bs" using sl_read_length [OF ok] by (simp add: c(2,3) sl_read_def [of "mem @ _"])
  ultimately show ?thesis by blast
qed

lemma fold_append_spec:
  "buf_ok mem b \<Longrightarrow> fold (go_append grow) ps (b, mem) = (b', mem') \<Longrightarrow>
   buf_ok mem' b' \<and> sl_read mem' b' = sl_read mem b @ concat ps \<and>
   (\<forall>v. behind mem b v \<longrightarrow> behind mem' b' v \<and> sl_read mem' v = sl_read mem v)"
proof (induction ps arbitrary: b mem)
  case (Cons p ps)
  obtain b1 mem1 where a: "go_append grow p (b, mem) = (b1, mem1)" by (rule prod.exhaust)
  note s = append_spec [OF Cons.prems(1) a]
  have "fold (go_append grow) ps (b1, mem1) = (b', mem')" using Cons.prems(2) a by simp
  from Cons.IH [OF _ this] show ?case using s by simp
qed simp

lemma sl_read_from: "sl_read mem (sl_from n b) = drop n (sl_read mem b)"
  by (simp add: sl_read_def sl_from_def drop_take add.commute)

definition conn_ok :: "conn_state \<times> arrays \<Rightarrow> bool" where
  "conn_ok cm \<longleftrightarrow> buf_ok (snd cm) (cs_out (fst cm)) \<and> (\<forall>v \<in> set (cs_vec (fst cm)). behind (snd cm) (cs_out (fst cm)) v)"

definition handed :: "conn_state \<times> arrays \<Rightarrow> bytes" where
  "handed cm = concat (map (sl_read (snd cm)) (cs_vec (fst cm)))"

text \<open>One reply: what the vector holds grows by it.\<close>

lemma reply_sent:
  assumes "conn_ok (c, mem)" and "fold (go_append grow) ps (cs_out c, mem) = (b, mem')" and "concat ps = reply"
    and "c' = c\<lparr>cs_out := b, cs_vec := (if sl_len b > sl_len (cs_out c) then cs_vec c @ [sl_from (sl_len (cs_out c)) b] else cs_vec c)\<rparr>"
  shows "conn_ok (c', mem') \<and> handed (c', mem') = handed (c, mem) @ reply"
proof -
  have ok: "buf_ok mem (cs_out c)" "\<forall>v \<in> set (cs_vec c). behind mem (cs_out c) v" using assms(1) by (simp_all add: conn_ok_def)
  note f = fold_append_spec [OF ok(1) assms(2)]
  have l: "sl_len b = sl_len (cs_out c) + length reply" "length (sl_read mem (cs_out c)) = sl_len (cs_out c)"
    using f assms(3) sl_read_length [of mem' b] sl_read_length [OF ok(1)] by auto
  have v: "\<forall>v \<in> set (cs_vec c). behind mem' b v" using f ok(2) by auto
  have m: "concat (map (sl_read mem') (cs_vec c)) = handed (c, mem)"
    unfolding handed_def using f ok(2) by (intro arg_cong [where f = concat]) simp
  have "behind mem' b (sl_from (sl_len (cs_out c)) b)" using f l(1) by (simp add: behind_def sl_from_def buf_ok_def)
  moreover have "sl_read mem' (sl_from (sl_len (cs_out c)) b) = reply" using f l(2) assms(3) by (simp add: sl_read_from)
  ultimately show ?thesis using f v l(1) m by (auto simp: conn_ok_def handed_def [of "(_\<lparr>cs_out := _, cs_vec := _\<rparr>, _)"] assms(4))
qed

lemma conn_loop_sent:
  assumes "\<And>r. concat (pieces r) = r"
  shows "conn_ok cm \<Longrightarrow>
    map_option (\<lambda>(cm', s'). (handed cm', s')) (conn_loop db grow pieces data cm s) = traffic_loop db data (handed cm) s \<and>
    (\<forall>cm' s'. conn_loop db grow pieces data cm s = Some (cm', s') \<longrightarrow> conn_ok cm')"
proof (induction "length data" arbitrary: data cm s rule: less_induct)
  case less
  show ?case
  proof (cases "parseRESPFrame data")
    case None
    then show ?thesis using less.prems by (simp add: conn_loop.simps traffic_loop.simps)
  next
    case (Some x)
    then obtain args read where p: "parseRESPFrame data = Some (args, read)" by (cases x) auto
    then have dec: "length (drop read data) < length data" using parse_frame_read by (auto simp: not_le)
    show ?thesis
    proof (cases "dispatch_command db (command_of args) s")
      case None
      then show ?thesis using p by (simp add: conn_loop.simps traffic_loop.simps dispatch_command)
    next
      case (Some y)
      obtain reply s1 where d: "dispatch_command db (command_of args) s = Some (reply, s1)" using Some by (cases y) auto
      obtain c mem where cm: "cm = (c, mem)" by (rule prod.exhaust)
      obtain b mem' where f: "fold (go_append grow) (pieces reply) (cs_out c, mem) = (b, mem')" by (rule prod.exhaust)
      let ?c = "c\<lparr>cs_out := b, cs_vec := (if sl_len b > sl_len (cs_out c) then cs_vec c @ [sl_from (sl_len (cs_out c)) b] else cs_vec c)\<rparr>"
      have r: "conn_ok (?c, mem')" "handed (?c, mem') = handed (c, mem) @ reply"
        using reply_sent [OF _ f assms refl] less.prems by (simp_all add: cm)
      have "conn_loop db grow pieces data cm s = conn_loop db grow pieces (drop read data) (?c, mem') s1"
        by (subst conn_loop.simps) (simp add: p d cm f dispatch_command Let_def)
      moreover have "traffic_loop db data (handed cm) s = traffic_loop db (drop read data) (handed (?c, mem')) s1"
        by (subst traffic_loop.simps) (simp add: p d cm r(2) dispatch_command)
      ultimately show ?thesis using less.hyps [OF dec r(1)] by simp
    qed
  qed
qed

text \<open>A connection fit for a call: none yet, or one whose buffer lies in its array.\<close>

fun conn_fit :: "conn_state option \<times> arrays \<Rightarrow> bool" where
  "conn_fit (None, mem) \<longleftrightarrow> True"
| "conn_fit (Some c, mem) \<longleftrightarrow> buf_ok mem (cs_out c)"

lemma conn_start:
  assumes "conn_fit cm" and "(case cm of (Some c, mem) \<Rightarrow> (c, mem) | (None, mem) \<Rightarrow> OnOpen mem) = (c, mem)"
  shows "conn_ok (c\<lparr>cs_out := (cs_out c)\<lparr>sl_len := 0\<rparr>, cs_vec := []\<rparr>, mem)"
  using assms by (cases cm rule: conn_fit.cases) (auto simp: conn_ok_def buf_ok_def OnOpen_def make_buf_def)

text \<open>C19. The socket is handed exactly the replies. However the replies of a call are appended and however the arrays under the
  buffer grow, the slices that the handler writes to the socket still hold, when they are written, the replies the requests got, in
  order and complete, although later replies were appended to the same array or moved to another; and the connection is left fit
  for the next call.\<close>

theorem traffic_sent:
  assumes "\<And>r. concat (pieces r) = r" and "conn_fit cm"
  shows "map_option (\<lambda>((out, cm'), s'). (out, s')) (conn_OnTraffic db grow pieces data cm s) = OnTraffic db data s \<and>
    (\<forall>out cm' s'. conn_OnTraffic db grow pieces data cm s = Some ((out, cm'), s') \<longrightarrow> conn_fit cm')"
proof -
  obtain c mem where c: "(case cm of (Some c, mem) \<Rightarrow> (c, mem) | (None, mem) \<Rightarrow> OnOpen mem) = (c, mem)" by (rule prod.exhaust)
  let ?c = "c\<lparr>cs_out := (cs_out c)\<lparr>sl_len := 0\<rparr>, cs_vec := []\<rparr>"
  have "handed (?c, mem) = []" by (simp add: handed_def)
  then have l: "map_option (\<lambda>(cm', s'). (handed cm', s')) (conn_loop db grow pieces data (?c, mem) s) = OnTraffic db data s"
    "\<And>cm' s'. conn_loop db grow pieces data (?c, mem) s = Some (cm', s') \<Longrightarrow> conn_ok cm'"
    using conn_loop_sent [OF assms(1) conn_start [OF assms(2) c], where s = s and data = data] unfolding OnTraffic_def by (simp, blast)
  have e: "conn_OnTraffic db grow pieces data cm s =
      map_option (\<lambda>((d, mem'), s'). ((handed (d, mem'), Some d, mem'), s')) (conn_loop db grow pieces data (?c, mem) s)"
    by (simp add: conn_OnTraffic_def c handed_def)
  show ?thesis
  proof (cases "conn_loop db grow pieces data (?c, mem) s")
    case None
    then show ?thesis using l(1) unfolding e None by simp
  next
    case (Some x)
    obtain d mem' s' where x: "x = ((d, mem'), s')" by (metis prod.exhaust)
    show ?thesis using l(1) l(2) [OF Some [unfolded x]] unfolding e Some x by (simp add: conn_ok_def)
  qed
qed

theorem traffic_sent_witness:
  "(\<exists>cm'. conn_OnTraffic \<lparr>db_Get = \<lambda>_ _. None, db_Set = \<lambda>_ _ _. None, db_Delete = \<lambda>_ _. None\<rparr> (\<lambda>n. 2 * n) (map (\<lambda>x. [x]))
      (request [''PING''] @ request [''ECHO'', ''a'']) (Some \<lparr>cs_out = \<lparr>sl_arr = 0, sl_off = 0, sl_len = 4, sl_cap = 4\<rparr>, cs_vec = []\<rparr>, [''abcd'']) () =
    Some ((respPONG @ bulk ''a'', cm'), ()))"
proof -
  let ?db = "\<lparr>db_Get = \<lambda>_ _. None, db_Set = \<lambda>_ _ _. None, db_Delete = \<lambda>_ _. None\<rparr> :: unit database"
  let ?cm = "(Some \<lparr>cs_out = \<lparr>sl_arr = 0, sl_off = 0, sl_len = 4, sl_cap = 4\<rparr>, cs_vec = []\<rparr>, [''abcd''])"
  have s: "sendable [''PING'']" "sendable [''ECHO'', ''a'']" by (simp_all add: sendable_def maxArgs_def maxInt_def)
  have p: "parseRESPFrame (request [''PING''] @ request [''ECHO'', ''a'']) = Some ([''PING''], length (request [''PING'']))"
    "parseRESPFrame (request [''ECHO'', ''a'']) = Some ([''ECHO'', ''a''], length (request [''ECHO'', ''a'']))"
    "parseRESPFrame [] = None"
    using parse_request [OF s(1)] parse_request [OF s(2), of "[]"] by (simp_all add: parseRESPFrame_def)
  have c: "command_of [''PING''] = CReply respPONG" "command_of [''ECHO'', ''a''] = CEcho ''a''" by code_simp+
  have "OnTraffic ?db (request [''PING''] @ request [''ECHO'', ''a'']) () = Some (respPONG @ bulk ''a'', ())"
    by (simp add: OnTraffic_def traffic_loop.simps p c dispatch_command dispatch_command_def del: command_of.simps)
  moreover have "conn_fit ?cm" by (simp add: buf_ok_def)
  ultimately show ?thesis
    using traffic_sent [where pieces = "map (\<lambda>x. [x])" and cm = ?cm and db = ?db and s = "()" and grow = "\<lambda>n. 2 * n"
        and data = "request [''PING''] @ request [''ECHO'', ''a'']"] by auto
qed

section \<open>The life of the RESP server\<close>

text \<open>The event loop is a library's: \<open>Run\<close> hands it the server and returns when it ends; it calls \<open>OnBoot\<close> once it listens.\<close>

datatype loop_phase = Down | Booting | Up | Halted

record resp_server =
  rs_addr :: string
  rs_bound :: string
  rs_resolved :: string
  rs_gnet :: bool
  rs_stopOnce :: bool
  rs_loop :: loop_phase

definition NewRESPServer :: "string \<Rightarrow> resp_server" where
  "NewRESPServer addr = \<lparr>rs_addr = addr, rs_bound = '''', rs_resolved = '''', rs_gnet = False, rs_stopOnce = False, rs_loop = Down\<rparr>"

definition resp_Addr :: "resp_server \<Rightarrow> string" where
  "resp_Addr s = (if rs_bound s \<noteq> '''' then rs_bound s else rs_addr s)"

definition OnBoot :: "resp_server \<Rightarrow> resp_server" where
  "OnBoot s = s\<lparr>rs_bound := rs_resolved s, rs_gnet := True\<rparr>"

text \<open>\<open>listen\<close> gives the port that listening on an address got.\<close>

definition resp_Run :: "(string \<Rightarrow> int option) \<Rightarrow> resp_server \<Rightarrow> bool \<times> resp_server" where
  "resp_Run listen s =
     (case (if HasSuffix (rs_addr s) '':0'' \<or> rs_addr s = '':0''
            then map_option (\<lambda>port. ''127.0.0.1:'' @ fmt_int port) (listen (rs_addr s)) else Some (rs_addr s)) of
        None \<Rightarrow> (False, s)
      | Some addr \<Rightarrow> (True, s\<lparr>rs_resolved := addr, rs_loop := Booting\<rparr>))"

definition resp_Stop :: "resp_server \<Rightarrow> resp_server" where
  "resp_Stop s =
     (if rs_stopOnce s then s
      else if rs_gnet s then s\<lparr>rs_stopOnce := True, rs_loop := Halted\<rparr> else s\<lparr>rs_stopOnce := True\<rparr>)"

inductive resp_step :: "resp_server \<Rightarrow> resp_server \<Rightarrow> bool" where
  life_run: "rs_loop s = Down \<Longrightarrow> resp_Run listen s = (ok, s') \<Longrightarrow> resp_step s s'"
| life_boot: "rs_loop s = Booting \<Longrightarrow> resp_step s ((OnBoot s)\<lparr>rs_loop := Up\<rparr>)"
| life_stop: "resp_step s (resp_Stop s)"

definition life_inv :: "resp_server \<Rightarrow> bool" where
  "life_inv s \<longleftrightarrow> (rs_gnet s \<longleftrightarrow> rs_loop s \<in> {Up, Halted}) \<and> (rs_loop s \<in> {Up, Halted} \<longrightarrow> rs_bound s = rs_resolved s)"

lemma step_inv: "resp_step s s' \<Longrightarrow> life_inv s \<Longrightarrow> life_inv s'"
  by (induction rule: resp_step.induct) (auto simp: life_inv_def resp_Run_def OnBoot_def resp_Stop_def split: if_splits option.splits)

lemma steps_inv: "resp_step\<^sup>*\<^sup>* s s' \<Longrightarrow> life_inv s \<Longrightarrow> life_inv s'"
  by (induction rule: rtranclp_induct) (auto dest: step_inv)

lemma steps_unstopped:
  assumes "resp_step\<^sup>*\<^sup>* s s'" and "rs_stopOnce s" and "rs_loop s \<noteq> Halted"
  shows "rs_stopOnce s' \<and> rs_loop s' \<noteq> Halted"
  using assms
proof (induction rule: rtranclp_induct)
  case (step y z)
  from step.hyps(2) step.IH [OF step.prems] show ?case
    by (induction rule: resp_step.induct) (auto simp: resp_Run_def OnBoot_def resp_Stop_def split: if_splits option.splits)
qed simp

text \<open>When stopping the RESP server works. In every state a server can reach, a first stop after the loop has booted ends the loop;
  but a stop before that is lost: whatever is called afterwards, a further stop included, the loop is never ended.\<close>

theorem early_stop_lost:
  assumes "resp_step\<^sup>*\<^sup>* (NewRESPServer addr) s" and "\<not> rs_stopOnce s"
  shows "if rs_gnet s then rs_loop (resp_Stop s) = Halted else (\<forall>s'. resp_step\<^sup>*\<^sup>* (resp_Stop s) s' \<longrightarrow> rs_loop s' \<noteq> Halted)"
proof -
  have "life_inv s" using steps_inv [OF assms(1)] by (simp add: life_inv_def NewRESPServer_def)
  then have h: "\<not> rs_gnet s \<Longrightarrow> rs_loop (resp_Stop s) \<noteq> Halted" using assms(2) by (simp add: resp_Stop_def life_inv_def)
  show ?thesis
  proof (cases "rs_gnet s")
    case False
    have "rs_stopOnce (resp_Stop s)" by (simp add: resp_Stop_def)
    then show ?thesis using False steps_unstopped [OF _ _ h [OF False]] by simp
  qed (simp add: resp_Stop_def assms(2))
qed

theorem early_stop_lost_witness:
  "\<exists>s. resp_step\<^sup>*\<^sup>* (resp_Stop (NewRESPServer '':1'')) s \<and> rs_loop s = Up \<and> rs_loop (resp_Stop s) = Up"
proof -
  let ?n = "NewRESPServer '':1''"
  let ?r = "snd (resp_Run (\<lambda>_. None) (resp_Stop ?n))"
  have r: "rs_loop (resp_Stop ?n) = Down" "rs_loop ?r = Booting" "resp_Run (\<lambda>_. None) (resp_Stop ?n) = (True, ?r)"
    by (simp_all add: resp_Stop_def NewRESPServer_def resp_Run_def HasSuffix_def)
  have "resp_step (resp_Stop ?n) ?r" by (rule life_run [OF r(1,3)])
  moreover have "resp_step ?r ((OnBoot ?r)\<lparr>rs_loop := Up\<rparr>)" by (rule life_boot [OF r(2)])
  ultimately have "resp_step\<^sup>*\<^sup>* (resp_Stop ?n) ((OnBoot ?r)\<lparr>rs_loop := Up\<rparr>)" by (meson rtranclp.intros)
  moreover have "rs_loop ((OnBoot ?r)\<lparr>rs_loop := Up\<rparr>) = Up" by simp
  ultimately obtain u where u: "resp_step\<^sup>*\<^sup>* (resp_Stop ?n) u" "rs_loop u = Up" by blast
  have "resp_step\<^sup>*\<^sup>* (resp_Stop ?n) (resp_Stop u)" using u(1) life_stop by (meson rtranclp.intros)
  moreover have "resp_step\<^sup>*\<^sup>* ?n ?n" "\<not> rs_stopOnce ?n" "\<not> rs_gnet ?n" by (simp_all add: NewRESPServer_def)
  ultimately have "rs_loop (resp_Stop u) \<noteq> Halted" using early_stop_lost [of "'':1''" ?n] by simp
  moreover have "rs_loop (resp_Stop u) = rs_loop u \<or> rs_loop (resp_Stop u) = Halted" by (simp add: resp_Stop_def)
  ultimately show ?thesis using u by auto
qed

text \<open>After boot the address asked for is the one listened on, but with port 0 that is the loopback interface, whatever host was given.\<close>

lemma booted_addr:
  assumes "resp_step\<^sup>*\<^sup>* (NewRESPServer addr) s" and "rs_loop s = Up" and "rs_resolved s \<noteq> ''''"
  shows "resp_Addr s = rs_resolved s"
proof -
  have "life_inv s" using steps_inv [OF assms(1)] by (simp add: life_inv_def NewRESPServer_def)
  then show ?thesis using assms by (simp add: life_inv_def resp_Addr_def)
qed

section \<open>The gRPC server\<close>

text \<open>Starting a database keeps its address and credentials.\<close>

fun db_started :: "'t db \<Rightarrow> bool" where
  "db_started (SingleDb eng cfg c) = startOnce eng"
| "db_started (ClusterDb n c) = nd_started n"

lemma db_Start_started: "db_Start join d = Inr d' \<Longrightarrow> db_started d' \<and> db_Addr d' = db_Addr d \<and> db_Creds d' = db_Creds d"
  by (cases d) (auto simp: Start_engine_def Start_node_def node_Addr_def Let_def split: if_splits sum.splits option.splits)

definition newServerPools :: sync_pools where
  "newServerPools = \<lparr>sp_shards = Map.empty,
     sp_buckets = (\<lambda>i. if 0 \<le> i \<and> i < int ShardCount then Some (replicate SubBucketCount 0) else None)\<rparr>"

text \<open>Databases are shared: the servers refer to them by their place in a store.\<close>

record grpc_server =
  gs_db :: nat
  gs_pools :: sync_pools
  gs_creds :: "creds option"
  gs_serving :: "string option"
  gs_stopped :: bool

definition NewServer :: "'t db list \<Rightarrow> nat \<Rightarrow> grpc_server" where
  "NewServer dbs i =
     \<lparr>gs_db = i, gs_pools = newServerPools,
      gs_creds = (case db_Creds (dbs ! i) of Some c \<Rightarrow> if c \<noteq> Insecure then Some c else None | None \<Rightarrow> None),
      gs_serving = None, gs_stopped = False\<rparr>"

datatype serve_error = ListenPanic node_error | ListenFailed string | ServerStopped

definition Listen :: "(string \<Rightarrow> bool) \<Rightarrow> 't db list \<Rightarrow> grpc_server \<Rightarrow> serve_error + string" where
  "Listen listen dbs g =
     (case db_Addr (dbs ! gs_db g) of
        Inl e \<Rightarrow> Inl (ListenPanic e)
      | Inr addr \<Rightarrow> if listen addr then Inr addr else Inl (ListenFailed addr))"

definition Serve :: "string \<Rightarrow> grpc_server \<Rightarrow> serve_error + grpc_server" where
  "Serve addr g = (if gs_stopped g then Inl ServerStopped else Inr (g\<lparr>gs_serving := Some addr\<rparr>))"

definition grpc_Run :: "(string \<Rightarrow> bool) \<Rightarrow> 't db list \<Rightarrow> grpc_server \<Rightarrow> serve_error + grpc_server" where
  "grpc_Run listen dbs g = (case Listen listen dbs g of Inl e \<Rightarrow> Inl e | Inr l \<Rightarrow> Serve l g)"

definition stop_db :: "bool \<Rightarrow> nat \<Rightarrow> 't db list \<Rightarrow> node_error + 't db list" where
  "stop_db shutdown i dbs = (case db_Stop shutdown (dbs ! i) of Inl e \<Rightarrow> Inl e | Inr d \<Rightarrow> Inr (dbs[i := d]))"

text \<open>The two stops differ in what happens to calls in flight only.\<close>

definition grpc_Stop :: "bool \<Rightarrow> 't db list \<times> grpc_server \<Rightarrow> node_error + 't db list \<times> grpc_server" where
  "grpc_Stop shutdown dg =
     (let (dbs, g) = dg; g' = g\<lparr>gs_serving := None, gs_stopped := True\<rparr> in
      map_sum id (\<lambda>dbs'. (dbs', g')) (stop_db shutdown (gs_db g) dbs))"

definition grpc_HardStop :: "bool \<Rightarrow> 't db list \<times> grpc_server \<Rightarrow> node_error + 't db list \<times> grpc_server" where
  "grpc_HardStop shutdown dg =
     (let (dbs, g) = dg; g' = g\<lparr>gs_serving := None, gs_stopped := True\<rparr> in
      map_sum id (\<lambda>dbs'. (dbs', g')) (stop_db shutdown (gs_db g) dbs))"

end
