(* ===== verification/Cli.thy ===== *)
theory Cli
  imports Resp Database
begin

text \<open>
  The command line client: the commands of \<open>src/cmd/oryx/cmd\<close> (\<open>get.go\<close>, \<open>set.go\<close>, \<open>delete.go\<close>, \<open>tls.go\<close>, \<open>root.go\<close>), the client of
  \<open>src/cluster/gateway/client.go\<close> they use, and the handlers of \<open>src/server/server.go\<close> over any database. What the network does to a call,
  whether a connection is to be had and what the certificate files hold are arguments.

  The lemmas show that a sequence of commands against a node prints and exits as a plain map would have it.
\<close>

section \<open>The handlers and the client\<close>

text \<open>\<open>None\<close> is a handler that does not return.\<close>

definition grpc_Get :: "'s database \<Rightarrow> string \<Rightarrow> 's \<Rightarrow> ((goslice \<times> bool) \<times> 's) option" where
  "grpc_Get db key s =
     map_option (\<lambda>(v, s'). ((case v of None \<Rightarrow> (None, False) | Some d \<Rightarrow> (d, True)), s')) (db_Get db key s)"

definition grpc_Set :: "'s database \<Rightarrow> string \<Rightarrow> goslice \<Rightarrow> 's \<Rightarrow> (bool \<times> 's) option" where
  "grpc_Set db key val s = map_option (\<lambda>(e, s'). (e = None, s')) (db_Set db key val s)"

definition grpc_Delete :: "'s database \<Rightarrow> string \<Rightarrow> 's \<Rightarrow> (bool option \<times> 's) option" where
  "grpc_Delete db key s = map_option (\<lambda>(existed, e, s'). ((case e of Some _ \<Rightarrow> None | None \<Rightarrow> Some existed), s')) (db_Delete db key s)"

text \<open>An empty byte field is not sent, and arrives as \<open>nil\<close>.\<close>

definition wire_bytes :: "goslice \<Rightarrow> goslice" where
  "wire_bytes v = (if slice_len v = 0 then None else v)"

text \<open>A call may be lost on the way, or be answered too late.\<close>

datatype net = NetOk | NetLost | NetLate

definition call :: "net \<Rightarrow> ('s \<Rightarrow> ('r \<times> 's) option) \<Rightarrow> 's \<Rightarrow> 'r option \<times> 's" where
  "call net handler s =
     (if net = NetLost then (None, s)
      else
        (case handler s of
           None \<Rightarrow> (None, s)
         | Some (r, s') \<Rightarrow> (if net = NetOk then Some r else None, s')))"

definition client_Get :: "'s database \<Rightarrow> net \<Rightarrow> string \<Rightarrow> 's \<Rightarrow> (goslice \<times> bool) option \<times> 's" where
  "client_Get db net key s = (let (r, s') = call net (grpc_Get db key) s in (map_option (\<lambda>(v, ok). (wire_bytes v, ok)) r, s'))"

definition client_Set :: "'s database \<Rightarrow> net \<Rightarrow> string \<Rightarrow> goslice \<Rightarrow> 's \<Rightarrow> bool \<times> 's" where
  "client_Set db net key val s = (let (r, s') = call net (grpc_Set db key (wire_bytes val)) s in (r = Some True, s'))"

definition client_Delete :: "'s database \<Rightarrow> net \<Rightarrow> string \<Rightarrow> 's \<Rightarrow> bool option \<times> 's" where
  "client_Delete db net key s =
     (let (r, s') = call net (grpc_Delete db key) s in ((case r of None \<Rightarrow> None | Some x \<Rightarrow> x), s'))"

section \<open>The commands\<close>

record cli_flags =
  flagHost :: string
  flagGRPCPort :: int
  flagInsecure :: bool
  flagTLSCert :: string
  flagTLSKey :: string
  flagTimeout :: int

definition cli_defaults :: cli_flags where
  "cli_defaults = \<lparr>flagHost = ''127.0.0.1'', flagGRPCPort = 50051, flagInsecure = False, flagTLSCert = '''', flagTLSKey = '''', flagTimeout = 5\<rparr>"

text \<open>What the certificate files hold: whether a pair loads, what a file reads as, whether it has certificates.\<close>

record tls_files =
  tf_pair :: "string \<Rightarrow> string \<Rightarrow> bool"
  tf_read :: "string \<Rightarrow> bytes option"
  tf_pem :: "bytes \<Rightarrow> bool"

datatype tls_error = BadKeyPair | BadCertFile | NoCerts

datatype tls_config = WithPair string string | WithRoots "bytes option"

definition buildClientTLSConfig :: "tls_files \<Rightarrow> string \<Rightarrow> string \<Rightarrow> tls_error + tls_config" where
  "buildClientTLSConfig tf certFile keyFile =
     (if keyFile \<noteq> '''' then (if tf_pair tf certFile keyFile then Inr (WithPair certFile keyFile) else Inl BadKeyPair)
      else if certFile \<noteq> ''''
      then (case tf_read tf certFile of
              None \<Rightarrow> Inl BadCertFile
            | Some caCert \<Rightarrow> if tf_pem tf caCert then Inr (WithRoots (Some caCert)) else Inl NoCerts)
      else Inr (WithRoots None))"

datatype dial_error = DialTls tls_error | DialRefused | DialNoTransport

definition loadClientTLS :: "tls_files \<Rightarrow> string \<Rightarrow> string \<Rightarrow> tls_error + tls_config" where
  "loadClientTLS tf certFile keyFile =
     (case buildClientTLSConfig tf certFile keyFile of Inl e \<Rightarrow> Inl e | Inr tlsCfg \<Rightarrow> Inr tlsCfg)"

record client =
  cl_addr :: string
  cl_timeout :: i64
  cl_creds :: "tls_config option"

text \<open>\<open>connect\<close> says whether the library makes a connection for an address; no transport is \<open>None\<close>.\<close>

definition NewClient :: "(string \<Rightarrow> bool) \<Rightarrow> string \<Rightarrow> i64 \<Rightarrow> tls_config \<Rightarrow> dial_error + client" where
  "NewClient connect addr timeout crd =
     (if connect addr then Inr \<lparr>cl_addr = addr, cl_timeout = timeout, cl_creds = Some crd\<rparr> else Inl DialRefused)"

definition NewInsecureClient :: "(string \<Rightarrow> bool) \<Rightarrow> string \<Rightarrow> i64 \<Rightarrow> dial_error + client" where
  "NewInsecureClient connect addr timeout =
     (if connect addr then Inr \<lparr>cl_addr = addr, cl_timeout = timeout, cl_creds = None\<rparr> else Inl DialRefused)"

definition dialClient :: "tls_files \<Rightarrow> (string \<Rightarrow> bool) \<Rightarrow> cli_flags \<Rightarrow> dial_error + client" where
  "dialClient tf connect fl =
     (let addr = flagHost fl @ '':'' @ fmt_int (flagGRPCPort fl);
          timeout = word_of_int (flagTimeout fl) * 1000000000 in
      if flagInsecure fl then NewInsecureClient connect addr timeout
      else if flagTLSCert fl \<noteq> ''''
      then (case loadClientTLS tf (flagTLSCert fl) (flagTLSKey fl) of
              Inl e \<Rightarrow> Inl (DialTls e)
            | Inr crd \<Rightarrow> NewClient connect addr timeout crd)
      else Inl DialNoTransport)"

text \<open>What a command returns: its error carries an exit code and perhaps a message; a wrong number of arguments is an error of the
  command library.\<close>

datatype run_error = ExitError int bool | UsageError

definition newline :: bytes where
  "newline = [CHR 0x0A]"

definition runGet :: "'s database \<Rightarrow> net \<Rightarrow> dial_error + client \<Rightarrow> string \<Rightarrow> 's \<Rightarrow> (bytes \<times> run_error option) \<times> 's" where
  "runGet db net dial key s =
     (case dial of
        Inl e \<Rightarrow> (([], Some (ExitError 2 True)), s)
      | Inr cl \<Rightarrow>
          (case client_Get db net key s of
             (None, s') \<Rightarrow> (([], Some (ExitError 2 True)), s')
           | (Some (val, exists), s') \<Rightarrow>
               if \<not> exists then ((''nil'' @ newline, Some (ExitError 1 False)), s')
               else ((slice_bytes val @ newline, None), s')))"

definition runSet :: "'s database \<Rightarrow> net \<Rightarrow> dial_error + client \<Rightarrow> string \<Rightarrow> bytes \<Rightarrow> 's \<Rightarrow> (bytes \<times> run_error option) \<times> 's" where
  "runSet db net dial key val s =
     (case dial of
        Inl e \<Rightarrow> (([], Some (ExitError 2 True)), s)
      | Inr cl \<Rightarrow>
          (let (ok, s') = client_Set db net key (Some val) s in
           if \<not> ok then (([], Some (ExitError 2 True)), s') else ((''OK'' @ newline, None), s')))"

definition runDelete :: "'s database \<Rightarrow> net \<Rightarrow> dial_error + client \<Rightarrow> string \<Rightarrow> 's \<Rightarrow> (bytes \<times> run_error option) \<times> 's" where
  "runDelete db net dial key s =
     (case dial of
        Inl e \<Rightarrow> (([], Some (ExitError 2 True)), s)
      | Inr cl \<Rightarrow>
          (case client_Delete db net key s of
             (None, s') \<Rightarrow> (([], Some (ExitError 2 True)), s')
           | (Some existed, s') \<Rightarrow>
               if \<not> existed then ((''nil'' @ newline, Some (ExitError 1 False)), s')
               else ((''OK'' @ newline, None), s')))"

text \<open>The exit code of the program.\<close>

fun Execute :: "run_error option \<Rightarrow> int" where
  "Execute None = 0"
| "Execute (Some (ExitError code msg)) = code"
| "Execute (Some UsageError) = 1"

datatype cli_cmd = GetCmd | SetCmd | DeleteCmd

definition cli :: "'s database \<Rightarrow> net \<Rightarrow> dial_error + client \<Rightarrow> cli_cmd \<Rightarrow> string list \<Rightarrow> 's \<Rightarrow> (bytes \<times> int) \<times> 's" where
  "cli db net dial cmd args s =
     (let ((out, e), s') =
        (case (cmd, args) of
           (GetCmd, [key]) \<Rightarrow> runGet db net dial key s
         | (SetCmd, [key, val]) \<Rightarrow> runSet db net dial key val s
         | (DeleteCmd, [key]) \<Rightarrow> runDelete db net dial key s
         | _ \<Rightarrow> (([], Some UsageError), s))
      in ((out, Execute e), s'))"

fun cli_run :: "'s database \<Rightarrow> dial_error + client \<Rightarrow> (net \<times> cli_cmd \<times> string list) list \<Rightarrow> 's \<Rightarrow> (bytes \<times> int) list \<times> 's" where
  "cli_run db dial [] s = ([], s)"
| "cli_run db dial ((net, cmd, args) # cs) s =
     (let (r, s1) = cli db net dial cmd args s; (rs, s2) = cli_run db dial cs s1 in (r # rs, s2))"

section \<open>What a session sees\<close>

text \<open>What a plain map would have a command print and exit with. A write that the node reports as failed exits with 2, and so does a
  call that is lost or answered too late; all but a lost call have taken effect.\<close>

definition cli_effect :: "net \<Rightarrow> cli_cmd \<Rightarrow> string list \<Rightarrow> (string \<rightharpoonup> goslice) \<Rightarrow> (string \<rightharpoonup> goslice)" where
  "cli_effect net cmd args m =
     (case (net, cmd, args) of
        (NetLost, _, _) \<Rightarrow> m
      | (_, SetCmd, [key, val]) \<Rightarrow> m(key \<mapsto> wire_bytes (Some val))
      | (_, DeleteCmd, [key]) \<Rightarrow> m(key := None)
      | _ \<Rightarrow> m)"

definition cli_output :: "net \<Rightarrow> cli_cmd \<Rightarrow> string list \<Rightarrow> (string \<rightharpoonup> goslice) \<Rightarrow> (bytes \<times> int) set" where
  "cli_output net cmd args m =
     (case (cmd, args) of
        (GetCmd, [key]) \<Rightarrow>
          (if net \<noteq> NetOk then {([], 2)}
           else case m key of None \<Rightarrow> {(''nil'' @ newline, 1)} | Some v \<Rightarrow> {(slice_bytes v @ newline, 0)})
      | (SetCmd, [key, val]) \<Rightarrow> if net \<noteq> NetOk then {([], 2)} else {(''OK'' @ newline, 0), ([], 2)}
      | (DeleteCmd, [key]) \<Rightarrow>
          (if net \<noteq> NetOk then {([], 2)}
           else {(if m key = None then (''nil'' @ newline, 1) else (''OK'' @ newline, 0)), ([], 2)})
      | _ \<Rightarrow> {([], 1)})"

fun cli_spec :: "(net \<times> cli_cmd \<times> string list) list \<Rightarrow> (string \<rightharpoonup> goslice) \<Rightarrow> (bytes \<times> int) list \<Rightarrow> (string \<rightharpoonup> goslice) \<Rightarrow> bool" where
  "cli_spec [] m rs m' \<longleftrightarrow> rs = [] \<and> m' = m"
| "cli_spec ((net, cmd, args) # cs) m rs m' \<longleftrightarrow>
     (\<exists>r rs'. rs = r # rs' \<and> r \<in> cli_output net cmd args m \<and> cli_spec cs (cli_effect net cmd args m) rs' m')"

lemma slice_wire [simp]: "slice_bytes (wire_bytes v) = slice_bytes v"
  by (auto simp: wire_bytes_def slice_len_def split: option.splits)

lemma lost_call [simp]: "call NetLost h s = (None, s)"
  by (simp add: call_def)

lemma cli_cases:
  obtains (get) key where "cmd = GetCmd" "args = [key]"
  | (set) key val where "cmd = SetCmd" "args = [key, val]"
  | (delete) key where "cmd = DeleteCmd" "args = [key]"
  | (usage) "length args \<noteq> (if cmd = SetCmd then 2 else 1)"
  by (cases cmd; cases args rule: remdups_adj.cases) fastforce+

lemma cli_usage:
  assumes "length args \<noteq> (if cmd = SetCmd then 2 else 1)"
  shows "cli db net dial cmd args s = (([], 1), s)" and "cli_output net cmd args m = {([], 1)}" and "cli_effect net cmd args m = m"
  using assms by (auto simp: cli_def cli_output_def cli_effect_def split: list.splits cli_cmd.splits net.splits)

context db_backend
begin

lemma get_step:
  assumes "inv s" and "ready (Suc n) s" and "runGet db net (Inr cl) key s = ((out, e), s')"
  shows "inv s' \<and> ready n s' \<and> (out, Execute e) \<in> cli_output net GetCmd [key] (live s) \<and> live s' = live s"
proof (cases "net = NetLost")
  case True
  then show ?thesis using assms ready_less [of "Suc n" s n] by (auto simp: runGet_def client_Get_def cli_output_def)
next
  case False
  obtain s1 where g: "db_Get db key s = Some (live s key, s1)" "inv s1" "ready n s1" "live s1 = live s"
    using get [OF assms(1,2), of key] by blast
  then show ?thesis using False assms(3)
    by (cases net; cases "live s key") (auto simp: runGet_def client_Get_def call_def grpc_Get_def cli_output_def)
qed

lemma set_step:
  assumes "inv s" and "ready (Suc n) s" and "runSet db net (Inr cl) key val s = ((out, e), s')"
  shows "inv s' \<and> ready n s' \<and> (out, Execute e) \<in> cli_output net SetCmd [key, val] (live s) \<and>
    live s' = cli_effect net SetCmd [key, val] (live s)"
proof (cases "net = NetLost")
  case True
  then show ?thesis using assms ready_less [of "Suc n" s n]
    by (auto simp: runSet_def client_Set_def cli_output_def cli_effect_def)
next
  case False
  obtain x s1 where g: "db_Set db key (wire_bytes (Some val)) s = Some (x, s1)" "inv s1" "ready n s1"
      "live s1 = (live s)(key \<mapsto> wire_bytes (Some val))"
    using set [OF assms(1,2), of key "wire_bytes (Some val)"] by blast
  then show ?thesis using False assms(3)
    by (cases net; cases x) (auto simp: runSet_def client_Set_def call_def grpc_Set_def cli_output_def cli_effect_def)
qed

lemma delete_step:
  assumes "inv s" and "ready (Suc n) s" and "runDelete db net (Inr cl) key s = ((out, e), s')"
  shows "inv s' \<and> ready n s' \<and> (out, Execute e) \<in> cli_output net DeleteCmd [key] (live s) \<and>
    live s' = cli_effect net DeleteCmd [key] (live s)"
proof (cases "net = NetLost")
  case True
  then show ?thesis using assms ready_less [of "Suc n" s n]
    by (auto simp: runDelete_def client_Delete_def cli_output_def cli_effect_def)
next
  case False
  obtain x s1 where g: "db_Delete db key s = Some (live s key \<noteq> None, x, s1)" "inv s1" "ready n s1" "live s1 = (live s)(key := None)"
    using delete [OF assms(1,2), of key] by blast
  then show ?thesis using False assms(3)
    by (cases net; cases x; cases "live s key")
      (auto simp: runDelete_def client_Delete_def call_def grpc_Delete_def cli_output_def cli_effect_def)
qed

lemma cli_step:
  assumes "inv s" and "ready (Suc n) s" and "cli db net (Inr cl) cmd args s = (r, s')"
  shows "inv s' \<and> ready n s' \<and> r \<in> cli_output net cmd args (live s) \<and> live s' = cli_effect net cmd args (live s)"
proof (cases cmd args rule: cli_cases)
  case (get key)
  obtain out e s1 where x: "runGet db net (Inr cl) key s = ((out, e), s1)" by (metis prod.exhaust)
  then show ?thesis using get_step [OF assms(1,2) x] assms(3) get by (auto simp: cli_def cli_effect_def split: net.splits)
next
  case (set key val)
  obtain out e s1 where x: "runSet db net (Inr cl) key val s = ((out, e), s1)" by (metis prod.exhaust)
  then show ?thesis using set_step [OF assms(1,2) x] assms(3) set by (auto simp: cli_def)
next
  case (delete key)
  obtain out e s1 where x: "runDelete db net (Inr cl) key s = ((out, e), s1)" by (metis prod.exhaust)
  then show ?thesis using delete_step [OF assms(1,2) x] assms(3) delete by (auto simp: cli_def)
next
  case usage
  then show ?thesis using assms ready_less [of "Suc n" s n] by (simp add: cli_usage)
qed

lemma session_step:
  "inv s \<Longrightarrow> ready (length cs + n) s \<Longrightarrow> cli_run db (Inr cl) cs s = (rs, s') \<Longrightarrow>
   inv s' \<and> ready n s' \<and> cli_spec cs (live s) rs (live s')"
proof (induction cs arbitrary: s rs)
  case (Cons c cs)
  obtain net cmd args where c: "c = (net, cmd, args)" by (rule prod_cases3)
  obtain r s1 where a: "cli db net (Inr cl) cmd args s = (r, s1)" by (rule prod.exhaust)
  obtain rs1 s2 where b: "cli_run db (Inr cl) cs s1 = (rs1, s2)" by (rule prod.exhaust)
  have e: "rs = r # rs1" "s' = s2" using Cons.prems(3) a b by (simp_all add: c)
  have "ready (Suc (length cs + n)) s" using Cons.prems(2) by simp
  from cli_step [OF Cons.prems(1) this a] have s1: "inv s1" "ready (length cs + n) s1"
      "r \<in> cli_output net cmd args (live s)" "live s1 = cli_effect net cmd args (live s)" by blast+
  from Cons.IH [OF s1(1,2)] b e(2) have "inv s2 \<and> ready n s2 \<and> cli_spec cs (live s1) rs1 (live s2)" by blast
  then show ?case using s1(3,4) e by (auto simp: c)
qed auto

end

section \<open>Sessions against a node\<close>


definition demo_flags :: cli_flags where
  "demo_flags = cli_defaults\<lparr>flagInsecure := True\<rparr>"

definition demo_tls :: tls_files where
  "demo_tls = \<lparr>tf_pair = \<lambda>_ _. False, tf_read = \<lambda>_. None, tf_pem = \<lambda>_. False\<rparr>"


section \<open>The connection\<close>

lemma sint_i64: "sint (word_of_int x :: i64) = signed_take_bit 63 x"
  by (simp add: signed_of_int)

lemma seconds_exact:
  "sint (word_of_int t * 1000000000 :: i64) = t * 1000000000 \<longleftrightarrow> - 9223372036 \<le> t \<and> t \<le> 9223372036"
proof -
  have "(word_of_int t * 1000000000 :: i64) = word_of_int (t * 1000000000)" by simp
  then have "sint (word_of_int t * 1000000000 :: i64) = sint (word_of_int (t * 1000000000) :: i64)" by (rule arg_cong)
  also have "\<dots> = signed_take_bit 63 (t * 1000000000)" by (rule sint_i64)
  finally have "sint (word_of_int t * 1000000000 :: i64) = signed_take_bit 63 (t * 1000000000)" .
  then show ?thesis by (auto simp: signed_take_bit_int_eq_self_iff)
qed

text \<open>With the default flags no command gets a connection.\<close>

lemma default_dial: "dialClient tf connect cli_defaults = Inl DialNoTransport"
  by (simp add: dialClient_def cli_defaults_def)

text \<open>What a command dials. A client is made only for the address of the flags; its connection is in plain text exactly if that was
  asked for, and otherwise has a certificate; and the deadline of a call is the timeout of the flags in seconds exactly
  when this is at most 9223372036 either way. Beyond that the product of 64-bit integers wraps around.\<close>

theorem dial_transport:
  assumes "dialClient tf connect fl = Inr cl"
  shows "cl_addr cl = flagHost fl @ '':'' @ fmt_int (flagGRPCPort fl) \<and> connect (cl_addr cl) \<and>
    (cl_creds cl = None \<longleftrightarrow> flagInsecure fl) \<and> (flagInsecure fl \<or> flagTLSCert fl \<noteq> '''') \<and>
    (sint (cl_timeout cl) = flagTimeout fl * 1000000000 \<longleftrightarrow> \<bar>flagTimeout fl\<bar> \<le> 9223372036)"
proof -
  have "cl_timeout cl = word_of_int (flagTimeout fl) * 1000000000"
    using assms by (auto simp: dialClient_def NewClient_def NewInsecureClient_def Let_def split: if_splits sum.splits)
  then have "sint (cl_timeout cl) = flagTimeout fl * 1000000000 \<longleftrightarrow> \<bar>flagTimeout fl\<bar> \<le> 9223372036"
    by (simp only: seconds_exact) arith
  then show ?thesis
    using assms by (auto simp: dialClient_def NewClient_def NewInsecureClient_def Let_def split: if_splits sum.splits)
qed

theorem dial_transport_witness:
  "\<exists>cl. dialClient demo_tls (\<lambda>_. True) (demo_flags\<lparr>flagTimeout := 10000000000\<rparr>) = Inr cl \<and> cl_creds cl = None \<and>
     sint (cl_timeout cl) \<noteq> 10000000000 * 1000000000"
proof -
  obtain cl where c: "dialClient demo_tls (\<lambda>_. True) (demo_flags\<lparr>flagTimeout := 10000000000\<rparr>) = Inr cl"
    by (simp add: dialClient_def NewInsecureClient_def demo_flags_def cli_defaults_def)
  from dial_transport [OF c] show ?thesis using c by (auto simp: demo_flags_def cli_defaults_def)
qed

end
