(* ===== verification/Serve.thy ===== *)
theory Serve
  imports Server
begin

text \<open>
  The command that runs a node (\<open>src/cmd/oryx/cmd/serve.go\<close>): its flags and their defaults, the environment, the builder calls they lead to, and
  starting and stopping the database with its two servers. What the flag library makes of a text, what the certificate files and
  the operating system give, and whether the servers can listen are arguments.

  The lemmas show what a node that runs is made of: a well-formed database with the configuration asked for, intervals that are positive, and a
  gRPC server that is in plain text only on request.
\<close>

section \<open>Flags and environment\<close>

record serve_flags =
  serveNodeID :: string
  serveBindAddr :: string
  serveBindPort :: int
  serveGRPCPort :: int
  serveRESPPort :: string
  serveAdvertiseAddr :: string
  serveSeeds :: string
  serveReplicationFactor :: int
  serveWALPath :: string
  serveSNPPath :: string
  serveWALInterval :: string
  serveSNPInterval :: string
  serveWALBufferSize :: u32
  serveWALSegments :: int
  serveGossipInterval :: string
  serveSingleNode :: bool
  serveTLSCert :: string
  serveTLSKey :: string
  serveInsecure :: bool
  serveVolatile :: bool
  serveReplicationFailureMode :: string

definition serve_defaults :: serve_flags where
  "serve_defaults =
     \<lparr>serveNodeID = '''', serveBindAddr = ''127.0.0.1'', serveBindPort = 7946, serveGRPCPort = 50051, serveRESPPort = ''6379'',
      serveAdvertiseAddr = '''', serveSeeds = '''', serveReplicationFactor = 3, serveWALPath = ''data/wal'', serveSNPPath = ''data/snapshot.bin'',
      serveWALInterval = ''500ms'', serveSNPInterval = ''5m'', serveWALBufferSize = 65536, serveWALSegments = 16, serveGossipInterval = ''10s'',
      serveSingleNode = False, serveTLSCert = '''', serveTLSKey = '''', serveInsecure = False, serveVolatile = False,
      serveReplicationFailureMode = ''strict''\<rparr>"

text \<open>What setting a numeric flag to a text leaves in it; an error of it is ignored.\<close>

record pflag =
  pf_int :: "string \<Rightarrow> int"
  pf_uint32 :: "string \<Rightarrow> u32"

definition strEnv ::
  "(string \<Rightarrow> bool) \<Rightarrow> (string \<Rightarrow> string) \<Rightarrow> string \<Rightarrow> string \<Rightarrow> (string \<Rightarrow> serve_flags \<Rightarrow> serve_flags) \<Rightarrow> serve_flags \<Rightarrow> serve_flags" where
  "strEnv changed env flag var set_flag fl =
     (if \<not> changed flag then (let v = env var in if v \<noteq> '''' then set_flag v fl else fl) else fl)"

definition boolEnv ::
  "(string \<Rightarrow> bool) \<Rightarrow> (string \<Rightarrow> string) \<Rightarrow> string \<Rightarrow> string \<Rightarrow> (serve_flags \<Rightarrow> serve_flags) \<Rightarrow> serve_flags \<Rightarrow> serve_flags" where
  "boolEnv changed env flag var set_flag fl =
     (if \<not> changed flag then (let v = env var in if v = ''true'' then set_flag fl else fl) else fl)"

definition applyServeEnv :: "pflag \<Rightarrow> (string \<Rightarrow> bool) \<Rightarrow> (string \<Rightarrow> string) \<Rightarrow> serve_flags \<Rightarrow> serve_flags" where
  "applyServeEnv P changed env fl =
     (let str = strEnv changed env; bool = boolEnv changed env;
          fl = str ''node-id'' ''ORYX_NODE_ID'' (\<lambda>v. serveNodeID_update (\<lambda>_. v)) fl;
          fl = str ''addr'' ''ORYX_BIND_ADDR'' (\<lambda>v. serveBindAddr_update (\<lambda>_. v)) fl;
          fl = str ''port'' ''ORYX_BIND_PORT'' (\<lambda>v. serveBindPort_update (\<lambda>_. pf_int P v)) fl;
          fl = str ''grpc-port'' ''ORYX_GRPC_PORT'' (\<lambda>v. serveGRPCPort_update (\<lambda>_. pf_int P v)) fl;
          fl = str ''resp-port'' ''ORYX_RESP_PORT'' (\<lambda>v. serveRESPPort_update (\<lambda>_. v)) fl;
          fl = str ''advertise-addr'' ''ORYX_ADVERTISE_ADDR'' (\<lambda>v. serveAdvertiseAddr_update (\<lambda>_. v)) fl;
          fl = str ''seeds'' ''ORYX_SEED_NODES'' (\<lambda>v. serveSeeds_update (\<lambda>_. v)) fl;
          fl = str ''replication'' ''ORYX_REPLICATION_FACTOR'' (\<lambda>v. serveReplicationFactor_update (\<lambda>_. pf_int P v)) fl;
          fl = str ''replication-failure-mode'' ''ORYX_REPLICATION_FAILURE_MODE'' (\<lambda>v. serveReplicationFailureMode_update (\<lambda>_. v)) fl;
          fl = str ''wal-path'' ''ORYX_WAL_PATH'' (\<lambda>v. serveWALPath_update (\<lambda>_. v)) fl;
          fl = str ''snp-path'' ''ORYX_SNP_PATH'' (\<lambda>v. serveSNPPath_update (\<lambda>_. v)) fl;
          fl = str ''wal-interval'' ''ORYX_WAL_INTERVAL'' (\<lambda>v. serveWALInterval_update (\<lambda>_. v)) fl;
          fl = str ''snp-interval'' ''ORYX_SNP_INTERVAL'' (\<lambda>v. serveSNPInterval_update (\<lambda>_. v)) fl;
          fl = str ''wal-buffer-size'' ''ORYX_WAL_BUFFER_SIZE'' (\<lambda>v. serveWALBufferSize_update (\<lambda>_. pf_uint32 P v)) fl;
          fl = str ''wal-segments'' ''ORYX_WAL_SEGMENTS'' (\<lambda>v. serveWALSegments_update (\<lambda>_. pf_int P v)) fl;
          fl = str ''gossip-interval'' ''ORYX_GOSSIP_INTERVAL'' (\<lambda>v. serveGossipInterval_update (\<lambda>_. v)) fl;
          fl = str ''tls-cert'' ''ORYX_TLS_CERT_FILE'' (\<lambda>v. serveTLSCert_update (\<lambda>_. v)) fl;
          fl = str ''tls-key'' ''ORYX_TLS_KEY_FILE'' (\<lambda>v. serveTLSKey_update (\<lambda>_. v)) fl;
          fl = bool ''single-node'' ''ORYX_SINGLE_NODE'' (serveSingleNode_update (\<lambda>_. True)) fl
      in bool ''insecure'' ''ORYX_INSECURE'' (serveInsecure_update (\<lambda>_. True)) fl)"

section \<open>Running a node\<close>

datatype serve_fail =
    EvictorPanic evict_panic
  | BadTls
  | NeedTls
  | BadWalInterval
  | BadSnpInterval
  | BadGossipInterval
  | BuildFailed build_error
  | SegmentsPanic
  | StartPanic node_error
  | TickerPanic
  | GrpcFailed serve_error
  | RespFailed

text \<open>\<open>load\<close> gives the credentials that a pair of files holds.\<close>

definition serve_creds :: "(string \<Rightarrow> string \<Rightarrow> nat option) \<Rightarrow> serve_flags \<Rightarrow> db_builder \<Rightarrow> serve_fail + db_builder" where
  "serve_creds load fl eb =
     (if serveTLSCert fl \<noteq> '''' \<and> serveTLSKey fl \<noteq> ''''
      then (case load (serveTLSCert fl) (serveTLSKey fl) of None \<Rightarrow> Inl BadTls | Some k \<Rightarrow> Inr (SetCreds (Some (Secure k)) eb))
      else if serveInsecure fl then Inr (SetInsecure eb)
      else Inl NeedTls)"

definition serve_network :: "serve_flags \<Rightarrow> db_builder \<Rightarrow> db_builder" where
  "serve_network fl eb =
     (let eb = (if serveNodeID fl \<noteq> '''' then SetNodeID (serveNodeID fl) eb else eb);
          eb = SetGrpcPort (serveGRPCPort fl) (SetBindPort (serveBindPort fl) (SetBindAddr (serveBindAddr fl) eb));
          eb = (if serveAdvertiseAddr fl \<noteq> '''' then SetAdvertiseAddr (serveAdvertiseAddr fl) eb else eb);
          eb = (if serveSeeds fl \<noteq> '''' then SetSeedNodes (Split (CHR '','') (serveSeeds fl)) eb else eb)
      in SetReplicationFailureMode (serveReplicationFailureMode fl) (SetReplicationFactor (serveReplicationFactor fl) eb))"

definition serve_storage :: "serve_flags \<Rightarrow> db_builder \<Rightarrow> db_builder" where
  "serve_storage fl eb =
     (if serveVolatile fl then VolatileMode eb else SetSnpPath (serveSNPPath fl) (SetWalPath (serveWALPath fl) eb))"

definition serve_intervals :: "serve_flags \<Rightarrow> db_builder \<Rightarrow> serve_fail + db_builder" where
  "serve_intervals fl eb =
     (case ParseDuration (serveWALInterval fl) of
        None \<Rightarrow> Inl BadWalInterval
      | Some walInterval \<Rightarrow>
          (case ParseDuration (serveSNPInterval fl) of
             None \<Rightarrow> Inl BadSnpInterval
           | Some snpInterval \<Rightarrow>
               (case ParseDuration (serveGossipInterval fl) of
                  None \<Rightarrow> Inl BadGossipInterval
                | Some gossipInterval \<Rightarrow> Inr (SetGossipInterval gossipInterval (SetSnpInterval snpInterval (SetWalInterval walInterval eb))))))"

definition serve_builder :: "(string \<Rightarrow> string \<Rightarrow> nat option) \<Rightarrow> default_io \<Rightarrow> serve_flags \<Rightarrow> serve_fail + db_builder" where
  "serve_builder load dio fl =
     (case Default dio NewDatabaseBuilder of
        Inl p \<Rightarrow> Inl (EvictorPanic p)
      | Inr eb \<Rightarrow>
          (case serve_creds load fl eb of
             Inl e \<Rightarrow> Inl e
           | Inr eb \<Rightarrow>
               (case serve_intervals fl (serve_storage fl (serve_network fl eb)) of
                  Inl e \<Rightarrow> Inl e
                | Inr eb \<Rightarrow>
                    (let eb = SetWalSegments (serveWALSegments fl) (SetWalBufferSize (serveWALBufferSize fl) eb)
                     in Inr (if serveSingleNode fl then SetSingleNode eb else eb)))))"

text \<open>Making the log's segments panics on a negative number of them. The goroutines that sync the log and take snapshots first make a ticker, which panics unless its interval is
  positive, and a panic of a goroutine ends the program.\<close>

definition segments_panic :: "db_builder \<Rightarrow> bool" where
  "segments_panic eb \<longleftrightarrow> \<not> eb_disableWal eb \<and> eb_walSegments eb < 0"

definition tickers_panic :: "db_builder \<Rightarrow> bool" where
  "tickers_panic eb \<longleftrightarrow> \<not> eb_disableWal eb \<and> sint (eb_walInterval eb) \<le> 0 \<or> \<not> eb_disableSnapshot eb \<and> sint (eb_snpInterval eb) \<le> 0"

record serve_io =
  si_default :: default_io
  si_db :: db_io
  si_join :: "nat \<Rightarrow> bool"
  si_load :: "string \<Rightarrow> string \<Rightarrow> nat option"
  si_listen :: "string \<Rightarrow> bool"
  si_port :: "string \<Rightarrow> int option"

text \<open>The database sits alone in the servers' store.\<close>

record 't served_node =
  sn_db :: "'t db list"
  sn_grpc :: grpc_server
  sn_resp :: resp_server

definition runServe :: "'t env \<Rightarrow> codec \<Rightarrow> serve_io \<Rightarrow> serve_flags \<Rightarrow> serve_fail + 't served_node" where
  "runServe E C io fl =
     (case serve_builder (si_load io) (si_default io) fl of
        Inl e \<Rightarrow> Inl e
      | Inr eb \<Rightarrow>
          (case Build E C (si_db io) eb of
             Inl e \<Rightarrow> Inl (BuildFailed e)
           | Inr eng \<Rightarrow>
               if segments_panic eb then Inl SegmentsPanic
               else
                 (case db_Start (si_join io) eng of
                    Inl p \<Rightarrow> Inl (StartPanic p)
                  | Inr eng \<Rightarrow>
                      if tickers_panic eb then Inl TickerPanic
                      else
                        (let dbs = [eng]; grpcSrv = NewServer dbs 0; respSrv = NewRESPServer (''0.0.0.0:'' @ serveRESPPort fl) in
                         case grpc_Run (si_listen io) dbs grpcSrv of
                           Inl e \<Rightarrow> Inl (GrpcFailed e)
                         | Inr grpcSrv \<Rightarrow>
                             (case resp_Run (si_port io) respSrv of
                                (False, _) \<Rightarrow> Inl RespFailed
                              | (True, respSrv) \<Rightarrow> Inr \<lparr>sn_db = dbs, sn_grpc = grpcSrv, sn_resp = respSrv\<rparr>)))))"

definition serve_shutdown :: "bool \<Rightarrow> 't served_node \<Rightarrow> node_error + 't served_node" where
  "serve_shutdown shutdown n =
     (let respSrv = resp_Stop (sn_resp n) in
      map_sum id (\<lambda>(dbs, g). \<lparr>sn_db = dbs, sn_grpc = g, sn_resp = respSrv\<rparr>) (grpc_Stop shutdown (sn_db n, sn_grpc n)))"

definition oryx_serve ::
  "'t env \<Rightarrow> codec \<Rightarrow> pflag \<Rightarrow> (string \<Rightarrow> bool) \<Rightarrow> (string \<Rightarrow> string) \<Rightarrow> serve_io \<Rightarrow> serve_flags \<Rightarrow> serve_fail + 't served_node" where
  "oryx_serve E C P changed env io fl = runServe E C io (applyServeEnv P changed env fl)"

section \<open>What a running node is made of\<close>

lemma strEnv_keeps: "(\<And>v x. sel (set_flag v x) = sel x) \<Longrightarrow> sel (strEnv changed env flag var set_flag fl) = sel fl"
  by (simp add: strEnv_def Let_def)

lemma boolEnv_keeps: "(\<And>x. sel (set_flag x) = sel x) \<Longrightarrow> sel (boolEnv changed env flag var set_flag fl) = sel fl"
  by (simp add: boolEnv_def Let_def)

lemma env_insecure:
  "serveInsecure (applyServeEnv P changed env fl) \<longleftrightarrow> serveInsecure fl \<or> \<not> changed ''insecure'' \<and> env ''ORYX_INSECURE'' = ''true''"
proof -
  have "serveInsecure (boolEnv changed env ''insecure'' ''ORYX_INSECURE'' (serveInsecure_update (\<lambda>_. True)) x) \<longleftrightarrow>
      serveInsecure x \<or> \<not> changed ''insecure'' \<and> env ''ORYX_INSECURE'' = ''true''" for x by (simp add: boolEnv_def Let_def)
  then show ?thesis unfolding applyServeEnv_def Let_def
    by (simp add: strEnv_keeps [where sel = serveInsecure] boolEnv_keeps [where sel = serveInsecure])
qed

lemma env_volatile: "serveVolatile (applyServeEnv P changed env fl) = serveVolatile fl"
  unfolding applyServeEnv_def Let_def by (simp add: strEnv_keeps [where sel = serveVolatile] boolEnv_keeps [where sel = serveVolatile])

text \<open>The environment has no say where a flag was given.\<close>

lemma env_overruled: "(\<And>f. changed f) \<Longrightarrow> applyServeEnv P changed env fl = fl"
  by (simp add: applyServeEnv_def strEnv_def boolEnv_def)

lemma serve_network_built: "built eb \<Longrightarrow> built (serve_network fl eb)"
  unfolding serve_network_def Let_def
  by (auto intro!: eb_set_mode eb_set_factor eb_set_seeds eb_set_advertise eb_set_grpc eb_set_port eb_set_addr eb_set_node)

lemma serve_creds_built: "serve_creds load fl eb = Inr eb' \<Longrightarrow> built eb \<Longrightarrow> built eb'"
  by (auto simp: serve_creds_def intro: eb_set_creds eb_set_insecure split: if_splits option.splits)

lemma serve_intervals_built: "serve_intervals fl eb = Inr eb' \<Longrightarrow> built eb \<Longrightarrow> built eb'"
  by (auto simp: serve_intervals_def intro!: eb_set_gossip eb_set_snpInterval eb_set_walInterval split: option.splits)

lemma serve_storage_built: "built eb \<Longrightarrow> built (serve_storage fl eb)"
  by (auto simp: serve_storage_def intro!: eb_volatile eb_set_snpPath eb_set_walPath)

lemma serve_builder_steps:
  assumes "serve_builder load dio fl = Inr eb"
  obtains b0 b1 b2 where "Default dio NewDatabaseBuilder = Inr b0" "serve_creds load fl b0 = Inr b1"
    "serve_intervals fl (serve_storage fl (serve_network fl b1)) = Inr b2"
    "eb = (if serveSingleNode fl then SetSingleNode (SetWalSegments (serveWALSegments fl) (SetWalBufferSize (serveWALBufferSize fl) b2))
           else SetWalSegments (serveWALSegments fl) (SetWalBufferSize (serveWALBufferSize fl) b2))"
  using assms by (auto simp: serve_builder_def Let_def split: sum.splits)

lemma serve_builder_built:
  assumes "serve_builder load dio fl = Inr eb"
  shows "built eb"
proof -
  obtain b0 b1 b2 where s: "Default dio NewDatabaseBuilder = Inr b0" "serve_creds load fl b0 = Inr b1"
    "serve_intervals fl (serve_storage fl (serve_network fl b1)) = Inr b2"
    "eb = (if serveSingleNode fl then SetSingleNode (SetWalSegments (serveWALSegments fl) (SetWalBufferSize (serveWALBufferSize fl) b2))
           else SetWalSegments (serveWALSegments fl) (SetWalBufferSize (serveWALBufferSize fl) b2))" by (rule serve_builder_steps [OF assms])
  have "built b0" using eb_default [OF eb_new s(1)] .
  then have "built b2" by (intro serve_intervals_built [OF s(3)] serve_storage_built serve_network_built serve_creds_built [OF s(2)])
  then show ?thesis by (auto simp: s(4) intro!: eb_set_single eb_set_walSegments eb_set_walBufferSize)
qed

text \<open>The cluster configuration that flags ask for.\<close>

definition flags_config :: "serve_flags \<Rightarrow> mesh_config \<Rightarrow> bool" where
  "flags_config fl cfg \<longleftrightarrow> (serveNodeID fl \<noteq> '''' \<longrightarrow> mc_NodeID cfg = serveNodeID fl) \<and> BindAddr cfg = serveBindAddr fl \<and> BindPort cfg = serveBindPort fl \<and>
     GrpcPort cfg = serveGRPCPort fl \<and> AdvertiseAddr cfg = serveAdvertiseAddr fl \<and>
     SeedNodes cfg = (if serveSeeds fl = '''' then [] else Split (CHR '','') (serveSeeds fl)) \<and>
     ReplicationFactor cfg = max 1 (serveReplicationFactor fl) \<and> ReplicationFailureMode cfg = serveReplicationFailureMode fl \<and>
     SingleNode cfg = serveSingleNode fl"

lemma serve_creds_eq:
  assumes "serve_creds load fl eb = Inr eb'"
  shows "eb' = eb\<lparr>eb_creds := (if serveTLSCert fl \<noteq> '''' \<and> serveTLSKey fl \<noteq> '''' then map_option Secure (load (serveTLSCert fl) (serveTLSKey fl)) else Some Insecure)\<rparr>"
    and "serveTLSCert fl = '''' \<or> serveTLSKey fl = '''' \<Longrightarrow> serveInsecure fl"
  using assms by (auto simp: serve_creds_def SetCreds_def SetInsecure_def split: if_splits option.splits)

lemma serve_intervals_eq:
  assumes "serve_intervals fl eb = Inr eb'"
  obtains w sn g where "ParseDuration (serveWALInterval fl) = Some w" "ParseDuration (serveSNPInterval fl) = Some sn"
    "ParseDuration (serveGossipInterval fl) = Some g" "eb' = eb\<lparr>eb_walInterval := w, eb_snpInterval := sn, eb_gossipInterval := g\<rparr>"
  using assms by (auto simp: serve_intervals_def SetGossipInterval_def SetSnpInterval_def SetWalInterval_def split: option.splits)

lemma serve_network_eq: "serve_network fl eb = eb\<lparr>eb_mesh := eb_mesh (serve_network fl eb)\<rparr>"
  by (simp add: serve_network_def eb_defs Let_def)

lemma network_config:
  assumes "eb_mesh eb = default_mesh dio"
  shows "flags_config fl ((eb_mesh (serve_network fl eb))\<lparr>SingleNode := serveSingleNode fl\<rparr>)" "\<not> SingleNode (eb_mesh (serve_network fl eb))"
  using assms by (simp_all add: serve_network_def eb_defs cb_defs default_mesh_def NewConfigBuilder_def flags_config_def Let_def max_def)

lemma serve_builder_fields:
  assumes "serve_builder load dio fl = Inr eb"
  shows "flags_config fl (eb_mesh eb)"
    and "ParseDuration (serveWALInterval fl) = Some (eb_walInterval eb)" "ParseDuration (serveSNPInterval fl) = Some (eb_snpInterval eb)"
      "ParseDuration (serveGossipInterval fl) = Some (eb_gossipInterval eb)"
    and "eb_disableWal eb = serveVolatile fl" "eb_disableSnapshot eb = serveVolatile fl" "eb_walSegments eb = serveWALSegments fl"
    and "eb_creds eb = (if serveTLSCert fl \<noteq> '''' \<and> serveTLSKey fl \<noteq> '''' then map_option Secure (load (serveTLSCert fl) (serveTLSKey fl)) else Some Insecure)"
    and "serveTLSCert fl = '''' \<or> serveTLSKey fl = '''' \<Longrightarrow> serveInsecure fl"
proof -
  obtain b0 b1 b2 where s: "Default dio NewDatabaseBuilder = Inr b0" "serve_creds load fl b0 = Inr b1"
    "serve_intervals fl (serve_storage fl (serve_network fl b1)) = Inr b2"
    "eb = (if serveSingleNode fl then SetSingleNode (SetWalSegments (serveWALSegments fl) (SetWalBufferSize (serveWALBufferSize fl) b2))
           else SetWalSegments (serveWALSegments fl) (SetWalBufferSize (serveWALBufferSize fl) b2))" by (rule serve_builder_steps [OF assms])
  note b1 = serve_creds_eq(1) [OF s(2)]
  have b0: "eb_mesh b1 = default_mesh dio" "\<not> eb_disableWal b1" "\<not> eb_disableSnapshot b1"
    using Default_eq [of dio NewDatabaseBuilder] s(1) by (auto simp: b1 NewDatabaseBuilder_def)
  obtain n where n: "serve_network fl b1 = b1\<lparr>eb_mesh := n\<rparr>" "flags_config fl (n\<lparr>SingleNode := serveSingleNode fl\<rparr>)" "\<not> SingleNode n"
    using serve_network_eq network_config [OF b0(1)] by blast
  obtain w sn g where i: "ParseDuration (serveWALInterval fl) = Some w" "ParseDuration (serveSNPInterval fl) = Some sn"
    "ParseDuration (serveGossipInterval fl) = Some g"
    "b2 = (serve_storage fl (serve_network fl b1))\<lparr>eb_walInterval := w, eb_snpInterval := sn, eb_gossipInterval := g\<rparr>"
    by (rule serve_intervals_eq [OF s(3)])
  note e = s(4) [unfolded i(4) n(1)]
  show "flags_config fl (eb_mesh eb)" using n(2,3) by (cases "serveSingleNode fl") (simp_all add: e serve_storage_def eb_defs cb_SingleNode_def flags_config_def)
  show "ParseDuration (serveWALInterval fl) = Some (eb_walInterval eb)" "ParseDuration (serveSNPInterval fl) = Some (eb_snpInterval eb)"
    "ParseDuration (serveGossipInterval fl) = Some (eb_gossipInterval eb)" "eb_disableWal eb = serveVolatile fl" "eb_disableSnapshot eb = serveVolatile fl"
    "eb_walSegments eb = serveWALSegments fl" using i(1-3) b0(2,3) by (simp_all add: e serve_storage_def eb_defs)
  show "eb_creds eb = (if serveTLSCert fl \<noteq> '''' \<and> serveTLSKey fl \<noteq> '''' then map_option Secure (load (serveTLSCert fl) (serveTLSKey fl)) else Some Insecure)"
    by (simp add: e serve_storage_def eb_defs b1)
  show "serveTLSCert fl = '''' \<or> serveTLSKey fl = '''' \<Longrightarrow> serveInsecure fl" by (rule serve_creds_eq(2) [OF s(2)])
qed

lemma runServe_steps:
  assumes "runServe E C io fl = Inr n"
  obtains eb d d' where "serve_builder (si_load io) (si_default io) fl = Inr eb" "Build E C (si_db io) eb = Inr d" "\<not> segments_panic eb"
    "db_Start (si_join io) d = Inr d'" "\<not> tickers_panic eb" "sn_db n = [d']" "grpc_Run (si_listen io) [d'] (NewServer [d'] 0) = Inr (sn_grpc n)"
    "resp_Run (si_port io) (NewRESPServer (''0.0.0.0:'' @ serveRESPPort fl)) = (True, sn_resp n)"
  using assms by (auto simp: runServe_def Let_def split: sum.splits if_splits prod.splits bool.splits)

lemma grpc_Run_serving:
  assumes "grpc_Run listen [d] (NewServer [d] 0) = Inr g"
  shows "\<exists>a. db_Addr d = Inr a \<and> gs_serving g = Some a" and "gs_creds g = (if db_Creds d = Some Insecure then None else db_Creds d)"
  using assms by (auto simp: grpc_Run_def Listen_def Serve_def NewServer_def split: sum.splits if_splits option.splits)

lemma resp_Run_addr: "resp_Run listen s = (ok, s') \<Longrightarrow> rs_addr s' = rs_addr s"
  by (auto simp: resp_Run_def split: option.splits)

lemma db_Addr_config: "db_Addr d = Inr a \<Longrightarrow> a = BindAddr (db_config d) @ '':'' @ fmt_int (GrpcPort (db_config d))"
  by (cases d) (auto simp: node_Addr_def Let_def split: if_splits)

text \<open>A database that starts has a positive gossip interval, if it is one of a cluster.\<close>

lemma started_interval:
  assumes "radix_laws E" and "built eb" and "Build E C io eb = Inr d" and "db_Start join d = Inr d'" and "\<not> SingleNode (eb_mesh eb)"
  shows "0 < sint (eb_gossipInterval eb)"
proof -
  obtain n c where d: "d = ClusterDb n c" using Build_config [OF assms(3)] assms(5) by (cases d) auto
  have n: "node_wf n" "nd_interval n = eb_gossipInterval eb" "\<not> nd_started n" using Build_wf [OF assms(1-3)] by (auto simp: d db_wf_def)
  then show ?thesis using assms(4) Start_outcome [OF n(1,3), of join] by (auto simp: d split: if_splits)
qed

text \<open>Where a node serves, and how.\<close>

lemma served_at:
  assumes "radix_laws E" and "runServe E C io fl = Inr n"
  shows "gs_serving (sn_grpc n) = Some (serveBindAddr fl @ '':'' @ fmt_int (serveGRPCPort fl))"
    and "gs_creds (sn_grpc n) \<noteq> None \<longleftrightarrow> serveTLSCert fl \<noteq> '''' \<and> serveTLSKey fl \<noteq> ''''"
proof -
  obtain eb d d' where s: "serve_builder (si_load io) (si_default io) fl = Inr eb" "Build E C (si_db io) eb = Inr d"
    "db_Start (si_join io) d = Inr d'" "grpc_Run (si_listen io) [d'] (NewServer [d'] 0) = Inr (sn_grpc n)"
    by (rule runServe_steps [OF assms(2)])
  note f = serve_builder_fields [OF s(1)] and c = Build_config [OF s(2)]
  have cr: "eb_creds eb \<noteq> None" using Build_wf(1) [OF assms(1) serve_builder_built [OF s(1)] s(2)] c by (simp add: db_wf_def)
  show "gs_serving (sn_grpc n) = Some (serveBindAddr fl @ '':'' @ fmt_int (serveGRPCPort fl))"
    using grpc_Run_serving(1) [OF s(4)] db_Start_started [OF s(3)] db_Addr_config [of d] c f(1) by (auto simp: flags_config_def)
  show "gs_creds (sn_grpc n) \<noteq> None \<longleftrightarrow> serveTLSCert fl \<noteq> '''' \<and> serveTLSKey fl \<noteq> ''''"
    using grpc_Run_serving(2) [OF s(4)] db_Start_started [OF s(3)] c f(8) cr by auto
qed

text \<open>C17. What a node that \<open>oryx serve\<close> runs is made of. Its database is well formed and was started; its cluster configuration is what the
  flags, and the environment where a flag is not given, ask for; at least one replica is kept; the intervals parsed and those in use are positive; the
  gRPC server serves at the bind address, with certificates exactly if both files were given, and in plain text only if
  that was asked for by flag or environment. The RESP server is on all interfaces, in plain text in any case.\<close>

theorem serve_runs:
  assumes "radix_laws E" and "oryx_serve E C P changed env io fl = Inr n" and "fl' = applyServeEnv P changed env fl"
  shows "\<exists>d d' w sn g. db_wf E d \<and> db_Start (si_join io) d = Inr d' \<and> sn_db n = [d'] \<and> flags_config fl' (db_config d) \<and>
    ParseDuration (serveWALInterval fl') = Some w \<and> ParseDuration (serveSNPInterval fl') = Some sn \<and> ParseDuration (serveGossipInterval fl') = Some g \<and>
    (serveVolatile fl \<or> 0 < sint w \<and> 0 < sint sn \<and> 0 \<le> serveWALSegments fl') \<and> (serveSingleNode fl' \<or> 0 < sint g) \<and>
    gs_serving (sn_grpc n) = Some (serveBindAddr fl' @ '':'' @ fmt_int (serveGRPCPort fl')) \<and>
    (gs_creds (sn_grpc n) \<noteq> None \<longleftrightarrow> serveTLSCert fl' \<noteq> '''' \<and> serveTLSKey fl' \<noteq> '''') \<and>
    (gs_creds (sn_grpc n) = None \<longrightarrow> serveInsecure fl \<or> \<not> changed ''insecure'' \<and> env ''ORYX_INSECURE'' = ''true'') \<and>
    rs_addr (sn_resp n) = ''0.0.0.0:'' @ serveRESPPort fl'"
proof -
  have r: "runServe E C io fl' = Inr n" using assms(2,3) by (simp add: oryx_serve_def)
  obtain eb d d' where s: "serve_builder (si_load io) (si_default io) fl' = Inr eb" "Build E C (si_db io) eb = Inr d" "\<not> segments_panic eb"
    "db_Start (si_join io) d = Inr d'" "\<not> tickers_panic eb" "sn_db n = [d']" "grpc_Run (si_listen io) [d'] (NewServer [d'] 0) = Inr (sn_grpc n)"
    "resp_Run (si_port io) (NewRESPServer (''0.0.0.0:'' @ serveRESPPort fl')) = (True, sn_resp n)" by (rule runServe_steps [OF r])
  note b = serve_builder_built [OF s(1)] and f = serve_builder_fields [OF s(1)] and c = Build_config [OF s(2)]
  note w = Build_wf(1) [OF assms(1) b s(2)]
  have v: "serveVolatile fl' = serveVolatile fl" by (simp add: assms(3) env_volatile)
  note x1 = served_at [OF assms(1) r]
  have x3: "serveTLSCert fl' = '''' \<or> serveTLSKey fl' = '''' \<Longrightarrow> serveInsecure fl \<or> \<not> changed ''insecure'' \<and> env ''ORYX_INSECURE'' = ''true''"
    using f(9) by (simp add: assms(3) env_insecure)
  have x4: "serveSingleNode fl' \<or> 0 < sint (eb_gossipInterval eb)"
    using started_interval [OF assms(1) b s(2,4)] f(1) by (auto simp: flags_config_def)
  have x5: "serveVolatile fl \<or> 0 < sint (eb_walInterval eb) \<and> 0 < sint (eb_snpInterval eb) \<and> 0 \<le> serveWALSegments fl'"
    using s(3,5) f(5-7) v by (auto simp: segments_panic_def tickers_panic_def)
  have x6: "rs_addr (sn_resp n) = ''0.0.0.0:'' @ serveRESPPort fl'"
    using resp_Run_addr [OF s(8)] by (simp add: NewRESPServer_def)
  have x7: "flags_config fl' (db_config d)" using c f(1) by simp
  have x8: "gs_creds (sn_grpc n) = None \<longrightarrow> serveInsecure fl \<or> \<not> changed ''insecure'' \<and> env ''ORYX_INSECURE'' = ''true''"
    using x1(2) x3 by blast
  show ?thesis by (intro exI conjI) (rule w s(4,6) x7 f(2-4) x5 x4 x1 x8 x6)+
qed

definition demo_serve_flags :: serve_flags where
  "demo_serve_flags = serve_defaults\<lparr>serveVolatile := True, serveSingleNode := True\<rparr>"

definition demo_env_vars :: "string \<Rightarrow> string" where
  "demo_env_vars v = (if v = ''ORYX_INSECURE'' then ''true'' else '''')"

definition demo_serve_io :: serve_io where
  "demo_serve_io = \<lparr>si_default = \<lparr>di_random = ''r'', di_picked = (\<lambda>_. None), di_free = (\<lambda>_. True)\<rparr>, si_db = demo_db_io, si_join = (\<lambda>_. True),
     si_load = (\<lambda>_ _. None), si_listen = (\<lambda>_. True), si_port = (\<lambda>_. None)\<rparr>"

lemma demo_flags_applied:
  "applyServeEnv P (\<lambda>f. f \<in> {''single-node'', ''volatile''}) demo_env_vars demo_serve_flags = demo_serve_flags\<lparr>serveInsecure := True\<rparr>"
  by (simp add: applyServeEnv_def strEnv_def boolEnv_def demo_env_vars_def Let_def)

lemma default_intervals:
  "ParseDuration ''500ms'' = Some 500000000" "ParseDuration ''5m'' = Some 300000000000" "ParseDuration ''10s'' = Some 10000000000"
proof -
  have i: "itoa 500 = ''500''" "itoa 5 = ''5''" "itoa 10 = ''10''" by code_simp+
  have u: "unitMap ''ms'' = Some 1000000" "unitMap ''m'' = Some 60000000000" "unitMap ''s'' = Some 1000000000" by (simp_all add: unitMap_def)
  show "ParseDuration ''500ms'' = Some 500000000" "ParseDuration ''5m'' = Some 300000000000" "ParseDuration ''10s'' = Some 10000000000"
    using ParseDuration_plain [OF u(1), of 500] ParseDuration_plain [OF u(2), of 5] ParseDuration_plain [OF u(3), of 10] by (simp_all add: i)
qed

lemma demo_serve_starts:
  obtains n where "oryx_serve demo_env demo_codec P (\<lambda>f. f \<in> {''single-node'', ''volatile''}) demo_env_vars demo_serve_io demo_serve_flags = Inr n"
proof -
  let ?fl = "demo_serve_flags\<lparr>serveInsecure := True\<rparr>"
  obtain l where d: "Default (si_default demo_serve_io) NewDatabaseBuilder = Inr (NewDatabaseBuilder\<lparr>eb_walInterval := 500000000, eb_snpInterval := 300000000000,
      eb_walBufferSize := 64 * 1024, eb_walSegments := 16, eb_evt := Some l, eb_clock := Some NewClock, eb_gossipInterval := 10000000000,
      eb_mesh := default_mesh (si_default demo_serve_io), eb_walPath := ''data/wal'', eb_snpPath := ''data/snapshot.bin''\<rparr>)"
    using Default_eq [of "si_default demo_serve_io" NewDatabaseBuilder] by blast
  have f: "serveTLSCert ?fl = ''''" "serveInsecure ?fl" "serveVolatile ?fl" "serveSingleNode ?fl" "serveWALInterval ?fl = ''500ms''" "serveSNPInterval ?fl = ''5m''"
    "serveGossipInterval ?fl = ''10s''" "serveWALBufferSize ?fl = 65536" "serveWALSegments ?fl = 16" "serveBindAddr ?fl = ''127.0.0.1''" "serveRESPPort ?fl = ''6379''"
    by (simp_all add: demo_serve_flags_def serve_defaults_def)
  obtain eb where e: "serve_builder (si_load demo_serve_io) (si_default demo_serve_io) ?fl = Inr eb"
    by (simp add: serve_builder_def d serve_creds_def serve_intervals_def f default_intervals Let_def)
  have g: "eb_walPath eb = ''nop''" "eb_snpPath eb = ''nop''" "eb_walBufferSize eb = 65536" "eb_clock eb = Some NewClock"
    using e by (auto simp: serve_builder_def d serve_creds_def serve_intervals_def f default_intervals Let_def serve_storage_def serve_network_def eb_defs)
  note h = serve_builder_fields [OF e]
  obtain d where d: "Build demo_env demo_codec (si_db demo_serve_io) eb = Inr d"
    using g h f by (simp add: Build_def newDatabase_def NewEngine_def cb_Build_def flags_config_def default_intervals Let_def split: prod.split)
  obtain eng cfg c where "d = SingleDb eng cfg c" using Build_config [OF d] h(1) f(4) by (auto simp: flags_config_def)
  then obtain d' where s: "db_Start (si_join demo_serve_io) d = Inr d'" by simp
  then obtain a where "db_Addr d' = Inr a"
    using db_Start_started [OF s] Build_wf(1) [OF radix_laws_demo serve_builder_built [OF e] d] by (auto simp: db_wf_def)
  then obtain gs where "grpc_Run (si_listen demo_serve_io) [d'] (NewServer [d'] 0) = Inr gs"
    by (simp add: grpc_Run_def Listen_def Serve_def NewServer_def demo_serve_io_def)
  moreover obtain rs where "resp_Run (si_port demo_serve_io) (NewRESPServer (''0.0.0.0:'' @ serveRESPPort ?fl)) = (True, rs)"
    unfolding f(11) by (simp add: resp_Run_def NewRESPServer_def HasSuffix_def)
  moreover have "\<not> segments_panic eb" "\<not> tickers_panic eb" using h(5,6) f(3) by (simp_all add: segments_panic_def tickers_panic_def)
  ultimately have "\<exists>n. runServe demo_env demo_codec demo_serve_io ?fl = Inr n" using e d s by (simp add: runServe_def Let_def)
  then show thesis using that unfolding oryx_serve_def demo_flags_applied by blast
qed

theorem serve_runs_witness:
  "\<exists>n :: (string \<times> nat) list served_node.
     oryx_serve demo_env demo_codec \<lparr>pf_int = \<lambda>_. 0, pf_uint32 = \<lambda>_. 0\<rparr> (\<lambda>f. f \<in> {''single-node'', ''volatile''}) demo_env_vars demo_serve_io demo_serve_flags = Inr n \<and>
     gs_serving (sn_grpc n) = Some (''127.0.0.1:'' @ fmt_int 50051) \<and> gs_creds (sn_grpc n) = None"
proof -
  let ?P = "\<lparr>pf_int = \<lambda>_. 0, pf_uint32 = \<lambda>_. 0\<rparr>"
  obtain n where n: "oryx_serve demo_env demo_codec ?P (\<lambda>f. f \<in> {''single-node'', ''volatile''}) demo_env_vars demo_serve_io demo_serve_flags = Inr n"
    by (rule demo_serve_starts)
  have f: "serveBindAddr (demo_serve_flags\<lparr>serveInsecure := True\<rparr>) = ''127.0.0.1''" "serveGRPCPort (demo_serve_flags\<lparr>serveInsecure := True\<rparr>) = 50051"
    "serveTLSCert (demo_serve_flags\<lparr>serveInsecure := True\<rparr>) = ''''" by (simp_all add: demo_serve_flags_def serve_defaults_def)
  from serve_runs [OF radix_laws_demo n demo_flags_applied [symmetric]] n show ?thesis unfolding f by auto
qed

end
