(* ===== verification/Cluster.thy ===== *)
theory Cluster
  imports Server
begin

text \<open>
  The helper that runs a whole cluster in one process (\<open>src/server/cluster.go\<close>): the counter that hands out base ports to clusters
  made concurrently, the search for a window of free ports, and making, starting, extending and stopping a cluster. What the operating
  system and the membership library answer is an argument.

  The lemmas show that the ports handed out are those of a sequential run and valid, that the nodes of a cluster that is made are
  well formed, differ in identity, ports and (below a data directory) in paths, and join the first; and what stopping leaves.
\<close>

section \<open>Ports\<close>

definition fastTestGossipInterval :: i64 where
  "fastTestGossipInterval = 200 * 1000000"

type_synonym i32 = "32 word"

definition next_base :: "int \<Rightarrow> i32 \<Rightarrow> i32" where
  "next_base nodeCount current =
     (let stride = word_of_int (nodeCount * 20); next = current + stride in if sint next \<ge> 60000 then 18000 + stride else next)"

text \<open>\<open>free p i\<close>: whether port \<open>p + i\<close> can be listened on when the window at \<open>p\<close> is tried.\<close>

definition window_free :: "(int \<Rightarrow> int \<Rightarrow> bool) \<Rightarrow> int \<Rightarrow> int \<Rightarrow> bool" where
  "window_free free p nodeCount = list_all (\<lambda>i. free p (int i)) [0..<nat (nodeCount * 2)]"

fun base_scan :: "(int \<Rightarrow> int \<Rightarrow> bool) \<Rightarrow> nat \<Rightarrow> int \<Rightarrow> int \<Rightarrow> int \<Rightarrow> int" where
  "base_scan free 0 p nodeCount startPort = startPort"
| "base_scan free (Suc k) p nodeCount startPort =
     (if window_free free p nodeCount then p else base_scan free k (p + 2) nodeCount startPort)"

text \<open>The loop takes every second port of the 500 from \<open>startPort\<close> on: 250 turns.\<close>

definition findAvailableBasePort :: "(int \<Rightarrow> int \<Rightarrow> bool) \<Rightarrow> int \<Rightarrow> int \<Rightarrow> int" where
  "findAvailableBasePort free startPort nodeCount = base_scan free 250 startPort nodeCount startPort"

text \<open>Clusters made concurrently share the counter: a caller loads it and swaps it if it has not changed.\<close>

datatype port_pc = PortIdle | PortLoaded int i32 | PortGot int i32

record port_sys =
  nextBasePort :: i32
  port_pcs :: "nat \<Rightarrow> port_pc"
  port_log :: "(int \<times> i32) list"

inductive port_step :: "port_sys \<Rightarrow> port_sys \<Rightarrow> bool" where
  port_load: "port_pcs s i = PortIdle \<Longrightarrow> port_step s (s\<lparr>port_pcs := (port_pcs s)(i := PortLoaded n (nextBasePort s))\<rparr>)"
| port_swap: "port_pcs s i = PortLoaded n cur \<Longrightarrow> nextBasePort s = cur \<Longrightarrow>
    port_step s (s\<lparr>nextBasePort := next_base n cur, port_pcs := (port_pcs s)(i := PortGot n cur), port_log := port_log s @ [(n, cur)]\<rparr>)"
| port_retry: "port_pcs s i = PortLoaded n cur \<Longrightarrow> nextBasePort s \<noteq> cur \<Longrightarrow>
    port_step s (s\<lparr>port_pcs := (port_pcs s)(i := PortLoaded n (nextBasePort s))\<rparr>)"
| port_return: "port_pcs s i = PortGot n cur \<Longrightarrow> port_step s (s\<lparr>port_pcs := (port_pcs s)(i := PortIdle)\<rparr>)"

definition port_start :: port_sys where
  "port_start = \<lparr>nextBasePort = 18000, port_pcs = (\<lambda>_. PortIdle), port_log = []\<rparr>"

text \<open>The same for one caller at a time.\<close>

fun seq_bases :: "i32 \<Rightarrow> int list \<Rightarrow> i32 list" where
  "seq_bases b [] = []"
| "seq_bases b (n # ns) = b # seq_bases (next_base n b) ns"

lemma seq_bases_snoc: "seq_bases b (ns @ [n]) = seq_bases b ns @ [fold next_base ns b]"
  by (induction ns arbitrary: b) simp_all

lemma port_linear:
  assumes "port_step\<^sup>*\<^sup>* port_start s"
  shows "map snd (port_log s) = seq_bases 18000 (map fst (port_log s)) \<and> nextBasePort s = fold next_base (map fst (port_log s)) 18000"
  using assms
proof (induction rule: rtranclp_induct)
  case (step y z)
  from step.hyps(2) step.IH show ?case by (induction rule: port_step.induct) (auto simp: seq_bases_snoc)
qed (simp add: port_start_def)

definition base_ok :: "i32 \<Rightarrow> bool" where
  "base_ok b \<longleftrightarrow> 18000 \<le> sint b \<and> sint b < 60000"

lemma sint_add_small:
  assumes "- 2147483648 \<le> sint (a :: i32) + x" "sint a + x < 2147483648"
  shows "sint (a + word_of_int x) = sint a + x"
proof -
  have "sint (a + word_of_int x) = sint (word_of_int (sint a + x) :: i32)" by simp
  also have "\<dots> = sint a + x" using assms unfolding signed_of_int by (simp add: signed_take_bit_int_eq_self)
  finally show ?thesis .
qed

lemma next_base_ok:
  assumes "0 \<le> n" "n \<le> 2099" "base_ok b"
  shows "base_ok (next_base n b)"
proof -
  have "sint (b + word_of_int (n * 20)) = sint b + n * 20" by (rule sint_add_small) (use assms in \<open>auto simp: base_ok_def\<close>)
  moreover have "sint (18000 + word_of_int (n * 20) :: i32) = 18000 + n * 20"
    using sint_add_small [of 18000 "n * 20"] assms(1,2) by simp
  ultimately show ?thesis using assms by (simp add: next_base_def base_ok_def Let_def del: of_int_mult)
qed

lemma seq_bases_ok: "list_all (\<lambda>n. 0 \<le> n \<and> n \<le> 2099) ns \<Longrightarrow> base_ok b \<Longrightarrow> list_all base_ok (seq_bases b ns)"
  by (induction ns arbitrary: b) (auto intro: next_base_ok)

lemma base_scan_range: "base_scan free k p n st = st \<or> p \<le> base_scan free k p n st \<and> base_scan free k p n st < p + 2 * int k"
proof (induction k arbitrary: p)
  case (Suc k)
  show ?case using Suc.IH [of "p + 2"] by auto
qed simp

lemma find_range: "st \<le> findAvailableBasePort free st n \<and> findAvailableBasePort free st n < st + 500"
  using base_scan_range [of free 250 st n st] by (auto simp: findAvailableBasePort_def)

lemma find_bounds:
  assumes "base_ok b" and "n \<le> 2099"
  shows "18000 \<le> findAvailableBasePort free (sint b) n" "findAvailableBasePort free (sint b) n + 2 * n \<le> 65536"
  using assms find_range [of "sint b" free n] by (simp_all add: base_ok_def)

text \<open>A base other than the first tried is the start of a window found free.\<close>

lemma base_scan_free:
  "base_scan free k p n st = q \<Longrightarrow> q \<noteq> st \<Longrightarrow> window_free free q n"
  by (induction k arbitrary: p) (auto split: if_splits)

text \<open>C21. The ports of clusters made concurrently. In every interleaving of the callers, the bases handed out are those of a sequential
  run in the order of the swaps; and if the clusters have at most 2099 nodes, every port that a cluster is then given lies between 18000
  and 65535, whatever ports are found taken.\<close>

theorem cluster_ports:
  assumes "port_step\<^sup>*\<^sup>* port_start s"
  shows "map snd (port_log s) = seq_bases 18000 (map fst (port_log s)) \<and>
    (list_all (\<lambda>(n, b). 0 \<le> n \<and> n \<le> 2099) (port_log s) \<longrightarrow>
     list_all (\<lambda>(n, b). \<forall>free. 18000 \<le> findAvailableBasePort free (sint b) n \<and> findAvailableBasePort free (sint b) n + 2 * n \<le> 65536) (port_log s))"
proof (intro conjI impI)
  note l = port_linear [OF assms]
  show "map snd (port_log s) = seq_bases 18000 (map fst (port_log s))" using l ..
  assume n: "list_all (\<lambda>(n, b). 0 \<le> n \<and> n \<le> 2099) (port_log s)"
  then have "list_all (\<lambda>n. 0 \<le> n \<and> n \<le> 2099) (map fst (port_log s))" by (auto simp: list_all_iff)
  then have "list_all base_ok (map snd (port_log s))" using seq_bases_ok [of _ 18000] l by (simp add: base_ok_def)
  then show "list_all (\<lambda>(n, b). \<forall>free. 18000 \<le> findAvailableBasePort free (sint b) n \<and> findAvailableBasePort free (sint b) n + 2 * n \<le> 65536) (port_log s)"
    using n by (fastforce simp: list_all_iff intro: find_bounds)
qed

theorem cluster_ports_witness:
  "\<exists>s. port_step\<^sup>*\<^sup>* port_start s \<and> port_log s = [(3, 18000), (2, 18060)] \<and>
     list_all (\<lambda>(n, b). \<forall>free. 18000 \<le> findAvailableBasePort free (sint b) n \<and> findAvailableBasePort free (sint b) n + 2 * n \<le> 65536) (port_log s)"
proof -
  let ?a = "port_start\<lparr>port_pcs := (port_pcs port_start)(0 := PortLoaded 3 18000)\<rparr>"
  let ?b = "?a\<lparr>port_pcs := (port_pcs ?a)(1 := PortLoaded 2 18000)\<rparr>"
  let ?c = "?b\<lparr>nextBasePort := 18060, port_pcs := (port_pcs ?b)(0 := PortGot 3 18000), port_log := [(3, 18000)]\<rparr>"
  let ?d = "?c\<lparr>port_pcs := (port_pcs ?c)(1 := PortLoaded 2 18060)\<rparr>"
  let ?e = "?d\<lparr>nextBasePort := next_base 2 18060, port_pcs := (port_pcs ?d)(1 := PortGot 2 18060), port_log := [(3, 18000), (2, 18060)]\<rparr>"
  have n: "next_base 3 18000 = 18060" by (simp add: next_base_def)
  have "port_step port_start ?a" using port_load [of port_start 0 3] by (simp add: port_start_def)
  moreover have "port_step ?a ?b" using port_load [of ?a 1 2] by (simp add: port_start_def)
  moreover have "port_step ?b ?c" using port_swap [of ?b 0 3 18000] by (simp add: port_start_def n)
  moreover have "port_step ?c ?d" using port_retry [of ?c 1 2 18000] by (simp add: port_start_def)
  moreover have "port_step ?d ?e" using port_swap [of ?d 1 2 18060] by (simp add: port_start_def)
  ultimately have s: "port_step\<^sup>*\<^sup>* port_start ?e" by (meson rtranclp.intros)
  show ?thesis using s cluster_ports [OF s] by (intro exI [of _ ?e] conjI) simp_all
qed

section \<open>The cluster\<close>

text \<open>The servers refer to the databases by their place.\<close>

record 't cluster =
  cu_Databases :: "'t db list"
  cu_Servers :: "grpc_server list"

datatype cluster_error = ClEvict evict_panic | ClBuild build_error | ClPanic node_error | ClServe serve_error | ClServeLater

text \<open>What the system answers, node by node: for the defaults and the database, the gossip port bound by the first, whether leaving the cluster and
  joining it succeed, listening, and whether a server's error has arrived.\<close>

record cluster_io =
  ci_default :: "nat \<Rightarrow> default_io"
  ci_db :: "nat \<Rightarrow> db_io"
  ci_bound :: int
  ci_shutdown :: "nat \<Rightarrow> bool"
  ci_join :: "nat \<Rightarrow> nat \<Rightarrow> bool"
  ci_listen :: "nat \<Rightarrow> string \<Rightarrow> bool"
  ci_failed :: "nat \<Rightarrow> bool"

fun servers_Stop :: "(nat \<Rightarrow> bool) \<Rightarrow> grpc_server list \<Rightarrow> 't db list \<Rightarrow> node_error + 't db list \<times> grpc_server list" where
  "servers_Stop shutdown [] dbs = Inr (dbs, [])"
| "servers_Stop shutdown (s # ss) dbs =
     (case grpc_Stop (shutdown (gs_db s)) (dbs, s) of
        Inl e \<Rightarrow> Inl e
      | Inr (dbs', s') \<Rightarrow> map_sum id (\<lambda>(dbs'', ss'). (dbs'', s' # ss')) (servers_Stop shutdown ss dbs'))"

fun databases_Stop :: "(nat \<Rightarrow> bool) \<Rightarrow> nat list \<Rightarrow> 't db list \<Rightarrow> node_error + 't db list" where
  "databases_Stop shutdown [] dbs = Inr dbs"
| "databases_Stop shutdown (i # is) dbs =
     (case stop_db (shutdown i) i dbs of Inl e \<Rightarrow> Inl e | Inr dbs' \<Rightarrow> databases_Stop shutdown is dbs')"

definition cluster_Stop :: "(nat \<Rightarrow> bool) \<Rightarrow> 't cluster \<Rightarrow> node_error + 't cluster" where
  "cluster_Stop shutdown c =
     (case servers_Stop shutdown (cu_Servers c) (cu_Databases c) of
        Inl e \<Rightarrow> Inl e
      | Inr (dbs, ss) \<Rightarrow>
          map_sum id (\<lambda>dbs'. \<lparr>cu_Databases = dbs', cu_Servers = ss\<rparr>) (databases_Stop shutdown [0..<length dbs] dbs))"

fun servers_HardStop :: "(nat \<Rightarrow> bool) \<Rightarrow> grpc_server list \<Rightarrow> 't db list \<Rightarrow> node_error + 't db list \<times> grpc_server list" where
  "servers_HardStop shutdown [] dbs = Inr (dbs, [])"
| "servers_HardStop shutdown (s # ss) dbs =
     (case grpc_HardStop (shutdown (gs_db s)) (dbs, s) of
        Inl e \<Rightarrow> Inl e
      | Inr (dbs', s') \<Rightarrow> map_sum id (\<lambda>(dbs'', ss'). (dbs'', s' # ss')) (servers_HardStop shutdown ss dbs'))"

definition cluster_HardStop :: "(nat \<Rightarrow> bool) \<Rightarrow> 't cluster \<Rightarrow> node_error + 't cluster" where
  "cluster_HardStop shutdown c =
     map_sum id (\<lambda>(dbs, ss). \<lparr>cu_Databases = dbs, cu_Servers = ss\<rparr>) (servers_HardStop shutdown (cu_Servers c) (cu_Databases c))"

definition node_name :: "nat \<Rightarrow> string" where
  "node_name i = ''node-'' @ fmt_int (int i + 1)"

definition cluster_builder ::
  "default_io \<Rightarrow> bool \<Rightarrow> nat \<Rightarrow> creds option \<Rightarrow> int \<Rightarrow> string \<Rightarrow> string \<Rightarrow> evict_panic + db_builder" where
  "cluster_builder io fastTest i crd basePort dataDir seedAddr =
     (case Default io NewDatabaseBuilder of
        Inl p \<Rightarrow> Inl p
      | Inr eb \<Rightarrow>
          (let name = node_name i;
               eb = (if fastTest then SetGossipInterval fastTestGossipInterval (SetFastTest eb) else eb);
               eb = SetReplicationFailureMode Lenient (SetGrpcPort (basePort + int i * 2 + 1) (SetBindPort (basePort + int i * 2)
                 (SetCreds crd (SetNodeID name eb))));
               eb = (if dataDir \<noteq> '''' then SetSnpPath (Join [dataDir, name, ''snp.gob'']) (SetWalPath (Join [dataDir, name, ''wal'']) eb) else eb);
               eb = (if i > 0 then SetSeedNodes [seedAddr] eb else eb)
           in Inr eb))"

fun cluster_loop ::
  "'t env \<Rightarrow> codec \<Rightarrow> cluster_io \<Rightarrow> creds option \<Rightarrow> bool \<Rightarrow> string \<Rightarrow> int \<Rightarrow> nat list \<Rightarrow> string \<Rightarrow> 't cluster \<Rightarrow> cluster_error + 't cluster" where
  "cluster_loop E C io crd fastTest dataDir basePort [] seedAddr c = Inr c"
| "cluster_loop E C io crd fastTest dataDir basePort (i # is) seedAddr c =
     (case cluster_builder (ci_default io i) fastTest i crd basePort dataDir seedAddr of
        Inl p \<Rightarrow> Inl (ClEvict p)
      | Inr eb \<Rightarrow>
          (case Build E C (ci_db io i) eb of
             Inl e \<Rightarrow> (case cluster_Stop (ci_shutdown io) c of Inl p \<Rightarrow> Inl (ClPanic p) | Inr _ \<Rightarrow> Inl (ClBuild e))
           | Inr d \<Rightarrow>
               (case (if i = 0 then db_GossipAddr (ci_bound io) d else Inr seedAddr) of
                  Inl p \<Rightarrow> Inl (ClPanic p)
                | Inr seedAddr' \<Rightarrow>
                    (let dbs = cu_Databases c @ [d] in
                     cluster_loop E C io crd fastTest dataDir basePort is seedAddr'
                       \<lparr>cu_Databases = dbs, cu_Servers = cu_Servers c @ [NewServer dbs (length (cu_Databases c))]\<rparr>))))"

text \<open>\<open>current\<close> is what the swap of the port counter gave.\<close>

definition newCluster ::
  "'t env \<Rightarrow> codec \<Rightarrow> cluster_io \<Rightarrow> (int \<Rightarrow> int \<Rightarrow> bool) \<Rightarrow> i32 \<Rightarrow> int \<Rightarrow> string \<Rightarrow> creds option \<Rightarrow> bool \<Rightarrow> cluster_error + 't cluster" where
  "newCluster E C io free current nodeCount dataDir crd fastTest =
     cluster_loop E C io crd fastTest dataDir (findAvailableBasePort free (sint current) nodeCount) [0..<nat nodeCount] ''''
       \<lparr>cu_Databases = [], cu_Servers = []\<rparr>"

definition stop_with :: "cluster_io \<Rightarrow> cluster_error \<Rightarrow> 't cluster \<Rightarrow> cluster_error option \<times> 't cluster" where
  "stop_with io e c = (case cluster_Stop (ci_shutdown io) c of Inl p \<Rightarrow> (Some (ClPanic p), c) | Inr c' \<Rightarrow> (Some e, c'))"

text \<open>A server runs beside the loop; its error comes through a channel that each turn looks into.\<close>

fun start_loop :: "cluster_io \<Rightarrow> nat list \<Rightarrow> 't cluster \<Rightarrow> cluster_error option \<times> 't cluster" where
  "start_loop io [] c = (None, c)"
| "start_loop io (i # is) c =
     (case db_Start (ci_join io i) (cu_Databases c ! i) of
        Inl p \<Rightarrow> (Some (ClPanic p), c)
      | Inr d \<Rightarrow>
          (let c1 = c\<lparr>cu_Databases := (cu_Databases c)[i := d]\<rparr> in
           case Listen (ci_listen io i) (cu_Databases c1) (cu_Servers c1 ! i) of
             Inl e \<Rightarrow> (case e of ListenPanic p \<Rightarrow> (Some (ClPanic p), c1) | _ \<Rightarrow> stop_with io (ClServe e) c1)
           | Inr l \<Rightarrow>
               (let c2 = (case Serve l (cu_Servers c1 ! i) of Inl e \<Rightarrow> c1 | Inr s \<Rightarrow> c1\<lparr>cu_Servers := (cu_Servers c1)[i := s]\<rparr>) in
                if ci_failed io i then stop_with io ClServeLater c2 else start_loop io is c2)))"

definition cluster_Start :: "cluster_io \<Rightarrow> 't cluster \<Rightarrow> cluster_error option \<times> 't cluster" where
  "cluster_Start io c = start_loop io [0..<length (cu_Databases c)] c"

definition stopDatabase :: "(nat \<Rightarrow> bool) \<Rightarrow> string \<Rightarrow> 't cluster \<Rightarrow> node_error + 't cluster" where
  "stopDatabase shutdown nid c =
     (case List.find (\<lambda>i. db_NodeID (cu_Databases c ! i) = nid) [0..<length (cu_Databases c)] of
        None \<Rightarrow> Inr c
      | Some i \<Rightarrow>
          map_sum id (\<lambda>(dbs, s). \<lparr>cu_Databases = dbs, cu_Servers = (cu_Servers c)[i := s]\<rparr>)
            (grpc_HardStop (shutdown i) (cu_Databases c, cu_Servers c ! i)))"

definition added_builder ::
  "default_io \<Rightarrow> bool \<Rightarrow> string \<Rightarrow> creds option \<Rightarrow> int \<Rightarrow> string \<Rightarrow> string \<Rightarrow> evict_panic + db_builder" where
  "added_builder io fastTest name crd basePort dataDir seedAddr =
     (case Default io NewDatabaseBuilder of
        Inl p \<Rightarrow> Inl p
      | Inr eb \<Rightarrow>
          (let eb = (if fastTest then SetGossipInterval fastTestGossipInterval (SetFastTest eb) else eb);
               eb = SetReplicationFailureMode Lenient (SetSeedNodes [seedAddr] (SetGrpcPort (basePort + 1) (SetBindPort basePort
                 (SetCreds crd (SetNodeID name eb)))));
               eb = (if dataDir \<noteq> '''' then SetSnpPath (Join [dataDir, name, ''snp.gob'']) (SetWalPath (Join [dataDir, name, ''wal'']) eb) else eb)
           in Inr eb))"

definition addNode ::
  "'t env \<Rightarrow> codec \<Rightarrow> cluster_io \<Rightarrow> (int \<Rightarrow> int \<Rightarrow> bool) \<Rightarrow> i32 \<Rightarrow> string \<Rightarrow> string \<Rightarrow> string \<Rightarrow> creds option \<Rightarrow> bool \<Rightarrow> 't cluster \<Rightarrow>
   cluster_error option \<times> 't cluster" where
  "addNode E C io free current name seedAddr dataDir crd fastTest c =
     (let k = length (cu_Databases c) in
      case added_builder (ci_default io k) fastTest name crd (findAvailableBasePort free (sint current) 1) dataDir seedAddr of
        Inl p \<Rightarrow> (Some (ClEvict p), c)
      | Inr eb \<Rightarrow>
          (case Build E C (ci_db io k) eb of
             Inl e \<Rightarrow> (Some (ClBuild e), c)
           | Inr d \<Rightarrow>
               (let dbs = cu_Databases c @ [d];
                    c1 = \<lparr>cu_Databases = dbs, cu_Servers = cu_Servers c @ [NewServer dbs k]\<rparr> in
                case db_Start (ci_join io k) d of
                  Inl p \<Rightarrow> (Some (ClPanic p), c1)
                | Inr d' \<Rightarrow>
                    (let c2 = c1\<lparr>cu_Databases := dbs[k := d']\<rparr> in
                     case Listen (ci_listen io k) (cu_Databases c2) (cu_Servers c2 ! k) of
                       Inl e \<Rightarrow> (Some (case e of ListenPanic p \<Rightarrow> ClPanic p | _ \<Rightarrow> ClServe e), c2)
                     | Inr l \<Rightarrow>
                         (None, case Serve l (cu_Servers c2 ! k) of Inl e \<Rightarrow> c2 | Inr s \<Rightarrow> c2\<lparr>cu_Servers := (cu_Servers c2)[k := s]\<rparr>)))))"

definition NewCluster ::
  "'t env \<Rightarrow> codec \<Rightarrow> cluster_io \<Rightarrow> (int \<Rightarrow> int \<Rightarrow> bool) \<Rightarrow> i32 \<Rightarrow> int \<Rightarrow> string \<Rightarrow> creds option \<Rightarrow> cluster_error + 't cluster" where
  "NewCluster E C io free current nodeCount dataDir crd = newCluster E C io free current nodeCount dataDir crd False"

section \<open>The nodes of a cluster\<close>

lemma cluster_builder_built:
  assumes "cluster_builder io fastTest i crd basePort dataDir seedAddr = Inr eb"
  shows "built eb"
proof -
  obtain b where d: "Default io NewDatabaseBuilder = Inr b" using Default_eq by blast
  then have "built b" using eb_new by (rule eb_default [rotated])
  then have f: "built (if fastTest then SetGossipInterval fastTestGossipInterval (SetFastTest b) else b)"
    by (auto intro: eb_set_gossip eb_set_fast)
  show ?thesis using assms d f
    by (auto simp: cluster_builder_def Let_def split: if_splits
        intro!: eb_set_seeds eb_set_snpPath eb_set_walPath eb_set_mode eb_set_grpc eb_set_port eb_set_creds eb_set_node eb_set_gossip eb_set_fast)
qed

lemma cluster_builder_fields:
  assumes "cluster_builder io fastTest i crd basePort dataDir seedAddr = Inr eb"
  shows "mc_NodeID (eb_mesh eb) = node_name i" "BindAddr (eb_mesh eb) = ''127.0.0.1''" "BindPort (eb_mesh eb) = basePort + int i * 2"
    "GrpcPort (eb_mesh eb) = basePort + int i * 2 + 1" "SeedNodes (eb_mesh eb) = (if i = 0 then [] else [seedAddr])"
    "ReplicationFailureMode (eb_mesh eb) = Lenient" "\<not> SingleNode (eb_mesh eb)" "eb_creds eb = crd" "eb_gossipInterval eb \<noteq> 0" "0 \<le> sint (eb_gossipInterval eb)"
    "eb_walPath eb = (if dataDir = '''' then ''data/wal'' else Join [dataDir, node_name i, ''wal''])"
    "eb_snpPath eb = (if dataDir = '''' then ''data/snapshot.bin'' else Join [dataDir, node_name i, ''snp.gob''])"
proof -
  obtain l where d: "Default io NewDatabaseBuilder = Inr (NewDatabaseBuilder\<lparr>eb_walInterval := 500000000, eb_snpInterval := 300000000000,
      eb_walBufferSize := 64 * 1024, eb_walSegments := 16, eb_evt := Some l, eb_clock := Some NewClock, eb_gossipInterval := 10000000000,
      eb_mesh := default_mesh io, eb_walPath := ''data/wal'', eb_snpPath := ''data/snapshot.bin''\<rparr>)"
    using Default_eq [of io NewDatabaseBuilder] by blast
  note e = assms [unfolded cluster_builder_def d sum.case Let_def, simplified, symmetric]
  show "mc_NodeID (eb_mesh eb) = node_name i" "BindAddr (eb_mesh eb) = ''127.0.0.1''" "BindPort (eb_mesh eb) = basePort + int i * 2"
    "GrpcPort (eb_mesh eb) = basePort + int i * 2 + 1" "SeedNodes (eb_mesh eb) = (if i = 0 then [] else [seedAddr])"
    "ReplicationFailureMode (eb_mesh eb) = Lenient" "\<not> SingleNode (eb_mesh eb)" "eb_creds eb = crd"
    "eb_gossipInterval eb \<noteq> 0" "0 \<le> sint (eb_gossipInterval eb)"
    "eb_walPath eb = (if dataDir = '''' then ''data/wal'' else Join [dataDir, node_name i, ''wal''])"
    "eb_snpPath eb = (if dataDir = '''' then ''data/snapshot.bin'' else Join [dataDir, node_name i, ''snp.gob''])"
    unfolding e by (simp_all add: eb_defs cb_defs default_mesh_def NewDatabaseBuilder_def NewConfigBuilder_def fastTestGossipInterval_def Let_def)
qed

lemma itoa_inj: "itoa m = itoa n \<Longrightarrow> m = n"
proof (induction m arbitrary: n rule: itoa.induct)
  case (1 m)
  have d: "a = b" if "digit a = digit b" "a < 10" "b < 10" for a b
    using that digit_value_digit by (metis option.inject)
  have e: "(if m < 10 then [digit m] else itoa (m div 10) @ [digit (m mod 10)]) = (if n < 10 then [digit n] else itoa (n div 10) @ [digit (n mod 10)])"
    using 1(2) by (simp add: itoa.simps [of m] itoa.simps [of n])
  show ?case
  proof (cases "m < 10")
    case True
    then show ?thesis using e d itoa_not_Nil [of "n div 10", symmetric] by (auto split: if_splits)
  next
    case False
    then have "\<not> n < 10" using e itoa_not_Nil [of "m div 10"] by (auto split: if_splits)
    then have q: "itoa (m div 10) = itoa (n div 10)" "digit (m mod 10) = digit (n mod 10)" using e False by simp_all
    then have "m mod 10 = n mod 10" using d by simp
    moreover have "m div 10 = n div 10" using 1(1) [OF False q(1)] .
    ultimately show ?thesis by (metis div_mult_mod_eq)
  qed
qed

lemma node_name_inj: "node_name i = node_name j \<Longrightarrow> i = j"
  by (auto simp: node_name_def fmt_int_def dest!: itoa_inj)

lemma node_name_plain: "plain_part (node_name i)"
proof -
  have "CHR ''/'' \<notin> set (itoa k)" for k
  proof
    assume "CHR ''/'' \<in> set (itoa k)"
    then obtain d where d: "d < 10" "CHR ''/'' = digit d" using itoa_digits by blast
    have "(of_char (CHR ''/'') :: nat) = 48 + d" unfolding d(2) by (rule of_char_digit [OF d(1)])
    then show False by simp
  qed
  then show ?thesis by (auto simp: plain_part_def node_name_def fmt_int_def)
qed

text \<open>C40. The files of a cluster's nodes. Two nodes of a cluster keep their logs and their snapshots in different places exactly if a data
  directory is given. Without one every node is left with the default paths, so that all nodes of the process write to one log directory and
  one snapshot file.\<close>

theorem cluster_paths:
  assumes "cluster_builder io fastTest i crd basePort dataDir seedAddr = Inr eb"
    and "cluster_builder io' fastTest j crd basePort dataDir seedAddr' = Inr eb'" and "i \<noteq> j"
  shows "(eb_walPath eb \<noteq> eb_walPath eb' \<longleftrightarrow> dataDir \<noteq> '''') \<and> (eb_snpPath eb \<noteq> eb_snpPath eb' \<longleftrightarrow> dataDir \<noteq> '''')"
proof (cases "dataDir = ''''")
  case False
  obtain pre where p: "\<And>p q. plain_part p \<Longrightarrow> plain_part q \<Longrightarrow> Join [dataDir, p, q] = pre @ p @ CHR ''/'' # q" using Join_below [OF False] by blast
  have w: "plain_part ''wal''" "plain_part ''snp.gob''" by (simp_all add: plain_part_def)
  have "node_name i \<noteq> node_name j" using assms(3) node_name_inj by blast
  then show ?thesis using False cluster_builder_fields(11,12) [OF assms(1)] cluster_builder_fields(11,12) [OF assms(2)]
    by (simp add: p [OF node_name_plain w(1)] p [OF node_name_plain w(2)])
qed (use cluster_builder_fields(11,12) [OF assms(1)] cluster_builder_fields(11,12) [OF assms(2)] in simp)

definition demo_default_io :: default_io where
  "demo_default_io = \<lparr>di_random = ''r'', di_picked = (\<lambda>_. None), di_free = (\<lambda>_. True)\<rparr>"

lemma demo_cluster_builder:
  obtains eb where "cluster_builder demo_default_io fastTest i crd basePort dataDir seedAddr = Inr eb"
proof -
  obtain b where "Default demo_default_io NewDatabaseBuilder = Inr b" using Default_eq by blast
  then show thesis using that by (simp add: cluster_builder_def Let_def)
qed

theorem cluster_paths_witness:
  "\<exists>eb eb'. cluster_builder demo_default_io True 0 None 18000 '''' '''' = Inr eb \<and> cluster_builder demo_default_io True 1 None 18000 '''' ''a'' = Inr eb' \<and>
     eb_walPath eb = eb_walPath eb' \<and> eb_snpPath eb = eb_snpPath eb'"
proof -
  obtain eb where a: "cluster_builder demo_default_io True 0 None 18000 '''' '''' = Inr eb" by (rule demo_cluster_builder)
  obtain eb' where b: "cluster_builder demo_default_io True 1 None 18000 '''' ''a'' = Inr eb'" by (rule demo_cluster_builder)
  show ?thesis using a b cluster_paths [OF a b] by auto
qed

text \<open>What a node of a cluster is: well formed, with its own identity and ports, joining through the first node; and its server.\<close>

definition member_ok :: "'t env \<Rightarrow> creds option \<Rightarrow> int \<Rightarrow> string \<Rightarrow> nat \<Rightarrow> 't db \<Rightarrow> bool" where
  "member_ok E crd basePort seedAddr i d \<longleftrightarrow> db_wf E d \<and> db_Creds d = crd \<and> \<not> SingleNode (db_config d) \<and> db_NodeID d = node_name i \<and>
     BindPort (db_config d) = basePort + int i * 2 \<and> GrpcPort (db_config d) = basePort + int i * 2 + 1 \<and>
     SeedNodes (db_config d) = (if i = 0 then [] else [seedAddr])"

definition fresh_server :: "creds option \<Rightarrow> nat \<Rightarrow> grpc_server \<Rightarrow> bool" where
  "fresh_server crd i s \<longleftrightarrow> gs_db s = i \<and> gs_serving s = None \<and> \<not> gs_stopped s \<and> gs_creds s = (if crd = Some Insecure then None else crd)"

definition cluster_ok :: "'t env \<Rightarrow> int \<Rightarrow> creds option \<Rightarrow> int \<Rightarrow> string \<Rightarrow> nat \<Rightarrow> 't cluster \<Rightarrow> bool" where
  "cluster_ok E bound crd basePort seedAddr k c \<longleftrightarrow> length (cu_Databases c) = k \<and> length (cu_Servers c) = k \<and>
     (\<forall>i < k. member_ok E crd basePort seedAddr i (cu_Databases c ! i) \<and> fresh_server crd i (cu_Servers c ! i)) \<and>
     (0 < k \<longrightarrow> db_GossipAddr bound (cu_Databases c ! 0) = Inr seedAddr)"

lemma member_built:
  assumes "radix_laws E" and "cluster_builder io fastTest i crd basePort dataDir seedAddr = Inr eb" and "Build E C dio eb = Inr d"
  shows "member_ok E crd basePort seedAddr i d"
proof -
  note f = cluster_builder_fields [OF assms(2)] and c = Build_config [OF assms(3)]
  obtain n cr where "d = ClusterDb n cr" using c f(7) by (cases d) auto
  then have "db_NodeID d = mc_NodeID (db_config d)" by (simp add: node_NodeID_def)
  then show ?thesis using Build_wf(1) [OF assms(1) cluster_builder_built [OF assms(2)] assms(3)] f c by (simp add: member_ok_def)
qed

lemma cluster_ok_step:
  assumes "radix_laws E" and "cluster_ok E bound crd basePort seedAddr k c"
    and "cluster_builder io fastTest k crd basePort dataDir seedAddr = Inr eb" and "Build E C dio eb = Inr d"
    and "(if k = 0 then db_GossipAddr bound d else Inr seedAddr) = Inr seedAddr'"
  shows "cluster_ok E bound crd basePort seedAddr' (Suc k)
    \<lparr>cu_Databases = cu_Databases c @ [d], cu_Servers = cu_Servers c @ [NewServer (cu_Databases c @ [d]) (length (cu_Databases c))]\<rparr>"
proof -
  have k: "length (cu_Databases c) = k" "length (cu_Servers c) = k" using assms(2) by (simp_all add: cluster_ok_def)
  have m: "member_ok E crd basePort seedAddr k d" by (rule member_built [OF assms(1,3,4)])
  then have "fresh_server crd k (NewServer (cu_Databases c @ [d]) k)"
    using k by (auto simp: fresh_server_def NewServer_def member_ok_def nth_append split: option.split)
  then show ?thesis using assms(2,5) m k
    by (cases "k = 0") (auto simp: cluster_ok_def nth_append less_Suc_eq member_ok_def)
qed

lemma cluster_loop_ok:
  assumes "radix_laws E"
  shows "cluster_loop E C io crd fastTest dataDir basePort [k..<k + m] seedAddr c = Inr c' \<Longrightarrow> cluster_ok E (ci_bound io) crd basePort seedAddr k c \<Longrightarrow>
    \<exists>seedAddr'. cluster_ok E (ci_bound io) crd basePort seedAddr' (k + m) c'"
proof (induction m arbitrary: k seedAddr c)
  case (Suc m)
  have u: "[k..<k + Suc m] = k # [Suc k..<Suc k + m]" by (simp add: upt_rec)
  from Suc.prems(1) obtain eb d a where s: "cluster_builder (ci_default io k) fastTest k crd basePort dataDir seedAddr = Inr eb"
      "Build E C (ci_db io k) eb = Inr d" "(if k = 0 then db_GossipAddr (ci_bound io) d else Inr seedAddr) = Inr a"
    and r: "cluster_loop E C io crd fastTest dataDir basePort [Suc k..<Suc k + m] a
      \<lparr>cu_Databases = cu_Databases c @ [d], cu_Servers = cu_Servers c @ [NewServer (cu_Databases c @ [d]) (length (cu_Databases c))]\<rparr> = Inr c'"
    unfolding u by (auto simp: Let_def split: sum.splits simp del: upt_Suc)
  show ?case using Suc.IH [OF r cluster_ok_step [OF assms Suc.prems(2) s]] by simp
qed auto

lemma newCluster_ok:
  assumes "radix_laws E" and "newCluster E C io free current nodeCount dataDir crd fastTest = Inr c"
  obtains a where "cluster_ok E (ci_bound io) crd (findAvailableBasePort free (sint current) nodeCount) a (nat nodeCount) c"
proof -
  let ?b = "findAvailableBasePort free (sint current) nodeCount"
  have "cluster_ok E (ci_bound io) crd ?b '''' 0 \<lparr>cu_Databases = [], cu_Servers = []\<rparr>" by (simp add: cluster_ok_def)
  then show thesis using that
    cluster_loop_ok [OF assms(1), of C io crd fastTest dataDir ?b 0 "nat nodeCount" "''''" _ c] assms(2) by (auto simp: newCluster_def)
qed

lemma window_distinct: "distinct (concat (map (\<lambda>i. [b + int i * 2, b + int i * 2 + 1]) [0..<n]))"
  by (induction n) auto

text \<open>C20. What a cluster that is made consists of. It has as many databases and servers as were asked for; every database is well formed
  and has the credentials given, node \<open>i\<close> is named by its number and has the two ports at its place of the window; all nodes but the
  first join at the gossip address of the first; their identities and their ports are pairwise different; and each server
  serves its database, encrypted exactly if the credentials are not the insecure ones.\<close>

theorem cluster_well_formed:
  assumes "radix_laws E" and "newCluster E C io free current nodeCount dataDir crd fastTest = Inr c"
  shows "\<exists>seedAddr. cluster_ok E (ci_bound io) crd (findAvailableBasePort free (sint current) nodeCount) seedAddr (nat nodeCount) c \<and>
    distinct (map db_NodeID (cu_Databases c)) \<and>
    distinct (concat (map (\<lambda>d. [BindPort (db_config d), GrpcPort (db_config d)]) (cu_Databases c)))"
proof -
  let ?b = "findAvailableBasePort free (sint current) nodeCount"
  obtain a where c: "cluster_ok E (ci_bound io) crd ?b a (nat nodeCount) c" using newCluster_ok [OF assms] .
  then have m: "map db_NodeID (cu_Databases c) = map node_name [0..<nat nodeCount]"
    "map (\<lambda>d. [BindPort (db_config d), GrpcPort (db_config d)]) (cu_Databases c) = map (\<lambda>i. [?b + int i * 2, ?b + int i * 2 + 1]) [0..<nat nodeCount]"
    by (auto simp: cluster_ok_def member_ok_def intro: nth_equalityI)
  show ?thesis using c unfolding m by (auto simp: distinct_map inj_on_def node_name_inj window_distinct)
qed

definition demo_cluster_io :: cluster_io where
  "demo_cluster_io = \<lparr>ci_default = (\<lambda>_. demo_default_io), ci_db = (\<lambda>_. demo_db_io\<lparr>dio_opened := replicate 16 (Some demo_file)\<rparr>), ci_bound = 18000,
     ci_shutdown = (\<lambda>_. True), ci_join = (\<lambda>_ _. True), ci_listen = (\<lambda>_ _. True), ci_failed = (\<lambda>_. False)\<rparr>"

lemma open_segments_some: "list_all (\<lambda>f. f \<noteq> None) fs \<Longrightarrow> \<exists>segs. open_segments b fs = Some segs"
  by (induction fs) auto

lemma NewEngine_ok:
  assumes "list_all (\<lambda>f. f \<noteq> None) opened"
  shows "\<exists>eng. NewEngine E C cfg True opened io snp = Inr eng"
proof -
  obtain segs where "open_segments (cfg_WalBufferSize cfg) opened = Some segs" using open_segments_some [OF assms] by blast
  then show ?thesis by (simp add: NewEngine_def NewWal_def split: prod.split)
qed

lemma NewNode_ok: "\<not> SingleNode cfg \<Longrightarrow> (\<And>m. create m) \<Longrightarrow> \<exists>n. NewNode create local lan eng cfg interval = Inr n"
  by (simp add: NewNode_def NewMesh_def NewSyncer_def)

lemma demo_node_builds:
  assumes "cluster_builder demo_default_io fastTest i (Some Insecure) basePort '''' seedAddr = Inr eb"
  obtains d where "Build demo_env demo_codec (ci_db demo_cluster_io i) eb = Inr d"
proof -
  note f = cluster_builder_fields [OF assms]
  obtain l where d: "Default demo_default_io NewDatabaseBuilder = Inr (NewDatabaseBuilder\<lparr>eb_walInterval := 500000000, eb_snpInterval := 300000000000,
      eb_walBufferSize := 64 * 1024, eb_walSegments := 16, eb_evt := Some l, eb_clock := Some NewClock, eb_gossipInterval := 10000000000,
      eb_mesh := default_mesh demo_default_io, eb_walPath := ''data/wal'', eb_snpPath := ''data/snapshot.bin''\<rparr>)"
    using Default_eq [of demo_default_io NewDatabaseBuilder] by blast
  have e: "eb_walInterval eb = 500000000" "eb_snpInterval eb = 300000000000" "eb_walBufferSize eb = 64 * 1024" "eb_walSegments eb = 16" "eb_clock eb = Some NewClock"
    "eb_disableWal eb = False"
    using assms [unfolded cluster_builder_def d sum.case Let_def, simplified, symmetric] by (simp_all add: eb_defs NewDatabaseBuilder_def)
  have o: "list_all (\<lambda>f. f \<noteq> None) (replicate 16 (Some demo_file))" by (simp add: list_all_iff)
  obtain eng where g: "NewEngine demo_env demo_codec \<lparr>cfg_Evt = eb_evt eb, cfg_Clock = NewClock, cfg_SnpPath = eb_snpPath eb,
      cfg_WalBufferSize = eb_walBufferSize eb, cfg_NodeID = mc_NodeID (eb_mesh eb), cfg_DisableWal = eb_disableWal eb,
      cfg_DisableSnapshot = eb_disableSnapshot eb\<rparr> True (replicate 16 (Some demo_file)) (dio_recover demo_db_io) (dio_snapshot demo_db_io) = Inr eng"
    using NewEngine_ok [OF o] by blast
  obtain n where n: "NewNode (\<lambda>_. True) demo_ml demo_ml eng (eb_mesh eb) (eb_gossipInterval eb) = Inr n"
    using NewNode_ok [OF f(7), of "\<lambda>_. True" demo_ml demo_ml eng "eb_gossipInterval eb"] by auto
  have "Build demo_env demo_codec (ci_db demo_cluster_io i) eb = Inr (ClusterDb n (Some Insecure))"
    unfolding Build_def newDatabase_def Let_def
    using f(2,6,7,8,9,11,12) e g n by (simp add: cb_Build_def demo_cluster_io_def demo_db_io_def Lenient_def)
  then show thesis by (rule that)
qed

lemma demo_loop: "\<exists>c'. cluster_loop demo_env demo_codec demo_cluster_io (Some Insecure) fastTest '''' basePort is seedAddr c = Inr c'"
proof (induction "is" arbitrary: seedAddr c)
  case (Cons i "is")
  obtain eb where e: "cluster_builder demo_default_io fastTest i (Some Insecure) basePort '''' seedAddr = Inr eb" by (rule demo_cluster_builder)
  obtain d where d: "Build demo_env demo_codec (ci_db demo_cluster_io i) eb = Inr d" using demo_node_builds [OF e] .
  then obtain a where "db_GossipAddr (ci_bound demo_cluster_io) d = Inr a"
    using member_built [OF radix_laws_demo e d] by (auto simp: member_ok_def db_wf_def)
  moreover have "ci_default demo_cluster_io i = demo_default_io" by (simp add: demo_cluster_io_def)
  ultimately show ?case using e d Cons [of "if i = 0 then a else seedAddr"
      "\<lparr>cu_Databases = cu_Databases c @ [d], cu_Servers = cu_Servers c @ [NewServer (cu_Databases c @ [d]) (length (cu_Databases c))]\<rparr>"]
    by (cases "i = 0") (simp_all only: cluster_loop.simps sum.case Let_def if_True if_False simp_thms refl)
qed simp

theorem cluster_well_formed_witness:
  "\<exists>c seedAddr. newCluster demo_env demo_codec demo_cluster_io (\<lambda>_ _. True) 18000 2 '''' (Some Insecure) True = Inr c \<and>
     cluster_ok demo_env 18000 (Some Insecure) 18000 seedAddr 2 c"
proof -
  have f: "findAvailableBasePort (\<lambda>_ _. True) (sint (18000 :: i32)) 2 = 18000"
  proof -
    have "(250 :: nat) = Suc 249" by simp
    then show ?thesis by (simp only: findAvailableBasePort_def base_scan.simps) (simp add: window_free_def list_all_iff)
  qed
  obtain c where c: "newCluster demo_env demo_codec demo_cluster_io (\<lambda>_ _. True) 18000 2 '''' (Some Insecure) True = Inr c"
    unfolding newCluster_def using demo_loop by blast
  have "ci_bound demo_cluster_io = 18000" by (simp add: demo_cluster_io_def)
  then show ?thesis using c cluster_well_formed [OF radix_laws_demo c, unfolded f] by auto
qed

section \<open>Stopping\<close>

fun db_stopped :: "'t db \<Rightarrow> bool" where
  "db_stopped (SingleDb eng cfg c) = stopOnce eng"
| "db_stopped (ClusterDb n c) = nd_stopped n"

lemma db_Stop_stopped: "db_Stop shutdown d = Inr d' \<Longrightarrow> db_stopped d'"
  by (cases d) (auto simp: Stop_engine_def Stop_node_def Let_def split: if_splits prod.splits)

lemma db_Stop_again: "db_stopped d \<Longrightarrow> db_Stop shutdown d = Inr d"
  by (cases d) (simp_all add: Stop_engine_def Stop_node_def)

definition server_down :: "grpc_server \<Rightarrow> bool" where
  "server_down s \<longleftrightarrow> gs_stopped s \<and> gs_serving s = None"

definition all_stopped :: "'t cluster \<Rightarrow> bool" where
  "all_stopped c \<longleftrightarrow> list_all db_stopped (cu_Databases c) \<and> list_all server_down (cu_Servers c)"

lemma stop_db_again: "list_all db_stopped dbs \<Longrightarrow> i < length dbs \<Longrightarrow> stop_db shutdown i dbs = Inr dbs"
  by (simp add: stop_db_def db_Stop_again list_all_length)

lemma servers_Stop_down:
  "servers_Stop shutdown ss dbs = Inr (dbs', ss') \<Longrightarrow> list_all server_down ss' \<and> length dbs' = length dbs \<and> map gs_db ss' = map gs_db ss"
proof (induction ss arbitrary: dbs ss')
  case (Cons s ss)
  from Cons.prems obtain d ss1 where d: "servers_Stop shutdown ss (dbs[gs_db s := d]) = Inr (dbs', ss1)"
      "ss' = s\<lparr>gs_serving := None, gs_stopped := True\<rparr> # ss1"
    by (cases "db_Stop (shutdown (gs_db s)) (dbs ! gs_db s)"; cases "servers_Stop shutdown ss (dbs[gs_db s := projr (db_Stop (shutdown (gs_db s)) (dbs ! gs_db s))])")
      (auto simp: grpc_Stop_def stop_db_def)
  from Cons.IH [OF d(1)] show ?case by (simp add: d(2) server_down_def)
qed simp

lemma databases_Stop_stopped:
  "databases_Stop shutdown is dbs = Inr dbs' \<Longrightarrow> length dbs' = length dbs \<and>
   (\<forall>i < length dbs. i \<in> set is \<or> db_stopped (dbs ! i) \<longrightarrow> db_stopped (dbs' ! i))"
proof (induction "is" arbitrary: dbs)
  case (Cons i "is")
  then obtain d where d: "db_Stop (shutdown i) (dbs ! i) = Inr d" "databases_Stop shutdown is (dbs[i := d]) = Inr dbs'"
    by (auto simp: stop_db_def split: sum.splits)
  from Cons.IH [OF d(2)] db_Stop_stopped [OF d(1)] show ?case
    by (auto simp: nth_list_update split: if_splits) (metis nth_list_update_eq nth_list_update_neq)
qed simp

lemma servers_Stop_again:
  "list_all server_down ss \<Longrightarrow> list_all db_stopped dbs \<Longrightarrow> list_all (\<lambda>s. gs_db s < length dbs) ss \<Longrightarrow> servers_Stop shutdown ss dbs = Inr (dbs, ss)"
  by (induction ss) (auto simp: grpc_Stop_def stop_db_again server_down_def)

lemma databases_Stop_again:
  "list_all db_stopped dbs \<Longrightarrow> list_all (\<lambda>i. i < length dbs) is \<Longrightarrow> databases_Stop shutdown is dbs = Inr dbs"
  by (induction "is") (auto simp: stop_db_again)

text \<open>Stopping a cluster stops every server and every database, and stopping it again changes nothing and cannot fail.\<close>

lemma cluster_Stop_all:
  assumes "cluster_Stop shutdown c = Inr c'" and "list_all (\<lambda>s. gs_db s < length (cu_Databases c)) (cu_Servers c)"
  shows "all_stopped c' \<and> (\<forall>shutdown'. cluster_Stop shutdown' c' = Inr c')"
proof -
  obtain dbs ss dbs' where s: "servers_Stop shutdown (cu_Servers c) (cu_Databases c) = Inr (dbs, ss)"
    "databases_Stop shutdown [0..<length dbs] dbs = Inr dbs'" "c' = \<lparr>cu_Databases = dbs', cu_Servers = ss\<rparr>"
    using assms(1) by (cases "servers_Stop shutdown (cu_Servers c) (cu_Databases c)"; cases "databases_Stop shutdown [0..<length (fst (projr (servers_Stop shutdown (cu_Servers c) (cu_Databases c))))] (fst (projr (servers_Stop shutdown (cu_Servers c) (cu_Databases c))))")
      (auto simp: cluster_Stop_def)
  note d = servers_Stop_down [OF s(1)] and e = databases_Stop_stopped [OF s(2)]
  have a: "all_stopped c'" using d e by (simp add: s(3) all_stopped_def list_all_length)
  have "list_all (\<lambda>j. j < length dbs') (map gs_db ss)" using assms(2) d e by (simp add: list_all_iff)
  then have "cluster_Stop shutdown' c' = Inr c'" for shutdown'
    using a servers_Stop_again [of ss dbs' shutdown'] databases_Stop_again [of dbs' "[0..<length dbs']" shutdown']
    by (simp add: cluster_Stop_def s(3) all_stopped_def list_all_iff)
  then show ?thesis using a by blast
qed

section \<open>Starting\<close>

text \<open>A node that is up: its database is started, and its server serves at the database's address.\<close>

definition node_up :: "'t cluster \<Rightarrow> nat \<Rightarrow> bool" where
  "node_up c i \<longleftrightarrow> db_started (cu_Databases c ! i) \<and> (\<exists>a. db_Addr (cu_Databases c ! i) = Inr a \<and> gs_serving (cu_Servers c ! i) = Some a)"

text \<open>Every server has its database and none has been stopped yet.\<close>

definition startable :: "nat \<Rightarrow> 't cluster \<Rightarrow> bool" where
  "startable k c \<longleftrightarrow> length (cu_Databases c) = k \<and> length (cu_Servers c) = k \<and> (\<forall>i < k. gs_db (cu_Servers c ! i) = i \<and> \<not> gs_stopped (cu_Servers c ! i))"

text \<open>After an error everything is stopped for good, unless a panic came first.\<close>

definition wound_up :: "cluster_error \<Rightarrow> 't cluster \<Rightarrow> bool" where
  "wound_up e c \<longleftrightarrow> (\<exists>p. e = ClPanic p) \<or> all_stopped c \<and> (\<forall>shutdown. cluster_Stop shutdown c = Inr c)"

lemma stop_with_all:
  assumes "startable k c"
  shows "\<exists>e' c'. stop_with io e c = (Some e', c') \<and> wound_up e' c'"
proof (cases "cluster_Stop (ci_shutdown io) c")
  case (Inr c')
  have "list_all (\<lambda>s. gs_db s < length (cu_Databases c)) (cu_Servers c)" using assms by (auto simp: startable_def list_all_length)
  then show ?thesis using cluster_Stop_all [OF Inr] Inr by (simp add: stop_with_def wound_up_def)
qed (simp add: stop_with_def wound_up_def)

lemma start_turn:
  assumes "startable k c" and "i < k" and "db_Start join (cu_Databases c ! i) = Inr d" and "db_Addr d = Inr a"
    and "c' = c\<lparr>cu_Databases := (cu_Databases c)[i := d], cu_Servers := (cu_Servers c)[i := (cu_Servers c ! i)\<lparr>gs_serving := Some a\<rparr>]\<rparr>"
  shows "startable k c'" "node_up c' i" "j \<noteq> i \<Longrightarrow> node_up c j \<Longrightarrow> node_up c' j"
proof -
  show "startable k c'" using assms(1,2) by (auto simp: startable_def assms(5) nth_list_update)
  show "node_up c' i" using assms(1,2,4) db_Start_started [OF assms(3)] by (simp add: startable_def node_up_def assms(5))
  show "j \<noteq> i \<Longrightarrow> node_up c j \<Longrightarrow> node_up c' j" by (simp add: node_up_def assms(5))
qed

lemma start_loop_outcome:
  "start_loop io [j..<j + m] c = (r, c') \<Longrightarrow> startable (j + m) c \<Longrightarrow> \<forall>i < j. node_up c i \<Longrightarrow>
   (case r of None \<Rightarrow> startable (j + m) c' \<and> (\<forall>i < j + m. node_up c' i) | Some e \<Rightarrow> wound_up e c')"
proof (induction m arbitrary: j c)
  case (Suc m)
  have u: "[j..<j + Suc m] = j # [Suc j..<Suc j + m]" by (simp add: upt_rec)
  note st = Suc.prems(2) and run = Suc.prems(1) [unfolded u start_loop.simps]
  have j: "length (cu_Databases c) = j + Suc m" "length (cu_Servers c) = j + Suc m" "gs_db (cu_Servers c ! j) = j" "\<not> gs_stopped (cu_Servers c ! j)"
    using st by (simp_all add: startable_def)
  show ?case
  proof (cases "db_Start (ci_join io j) (cu_Databases c ! j)")
    case (Inl p)
    then have "r = Some (ClPanic p)" using run by simp
    then show ?thesis by (simp add: wound_up_def)
  next
    case d: (Inr d)
    let ?c1 = "c\<lparr>cu_Databases := (cu_Databases c)[j := d]\<rparr>"
    have s1: "startable (j + Suc m) ?c1" using st by (simp add: startable_def)
    show ?thesis
    proof (cases "Listen (ci_listen io j) ((cu_Databases c)[j := d]) (cu_Servers c ! j)")
      case (Inl e)
      obtain e' c1 where w: "stop_with io (ClServe e) ?c1 = (Some e', c1)" "wound_up e' c1" using stop_with_all [OF s1] by blast
      have "(r, c') = (Some e', c1) \<or> (\<exists>p. r = Some (ClPanic p))" using run d Inl w(1) by (cases e) auto
      then show ?thesis using w(2) by (auto simp: wound_up_def)
    next
      case l: (Inr l)
      have a: "db_Addr d = Inr l" using l j by (auto simp: Listen_def split: sum.splits if_splits)
      let ?c2 = "c\<lparr>cu_Databases := (cu_Databases c)[j := d], cu_Servers := (cu_Servers c)[j := (cu_Servers c ! j)\<lparr>gs_serving := Some l\<rparr>]\<rparr>"
      have "j < j + Suc m" by simp
      note t = start_turn [OF st this d a refl]
      have e: "(if ci_failed io j then stop_with io ClServeLater ?c2 else start_loop io [Suc j..<Suc j + m] ?c2) = (r, c')"
        using run d l j(4) by (simp add: Serve_def Let_def del: upt_Suc)
      show ?thesis
      proof (cases "ci_failed io j")
        case True
        from stop_with_all [OF t(1), of io ClServeLater] show ?thesis using e True by auto
      next
        case False
        have "\<forall>i < Suc j. node_up ?c2 i" using t(2,3) Suc.prems(3) by (auto simp: less_Suc_eq)
        then show ?thesis using Suc.IH [of "Suc j" ?c2] e False t(1) by (cases r) simp_all
      qed
    qed
  qed
qed simp

text \<open>C33. How starting a cluster ends. Either every database is started and every server serves at its database's address; or
  an error is returned, and then all servers and all databases have been stopped, and stopping again changes nothing; unless the start
  panicked, because a node could not join or leave.\<close>

theorem cluster_start_outcome:
  assumes "cluster_ok E bound crd basePort seedAddr k c" and "cluster_Start io c = (r, c')"
  shows "case r of
      None \<Rightarrow> length (cu_Databases c') = k \<and> (\<forall>i < k. node_up c' i)
    | Some e \<Rightarrow> (\<exists>p. e = ClPanic p) \<or> all_stopped c' \<and> (\<forall>shutdown. cluster_Stop shutdown c' = Inr c')"
proof -
  have "startable (0 + k) c" using assms(1) by (simp add: startable_def cluster_ok_def fresh_server_def)
  moreover have "start_loop io [0..<0 + k] c = (r, c')" using assms by (simp add: cluster_Start_def cluster_ok_def)
  ultimately show ?thesis using start_loop_outcome [of io 0 k c r c'] by (auto simp: wound_up_def startable_def split: option.splits)
qed

theorem cluster_start_outcome_witness:
  "\<exists>c :: (string \<times> nat) list cluster. newCluster demo_env demo_codec demo_cluster_io (\<lambda>_ _. True) 18000 2 '''' (Some Insecure) True = Inr c \<and>
     (case cluster_Start (demo_cluster_io\<lparr>ci_listen := \<lambda>i a. i = 0\<rparr>) c of
        (None, c') \<Rightarrow> \<forall>i < 2. node_up c' i
      | (Some e, c') \<Rightarrow> (\<exists>p. e = ClPanic p) \<or> all_stopped c')"
proof -
  let ?io = "demo_cluster_io\<lparr>ci_listen := \<lambda>i a. i = 0\<rparr>"
  obtain c where c: "newCluster demo_env demo_codec demo_cluster_io (\<lambda>_ _. True) 18000 2 '''' (Some Insecure) True = Inr c"
    unfolding newCluster_def using demo_loop by blast
  obtain b a where k: "cluster_ok demo_env (ci_bound demo_cluster_io) (Some Insecure) b a (nat 2) c"
    using newCluster_ok [OF radix_laws_demo c] .
  obtain r c' where r: "cluster_Start ?io c = (r, c')" by (rule prod.exhaust)
  from cluster_start_outcome [OF k r] show ?thesis using c r by (auto split: option.splits)
qed

section \<open>The example programs\<close>

text \<open>\<open>src/examples/cluster/main.go\<close> makes a cluster of ten nodes and stops it at a signal; \<open>src/examples/server/main.go\<close> runs one node with the defaults. An
  error is a panic of the program.\<close>

definition example_cluster :: "'t env \<Rightarrow> codec \<Rightarrow> cluster_io \<Rightarrow> (int \<Rightarrow> int \<Rightarrow> bool) \<Rightarrow> i32 \<Rightarrow> cluster_error + 't cluster" where
  "example_cluster E C io free current = NewCluster E C io free current 10 (Join [''examples'', ''replicated'', ''data'']) (Some Insecure)"

definition example_server ::
  "'t env \<Rightarrow> codec \<Rightarrow> default_io \<Rightarrow> db_io \<Rightarrow> (nat \<Rightarrow> bool) \<Rightarrow> (string \<Rightarrow> bool) \<Rightarrow> cluster_error + 't db list \<times> grpc_server" where
  "example_server E C dio io join listen =
     (case Default dio NewDatabaseBuilder of
        Inl p \<Rightarrow> Inl (ClEvict p)
      | Inr eb \<Rightarrow>
          (case Build E C io (SetInsecure eb) of
             Inl e \<Rightarrow> Inl (ClBuild e)
           | Inr db \<Rightarrow>
               (case db_Start join db of
                  Inl p \<Rightarrow> Inl (ClPanic p)
                | Inr db \<Rightarrow>
                    (case grpc_Run listen [db] (NewServer [db] 0) of Inl e \<Rightarrow> Inl (ClServe e) | Inr s \<Rightarrow> Inr ([db], s)))))"

text \<open>The example cluster is said to be online and operational when it has been made, but it is never started: none of its servers serves.\<close>

lemma example_cluster_idle:
  assumes "radix_laws E" and "example_cluster E C io free current = Inr c" and "i < 10"
  shows "gs_serving (cu_Servers c ! i) = None"
proof -
  have "newCluster E C io free current 10 (Join [''examples'', ''replicated'', ''data'']) (Some Insecure) False = Inr c"
    using assms(2) by (simp add: example_cluster_def NewCluster_def)
  from newCluster_ok [OF assms(1) this] show ?thesis using assms(3) by (auto simp: cluster_ok_def fresh_server_def)
qed

text \<open>The example server runs a node of a cluster of its own, well formed and in plain text.\<close>

lemma example_server_runs:
  assumes "radix_laws E" and "example_server E C dio io join listen = Inr (dbs, s)"
  shows "\<exists>d d'. db_wf E d \<and> db_Start join d = Inr d' \<and> dbs = [d'] \<and> gs_creds s = None \<and> (\<exists>a. db_Addr d' = Inr a \<and> gs_serving s = Some a)"
proof -
  obtain eb d d' where s: "Default dio NewDatabaseBuilder = Inr eb" "Build E C io (SetInsecure eb) = Inr d" "db_Start join d = Inr d'" "dbs = [d']"
    "grpc_Run listen [d'] (NewServer [d'] 0) = Inr s" using assms(2) by (auto simp: example_server_def split: sum.splits)
  have "built (SetInsecure eb)" using eb_default [OF eb_new s(1)] by (rule eb_set_insecure)
  then have "db_wf E d" by (rule Build_wf(1) [OF assms(1) _ s(2)])
  moreover have "db_Creds d' = Some Insecure" using db_Start_started [OF s(3)] Build_config [OF s(2)] by (simp add: SetInsecure_def)
  ultimately show ?thesis using s(3-5) by (auto simp: grpc_Run_def Listen_def Serve_def NewServer_def split: sum.splits if_splits)
qed

end
