(* ===== verification/Spec2Isabelle.thy ===== *)
theory Spec2Isabelle
  imports Clock Sharded_Map Wal Evict Writer Snap Engine Hash_Ring Progress Resp Mesh Entropy Client_Cache Gateway Node Database
    Gossip Server Cli Serve Cluster
begin

text \<open>
  A verification library for oryx, a partitioned and replicated key-value database in Go.

  \<^bold>\<open>The program.\<close> A node of oryx keeps its keys in a sharded map of versioned values. A client's write takes a timestamp from a
  hybrid logical clock, is merged into the map under the rule that the last write wins, and is appended to a segmented
  write-ahead log; a snapshotter streams the map to a file from time to time and then clears the log, and a node that starts loads the
  snapshot and replays the log over it. An eviction service follows the accesses and asks the engine to drop keys. Nodes find each
  other through a gossip library; a consistent hash ring says which nodes own a key. A gateway sends reads and writes to the owners, and
  anti-entropy compares digests with a peer and merges what differs. Clients speak gRPC or the Redis protocol (RESP); a command line client and
  a command that runs a node are part of the program, and so is a helper that runs a whole cluster in one process.

  \<^bold>\<open>Theories and sources.\<close> The state of a component is a record with the fields of its struct, an operation is a definition with the name
  of the function it translates (with a suffix or a prefix where the name is taken).

  \<^item> \<open>Prelude\<close>: machine types, nil slices, words and XOR sums; \<open>KV\<close>: \<open>kv/types.go\<close>, the messages, the environment of third-party code.
  \<^item> \<open>Clock\<close>: \<open>core/clock/clock.go\<close>. \<open>now_attempt\<close> and \<open>upd_attempt\<close> are one pass of the compare-and-swap loops of \<open>Now\<close> and \<open>Update\<close>;
    \<open>clock_step\<close> interleaves racing goroutines. Timestamps issued are distinct and increase, and follow what was observed.
  \<^item> \<open>Sharded_Map\<close>: \<open>core/hashmap/shardedmap.go\<close>. Trees hold addresses of wrappers, so that sharing between versions of a tree is kept. The
    digests are those of the contents; \<open>StoreLWW\<close> merges in any order to the same contents.
  \<^item> \<open>Wal\<close>: \<open>core/wal/wal.go\<close>. Frames round-trip; replay gives back the newest record of each key; what a crash keeps.
  \<^item> \<open>Evict\<close>: \<open>core/evict/eviction.go\<close>. The linked list on a heap refines a plain list in order of use.
  \<^item> \<open>Writer\<close>: \<open>core/writer/storagewriter.go\<close>; \<open>Snap\<close>: \<open>core/snap/snapshot.go\<close>; \<open>Engine\<close>: \<open>core/engine.go\<close>; \<open>Progress\<close>: that
    the operations of the engine return. A client sees a plain map; what recovery restores.
  \<^item> \<open>Secure_Hash\<close>: \<open>security/utils.go\<close> with SHA-256; \<open>Hash_Ring\<close>: \<open>cluster/mesh/hashring.go\<close>. The binary search finds the clockwise successor;
    a change of membership moves no other key.
  \<^item> \<open>Mesh\<close>: \<open>cluster/mesh/mesh.go\<close>, \<open>meshbuilder.go\<close>; \<open>Gossip\<close>: its messages, with \<open>cluster/gossip/gossip.go\<close>. The ring follows the membership
    events; nodes that were delivered the same messages agree.
  \<^item> \<open>Entropy\<close>: \<open>cluster/entropy/sync.go\<close>. What \<open>Pull\<close> selects and \<open>Push\<close> merges.
  \<^item> \<open>Client_Cache\<close>: \<open>cluster/gateway/clientcache.go\<close>, as racing goroutines; \<open>Gateway\<close>: \<open>cluster/gateway/gateway.go\<close>. No connection leaks; what
    a write that reports success has achieved.
  \<^item> \<open>Node\<close>: \<open>cluster/node.go\<close>, \<open>cluster/stats/monitor.go\<close>, the handlers of \<open>server/server.go\<close>; \<open>Database\<close>: \<open>database.go\<close>, \<open>databasebuilder.go\<close>.
  \<^item> \<open>Resp\<close>: the protocol of \<open>server/resp.go\<close>; \<open>Server\<close>: its connections and life cycle, and the gRPC server of \<open>server/server.go\<close>.
  \<^item> \<open>Cli\<close>: \<open>cmd/oryx/cmd/root.go\<close>, \<open>get.go\<close>, \<open>set.go\<close>, \<open>delete.go\<close>, \<open>tls.go\<close> and \<open>cluster/gateway/client.go\<close>; \<open>Serve\<close>: \<open>cmd/oryx/cmd/serve.go\<close>;
    \<open>Cluster\<close>: \<open>server/cluster.go\<close>; \<open>Go_Std\<close>: what these use of the packages \<open>strings\<close>, \<open>path/filepath\<close> and \<open>time\<close>.

  This theory adds what spans them: a node that the command \<open>serve\<close> runs, with its two servers, and the clients that talk to it.

  \<^bold>\<open>Interfaces.\<close> Where one component relies on another, or several operations share a contract, the contract is a locale, interpreted on the
  model: \<open>clocker\<close> (the clock), \<open>lww_order\<close> and \<open>lww_store\<close> (the conflict rule and the map under it), \<open>frame_codec\<close> (RESP requests and log
  records), \<open>recency_list\<close> (the eviction list), \<open>kv_engine\<close> (the engine as a map), \<open>consistent_hashing\<close> (the ring), \<open>replicated_write\<close> (sets and
  deletes of the gateway) and \<open>db_backend\<close> (what the RESP server and the command line need of a database).

  \<^bold>\<open>Arguments.\<close> xxHash and the radix tree (\<open>env\<close>, with \<open>radix_laws\<close>), the protobuf library (\<open>codec\<close>), the encoding of node metadata, the membership
  library, the gRPC, network and flag libraries are not part of the repository: what they return is an argument. So are the answers of the
  operating system, the fate of each remote call, wall clock readings, random draws, what a pool hands back, the order in
  which Go visits a map and the interleaving of goroutines; a theorem holds for all of them unless it says otherwise.

  \<^bold>\<open>Loops and bounds.\<close> A loop that waits for the wall clock has the value \<open>None\<close> while the readings given do not let it finish; \<open>Progress\<close> shows
  that it returns when the clock moves. The expiry loop of the eviction service has the length of its list as fuel: each pass removes an
  entry or stops. The search for a port tries 1000 ports and the search for a base port 250 windows, as the code does; the port counter stays
  below 60000, so that a cluster of up to 2099 nodes has valid ports. The loops over received bytes and over durations consume
  their input and need no fuel. Machine integers keep their width: timestamps, counters, hashes, lengths and durations are words.

  \<^bold>\<open>Not modelled.\<close> The generated code under \<open>api/\<close> (messages are records, the wire format is the argument \<open>codec\<close>); the clients in other languages,
  benchmarks and deployment files; logging and the writer that adapts the log of the membership library; the program's entry, which calls
  \<open>Execute\<close>; the memory of pools where every field is written before use; the internals of the gRPC, network, membership and
  flag libraries.
\<close>

section \<open>A node and its clients\<close>

text \<open>An engine that starts without a snapshot, with a new clock, is empty and satisfies the invariant.\<close>

lemma fresh_engine:
  assumes "radix_laws E" and "NewEngine E C cfg mkdirOk opened io snpFile = Inr eng" and "cfg_DisableSnapshot cfg" and "cfg_Clock cfg = NewClock"
  shows "eng_inv E (Start_engine eng)" and "live_of E (Start_engine eng) = Map.empty" and "eng_phys (Start_engine eng) = 0"
proof -
  have sw: "sw_hm (eng_sw eng) = NewShardedMap E" "sw_clock (eng_sw eng) = NewClock"
    using assms(2-4) by (auto simp: NewEngine_def NewStorageWriter_def split: sum.splits)
  have st: "eng_sw (Start_engine eng) = eng_sw eng" by (simp add: Start_engine_def)
  show "eng_inv E (Start_engine eng)" using new_replica [OF assms(1)] assms(1)
    by (simp add: eng_inv_def sw_inv_def st sw NewClock_def clock_wf_def saturated_unat)
  show "live_of E (Start_engine eng) = Map.empty" using assms(1) by (simp add: fun_eq_iff live_of_def st sw)
  show "eng_phys (Start_engine eng) = 0" by (simp add: eng_phys_def phys_def st sw NewClock_def)
qed

lemma serve_builder_clock:
  assumes "serve_builder load dio fl = Inr eb"
  shows "eb_clock eb = Some NewClock"
proof -
  obtain b0 b1 b2 where s: "Default dio NewDatabaseBuilder = Inr b0" "serve_creds load fl b0 = Inr b1"
    "serve_intervals fl (serve_storage fl (serve_network fl b1)) = Inr b2"
    "eb = (if serveSingleNode fl then SetSingleNode (SetWalSegments (serveWALSegments fl) (SetWalBufferSize (serveWALBufferSize fl) b2))
           else SetWalSegments (serveWALSegments fl) (SetWalBufferSize (serveWALBufferSize fl) b2))" by (rule serve_builder_steps [OF assms])
  have b1: "eb_clock b1 = Some NewClock" using Default_eq [of dio NewDatabaseBuilder] s(1) serve_creds_eq(1) [OF s(2)] by auto
  obtain m where m: "serve_network fl b1 = b1\<lparr>eb_mesh := m\<rparr>" using serve_network_eq by blast
  obtain w sn g where "b2 = (serve_storage fl (serve_network fl b1))\<lparr>eb_walInterval := w, eb_snpInterval := sn, eb_gossipInterval := g\<rparr>"
    by (rule serve_intervals_eq [OF s(3)])
  then show ?thesis using b1 by (simp add: s(4) m serve_storage_def eb_defs)
qed

lemma Build_single:
  assumes "Build E C io eb = Inr d" and "SingleNode (eb_mesh eb)"
  obtains cfg eng c where "d = SingleDb eng (eb_mesh eb) (eb_creds eb)" "eb_clock eb = Some c"
    "NewEngine E C cfg (dio_mkdir io) (dio_opened io) (dio_recover io) (dio_snapshot io) = Inr eng"
    "cfg_Clock cfg = c" "cfg_DisableSnapshot cfg = eb_disableSnapshot eb"
  using assms by (auto simp: Build_def newDatabase_def cb_Build_def Let_def split: if_splits option.splits sum.splits)

lemma served_engine:
  assumes "radix_laws E" and "runServe E C io fl = Inr n" and "serveSingleNode fl" and "serveVolatile fl"
  obtains eng cfg cr where "sn_db n = [SingleDb eng cfg cr]" "eng_inv E eng" "live_of E eng = Map.empty" "eng_phys eng = 0"
proof -
  obtain eb d d' where s: "serve_builder (si_load io) (si_default io) fl = Inr eb" "Build E C (si_db io) eb = Inr d"
    "db_Start (si_join io) d = Inr d'" "sn_db n = [d']" by (rule runServe_steps [OF assms(2)])
  note f = serve_builder_fields [OF s(1)]
  have "SingleNode (eb_mesh eb)" using f(1) assms(3) by (simp add: flags_config_def)
  then obtain cfg eng c where e: "d = SingleDb eng (eb_mesh eb) (eb_creds eb)" "eb_clock eb = Some c"
    "NewEngine E C cfg (dio_mkdir (si_db io)) (dio_opened (si_db io)) (dio_recover (si_db io)) (dio_snapshot (si_db io)) = Inr eng"
    "cfg_Clock cfg = c" "cfg_DisableSnapshot cfg = eb_disableSnapshot eb" by (rule Build_single [OF s(2)])
  have g: "cfg_DisableSnapshot cfg" "cfg_Clock cfg = NewClock" using e(2,4,5) f(6) assms(4) serve_builder_clock [OF s(1)] by simp_all
  have "sn_db n = [SingleDb (Start_engine eng) (eb_mesh eb) (eb_creds eb)]" using s(3,4) e(1) by simp
  then show thesis by (rule that [OF _ fresh_engine [OF assms(1) e(3) g]])
qed



end
